(* ===== verification/Prelude.thy ===== *)
theory Prelude
  imports Complex_Main "HOL-Library.Sublist"
begin

section \<open>Shared vocabulary: Python values, errors, strings and tables\<close>

text \<open>
  What every component uses: the exceptions the code raises or catches, the result type of
  a call that may raise, a state-and-exception call, the Python string operations the code
  calls (\<^verbatim>\<open>str.split\<close>, \<^verbatim>\<open>str.strip\<close>, \<^verbatim>\<open>str.lower\<close>, \<^verbatim>\<open>str.partition\<close>, \<^verbatim>\<open>str.join\<close>),
  and Postgres tables as lists of rows with the statements the code issues.

  A character of the model is a code point below 256, so the length of a string counts code
  points as Python does; whitespace, letters, digits and case follow Python on that range.
  A \<^verbatim>\<open>datetime\<close> or \<^verbatim>\<open>timestamptz\<close> is the number of microseconds since the epoch (both
  sides of the wire have that resolution); a \<^verbatim>\<open>float\<close> is a real number.
\<close>

named_theorems table_simps \<open>equations of the table statements\<close>

subsection \<open>Exceptions and calls\<close>

datatype exn =
    ValueError
  | KeyError
  | TypeError
  | AttributeError
  | RuntimeError
  | TimeoutError
  | AssertionError
  | ImportError
  | OperationalError
  | InterfaceError
  | BudgetExhausted
  | RateLimited
  | RetryAfter real
  | DependencyDown
  | EmbedderUnhealthy
  | OtherError string

type_synonym 'a res = "exn + 'a"

text \<open>Go on with a value, or pass the exception on.\<close>

definition and_then :: "'a res \<Rightarrow> ('a \<Rightarrow> 'b res) \<Rightarrow> 'b res" where
  "and_then x f = (case x of Inl e \<Rightarrow> Inl e | Inr y \<Rightarrow> f y)"

lemma and_then_simps [simp]:
  "and_then (Inl e) f = Inl e"
  "and_then (Inr y) f = f y"
  by (simp_all add: and_then_def)

lemma and_then_Inr_iff: "and_then x f = Inr z \<longleftrightarrow> (\<exists>y. x = Inr y \<and> f y = Inr z)"
  by (cases x) simp_all

text \<open>Truthiness of an optional string: \<^verbatim>\<open>None\<close> and \<^verbatim>\<open>""\<close> are false.\<close>

definition truthy :: "string option \<Rightarrow> bool" where
  "truthy s \<longleftrightarrow> (case s of None \<Rightarrow> False | Some t \<Rightarrow> t \<noteq> [])"

text \<open>A call that reads and writes a state and may raise; the state survives the raise.\<close>

type_synonym ('s, 'a) call = "'s \<Rightarrow> 'a res \<times> 's"

subsection \<open>Time\<close>

type_synonym time = int

abbreviation seconds :: "int \<Rightarrow> time" where
  "seconds n \<equiv> n * 1000000"

abbreviation minutes :: "int \<Rightarrow> time" where
  "minutes n \<equiv> n * 60000000"

abbreviation hours :: "int \<Rightarrow> time" where
  "hours n \<equiv> n * 3600000000"

abbreviation days :: "int \<Rightarrow> time" where
  "days n \<equiv> n * 86400000000"

text \<open>\<^verbatim>\<open>timedelta.total_seconds()\<close>.\<close>

definition total_seconds :: "time \<Rightarrow> real" where
  "total_seconds d = real_of_int d / 1000000"

lemma total_seconds_mono [simp]: "total_seconds a \<le> total_seconds b \<longleftrightarrow> a \<le> b"
  by (simp add: total_seconds_def divide_right_mono)

lemma total_seconds_less [simp]: "total_seconds a < total_seconds b \<longleftrightarrow> a < b"
  by (simp add: total_seconds_def)

lemma total_seconds_zero [simp]: "total_seconds 0 = 0"
  by (simp add: total_seconds_def)

subsection \<open>Characters\<close>

text \<open>\<^verbatim>\<open>str.isspace\<close>, \<^verbatim>\<open>\\s\<close>, \<^verbatim>\<open>\\d\<close>, \<^verbatim>\<open>\\w\<close> and case, on code points below 256.\<close>

definition is_space :: "char \<Rightarrow> bool" where
  "is_space c \<longleftrightarrow> c \<in> {CHR '' '', CHR 0x09, CHR 0x0A, CHR 0x0B, CHR 0x0C, CHR 0x0D,
     CHR 0x1C, CHR 0x1D, CHR 0x1E, CHR 0x1F, CHR 0x85, CHR 0xA0}"

definition code :: "char \<Rightarrow> nat" where
  "code c = of_char c"

definition in_range :: "char \<Rightarrow> char \<Rightarrow> char \<Rightarrow> bool" where
  "in_range lo hi c \<longleftrightarrow> code lo \<le> code c \<and> code c \<le> code hi"

definition is_digit :: "char \<Rightarrow> bool" where
  "is_digit c \<longleftrightarrow> in_range CHR ''0'' CHR ''9'' c"

definition is_upper :: "char \<Rightarrow> bool" where
  "is_upper c \<longleftrightarrow> in_range CHR ''A'' CHR ''Z'' c"

definition is_lower :: "char \<Rightarrow> bool" where
  "is_lower c \<longleftrightarrow> in_range CHR ''a'' CHR ''z'' c"

definition is_word :: "char \<Rightarrow> bool" where
  "is_word c \<longleftrightarrow> is_digit c \<or> is_upper c \<or> is_lower c \<or> c = CHR ''_''
     \<or> c \<in> {CHR 0xAA, CHR 0xB2, CHR 0xB3, CHR 0xB5, CHR 0xB9, CHR 0xBA, CHR 0xBC, CHR 0xBD, CHR 0xBE}
     \<or> (192 \<le> code c \<and> c \<noteq> CHR 0xD7 \<and> c \<noteq> CHR 0xF7)"

definition lower_char :: "char \<Rightarrow> char" where
  "lower_char c = (if is_upper c \<or> (192 \<le> code c \<and> code c \<le> 222 \<and> c \<noteq> CHR 0xD7)
     then char_of (code c + 32) else c)"

definition lower :: "string \<Rightarrow> string" where
  "lower s = map lower_char s"

subsection \<open>Strings\<close>

text \<open>\<^verbatim>\<open>s.split()\<close>: the maximal runs of non-space characters.\<close>

fun split_acc :: "string \<Rightarrow> string \<Rightarrow> string list" where
  "split_acc cur [] = (if cur = [] then [] else [cur])"
| "split_acc cur (c # cs) =
     (if is_space c then (if cur = [] then split_acc [] cs else cur # split_acc [] cs)
      else split_acc (cur @ [c]) cs)"

definition split_ws :: "string \<Rightarrow> string list" where
  "split_ws s = split_acc [] s"

text \<open>\<^verbatim>\<open>sep.join(parts)\<close>.\<close>

fun join :: "string \<Rightarrow> string list \<Rightarrow> string" where
  "join sep [] = []"
| "join sep [p] = p"
| "join sep (p # q # ps) = p @ sep @ join sep (q # ps)"

text \<open>\<^verbatim>\<open>s.lstrip()\<close>, \<^verbatim>\<open>s.rstrip()\<close>, \<^verbatim>\<open>s.strip()\<close>.\<close>

definition lstrip :: "string \<Rightarrow> string" where
  "lstrip s = dropWhile is_space s"

definition rstrip :: "string \<Rightarrow> string" where
  "rstrip s = rev (dropWhile is_space (rev s))"

definition strip :: "string \<Rightarrow> string" where
  "strip s = rstrip (lstrip s)"

text \<open>\<^verbatim>\<open>sep in s\<close>, and \<^verbatim>\<open>s.partition(sep)\<close> as the part before and the part after, if any.\<close>

fun contains :: "string \<Rightarrow> string \<Rightarrow> bool" where
  "contains sub [] = (sub = [])"
| "contains sub (c # cs) = (prefix sub (c # cs) \<or> contains sub cs)"

fun partition_at :: "string \<Rightarrow> string \<Rightarrow> (string \<times> string) option" where
  "partition_at sep [] = (if sep = [] then Some ([], []) else None)"
| "partition_at sep (c # cs) =
     (if prefix sep (c # cs) then Some ([], drop (length sep) (c # cs))
      else map_option (\<lambda>(a, b). (c # a, b)) (partition_at sep cs))"

text \<open>\<^verbatim>\<open>str(n)\<close> for a natural number, and the zero-padded form.\<close>

fun digits_of :: "nat \<Rightarrow> string" where
  "digits_of n = (if n < 10 then [char_of (48 + n)] else digits_of (n div 10) @ [char_of (48 + n mod 10)])"

declare digits_of.simps [simp del]

definition show_int :: "int \<Rightarrow> string" where
  "show_int i = (if i < 0 then CHR ''-'' # digits_of (nat (- i)) else digits_of (nat i))"

definition pad_left :: "nat \<Rightarrow> char \<Rightarrow> string \<Rightarrow> string" where
  "pad_left n c s = replicate (n - length s) c @ s"

definition pad2 :: "nat \<Rightarrow> string" where
  "pad2 n = pad_left 2 CHR ''0'' (digits_of n)"

text \<open>Characters outside the range that the renderers emit, as their UTF-8 bytes.\<close>

definition em_dash :: string where
  "em_dash = [CHR 0xE2, CHR 0x80, CHR 0x94]"

definition ellipsis :: string where
  "ellipsis = [CHR 0xE2, CHR 0x80, CHR 0xA6]"

definition middle_dot :: string where
  "middle_dot = [CHR 0xC2, CHR 0xB7]"

definition newline :: string where
  "newline = [CHR 0x0A]"


subsection \<open>Word splitting\<close>

text \<open>
  The words of a text survive every operation that only moves whitespace: this is what the
  chunker's content preservation rests on.
\<close>

definition is_token :: "string \<Rightarrow> bool" where
  "is_token w \<longleftrightarrow> w \<noteq> [] \<and> (\<forall>c \<in> set w. \<not> is_space c)"

lemma is_space_blank [simp]: "is_space CHR '' ''"
  by (simp add: is_space_def)

lemma split_acc_tokens:
  assumes "list_all (\<lambda>c. \<not> is_space c) cur"
  shows "list_all is_token (split_acc cur s)"
  using assms
proof (induction s arbitrary: cur)
  case Nil
  then show ?case by (simp add: is_token_def list_all_iff)
next
  case (Cons c cs)
  have blank: "list_all is_token (split_acc [] cs)" by (rule Cons.IH) simp
  show ?case
  proof (cases "is_space c")
    case True
    with blank Cons.prems show ?thesis by (simp add: is_token_def list_all_iff)
  next
    case False
    with Cons.IH [of "cur @ [c]"] Cons.prems show ?thesis by simp
  qed
qed

lemma split_ws_tokens: "w \<in> set (split_ws s) \<Longrightarrow> is_token w"
  using split_acc_tokens [of "[]" s] by (simp add: split_ws_def list_all_iff)

lemma split_ws_Nil [simp]: "split_ws [] = []"
  by (simp add: split_ws_def)

lemma split_acc_at_space:
  "is_space c \<Longrightarrow> split_acc cur (a @ c # b) = split_acc cur a @ split_acc [] b"
  by (induction cur a rule: split_acc.induct) auto

lemma split_ws_at_space: "is_space c \<Longrightarrow> split_ws (a @ c # b) = split_ws a @ split_ws b"
  by (simp add: split_ws_def split_acc_at_space)

lemma split_ws_spaces: "\<forall>c \<in> set w. is_space c \<Longrightarrow> split_ws (w @ b) = split_ws b"
  by (induction w) (auto simp: split_ws_def)

lemma split_ws_around_spaces:
  assumes "w \<noteq> []" and "\<forall>c \<in> set w. is_space c"
  shows "split_ws (a @ w @ b) = split_ws a @ split_ws b"
proof -
  from assms(1) obtain c w' where w: "w = c # w'" by (cases w) auto
  with assms(2) have "is_space c" and "\<forall>c \<in> set w'. is_space c" by auto
  with w show ?thesis by (simp add: split_ws_at_space split_ws_spaces)
qed

lemma split_ws_all_space: "\<forall>c \<in> set w. is_space c \<Longrightarrow> split_ws w = []"
  using split_ws_spaces [of w "[]"] by simp

lemma split_ws_space_tail: "\<forall>c \<in> set w. is_space c \<Longrightarrow> split_ws (a @ w) = split_ws a"
  using split_ws_around_spaces [of w a "[]"] by (cases "w = []") auto

lemma split_acc_token:
  "\<forall>c \<in> set w. \<not> is_space c \<Longrightarrow> split_acc cur (w @ b) = split_acc (cur @ w) b"
  by (induction w arbitrary: cur) auto

lemma split_ws_token: "is_token w \<Longrightarrow> split_ws w = [w]"
  using split_acc_token [of w "[]" "[]"] by (simp add: split_ws_def is_token_def)

lemma split_ws_join: "\<forall>w \<in> set ws. is_token w \<Longrightarrow> split_ws (join '' '' ws) = ws"
  by (induction "'' ''" ws rule: join.induct) (auto simp: split_ws_token split_ws_at_space)

lemma join_snoc: "join sep (ps @ [q]) = (if ps = [] then q else join sep ps @ sep @ q)"
  by (induction sep ps rule: join.induct) auto

lemma lstrip_split: "\<exists>w. s = w @ lstrip s \<and> (\<forall>c \<in> set w. is_space c)"
  unfolding lstrip_def
  by (rule exI [of _ "takeWhile is_space s"]) (auto dest: set_takeWhileD)

lemma rstrip_split: "\<exists>w. s = rstrip s @ w \<and> (\<forall>c \<in> set w. is_space c)"
proof -
  let ?w = "rev (takeWhile is_space (rev s))"
  have "rev s = takeWhile is_space (rev s) @ dropWhile is_space (rev s)" by simp
  then have "s = rev (dropWhile is_space (rev s)) @ ?w"
    by (metis rev_append rev_rev_ident)
  then show ?thesis
    unfolding rstrip_def by (auto dest: set_takeWhileD intro!: exI [of _ ?w])
qed

lemma strip_split:
  "\<exists>v w. s = v @ strip s @ w \<and> (\<forall>c \<in> set v \<union> set w. is_space c)"
proof -
  obtain v where v: "s = v @ lstrip s" "\<forall>c \<in> set v. is_space c" using lstrip_split by blast
  obtain w where w: "lstrip s = rstrip (lstrip s) @ w" "\<forall>c \<in> set w. is_space c"
    using rstrip_split by blast
  have "s = v @ rstrip (lstrip s) @ w" using v(1) w(1) by simp
  with v w show ?thesis unfolding strip_def by blast
qed

lemma split_ws_strip [simp]: "split_ws (strip s) = split_ws s"
proof -
  obtain v w where s: "s = v @ strip s @ w" and sp: "\<forall>c \<in> set v \<union> set w. is_space c"
    using strip_split by blast
  have "split_ws s = split_ws (v @ strip s @ w)" using s by simp
  also have "\<dots> = split_ws (strip s)" using sp by (simp add: split_ws_spaces split_ws_space_tail)
  finally show ?thesis by simp
qed

lemma join_Nil_iff: "\<forall>w \<in> set ws. w \<noteq> [] \<Longrightarrow> join sep ws = [] \<longleftrightarrow> ws = []"
  by (induction sep ws rule: join.induct) auto

subsection \<open>Tables\<close>

text \<open>
  A table is the list of its rows. \<^verbatim>\<open>UPDATE t SET .. WHERE p\<close> rewrites the rows that satisfy
  \<open>p\<close>; \<^verbatim>\<open>.. RETURNING key\<close> tells whether one did; \<^verbatim>\<open>INSERT .. ON CONFLICT (key) DO UPDATE\<close> is
  \<open>upsert\<close>, \<^verbatim>\<open>DO NOTHING\<close> is \<open>upsert\<close> with the identity. \<open>keyed\<close> is the primary-key constraint.
\<close>

definition update_rows :: "('r \<Rightarrow> bool) \<Rightarrow> ('r \<Rightarrow> 'r) \<Rightarrow> 'r list \<Rightarrow> 'r list" where
  "update_rows p f t = map (\<lambda>r. if p r then f r else r) t"

fun upsert :: "('r \<Rightarrow> 'k) \<Rightarrow> 'r \<Rightarrow> ('r \<Rightarrow> 'r) \<Rightarrow> 'r list \<Rightarrow> 'r list" where
  "upsert key new f [] = [new]"
| "upsert key new f (r # rs) = (if key r = key new then f r # rs else r # upsert key new f rs)"

definition row_of :: "('r \<Rightarrow> 'k) \<Rightarrow> 'k \<Rightarrow> 'r list \<Rightarrow> 'r option" where
  "row_of key k t = find (\<lambda>r. key r = k) t"

definition keyed :: "('r \<Rightarrow> 'k) \<Rightarrow> 'r list \<Rightarrow> bool" where
  "keyed key t \<longleftrightarrow> distinct (map key t)"

lemma row_of_Nil [table_simps]: "row_of key k [] = None"
  by (simp add: row_of_def)

lemma row_of_Cons [table_simps]:
  "row_of key k (r # rs) = (if key r = k then Some r else row_of key k rs)"
  by (simp add: row_of_def)

lemma row_of_append [table_simps]:
  "row_of key k (t @ u) = (case row_of key k t of None \<Rightarrow> row_of key k u | Some r \<Rightarrow> Some r)"
  by (induction t) (simp_all add: table_simps)

lemma row_of_SomeD: "row_of key k t = Some r \<Longrightarrow> r \<in> set t \<and> key r = k"
  by (induction t) (auto simp: table_simps split: if_splits)

lemma row_of_None_iff: "row_of key k t = None \<longleftrightarrow> k \<notin> key ` set t"
  by (induction t) (auto simp: table_simps)

lemma row_of_Some_iff: "keyed key t \<Longrightarrow> row_of key k t = Some r \<longleftrightarrow> r \<in> set t \<and> key r = k"
  by (induction t) (auto simp: table_simps keyed_def rev_image_eqI)

lemma row_of_update_rows:
  assumes "\<And>r. key (f r) = key r"
  shows "row_of key k (update_rows p f t) =
    map_option (\<lambda>r. if p r then f r else r)
      (row_of key k t)"
  by (induction t) (auto simp: update_rows_def table_simps assms)

lemma keyed_update_rows:
  assumes "\<And>r. key (f r) = key r"
  shows "keyed key (update_rows p f t) = keyed key t"
proof -
  have "map key (update_rows p f t) = map key t"
    by (simp add: update_rows_def assms)
  then show ?thesis by (simp add: keyed_def)
qed

lemma keys_upsert: "(\<And>r. key (f r) = key r) \<Longrightarrow> key ` set (upsert key new f t) = insert (key new) (key ` set t)"
  by (induction t) (auto simp: insert_commute)

lemma keyed_upsert:
  assumes "\<And>r. key (f r) = key r" and "keyed key t"
  shows "keyed key (upsert key new f t)"
  using assms(2)
proof (induction t)
  case (Cons r rs)
  have "key ` set (upsert key new f rs) = insert (key new) (key ` set rs)"
    by (rule keys_upsert) (rule assms(1))
  with Cons show ?case by (auto simp: keyed_def assms(1))
qed (simp add: keyed_def)

lemma row_of_upsert:
  assumes "\<And>r. key (f r) = key r"
  shows "row_of key k (upsert key new f t) =
    (if k = key new then Some (case row_of key k t of None \<Rightarrow> new | Some r \<Rightarrow> f r)
     else row_of key k t)"
  by (induction t) (auto simp: table_simps assms)

lemma keyed_filter: "keyed key t \<Longrightarrow> keyed key (filter p t)"
  by (auto simp: keyed_def distinct_map intro: inj_on_subset)

lemma row_of_filter_keyed:
  assumes "keyed key t"
  shows "row_of key k (filter p t) =
     (case row_of key k t of None \<Rightarrow> None | Some r \<Rightarrow> if p r then Some r else None)"
proof (cases "row_of key k (filter p t)")
  case None
  then show ?thesis
    by (auto simp: row_of_None_iff split: option.splits dest!: row_of_SomeD)
next
  case (Some r)
  then have "row_of key k t = Some r" and "p r"
    using assms by (auto simp: row_of_Some_iff dest!: row_of_SomeD)
  with Some show ?thesis by simp
qed

end
