(* ===== verification/Regex.thy ===== *)
theory Regex
  imports Prelude
begin

section \<open>The regular expressions of the standard library\<close>

text \<open>
  The program splits sentences, reads status markup, recognises citations and infers time
  windows with Python's \<^verbatim>\<open>re\<close> module. This theory models the part of \<^verbatim>\<open>re\<close> it uses as a
  backtracking matcher: \<open>matches r st\<close> lists the states the pattern \<open>r\<close> can reach from \<open>st\<close> in
  the order Python tries them, so its head is the match Python reports. A state is the text
  before the current position (reversed), the text after it, and the groups captured so far.
  Greedy and lazy repetition differ only in that order. A repetition step must consume a
  character, so the length of the remaining text is enough fuel for any number of iterations.
\<close>

type_synonym groups = "(nat \<times> string) list"

type_synonym mstate = "string \<times> string \<times> groups"

abbreviation rest :: "mstate \<Rightarrow> string" where
  "rest st \<equiv> fst (snd st)"

datatype re =
    Cls "char \<Rightarrow> bool"
  | Eps
  | Cat re re
  | Alt re re
  | Star bool re
  | Grp nat re
  | Ahead bool re
  | Behind "char \<Rightarrow> bool"
  | WordEdge
  | TextEnd
  | Dollar
  | LineStart
  | LineEnd

fun step_class :: "(char \<Rightarrow> bool) \<Rightarrow> mstate \<Rightarrow> mstate list" where
  "step_class p (b, [], g) = []"
| "step_class p (b, c # cs, g) = (if p c then [(c # b, cs, g)] else [])"

fun iterate :: "nat \<Rightarrow> bool \<Rightarrow> (mstate \<Rightarrow> mstate list) \<Rightarrow> mstate \<Rightarrow> mstate list" where
  "iterate 0 greedy f st = [st]"
| "iterate (Suc n) greedy f st =
     (let more = concat (map (iterate n greedy f) (filter (\<lambda>u. length (rest u) < length (rest st)) (f st)))
      in if greedy then more @ [st] else st # more)"

definition edge_between :: "string \<Rightarrow> string \<Rightarrow> bool" where
  "edge_between b a \<longleftrightarrow>
     (case b of [] \<Rightarrow> False | c # _ \<Rightarrow> is_word c) \<noteq> (case a of [] \<Rightarrow> False | c # _ \<Rightarrow> is_word c)"

primrec matches :: "re \<Rightarrow> mstate \<Rightarrow> mstate list" where
  "matches (Cls p) st = step_class p st"
| "matches Eps st = [st]"
| "matches (Cat r q) st = concat (map (matches q) (matches r st))"
| "matches (Alt r q) st = matches r st @ matches q st"
| "matches (Star greedy r) st = iterate (length (rest st)) greedy (matches r) st"
| "matches (Grp n r) st =
     map (\<lambda>(b, a, g). (b, a, (n, take (length (rest st) - length a) (rest st)) # g)) (matches r st)"
| "matches (Ahead positive r) st = (if (matches r st \<noteq> []) = positive then [st] else [])"
| "matches (Behind p) st =
     (case fst st of [] \<Rightarrow> [] | c # _ \<Rightarrow> if p c then [st] else [])"
| "matches WordEdge st = (if edge_between (fst st) (rest st) then [st] else [])"
| "matches TextEnd st = (if rest st = [] then [st] else [])"
| "matches Dollar st = (if rest st = [] \<or> rest st = [CHR 0x0A] then [st] else [])"
| "matches LineStart st =
     (case fst st of [] \<Rightarrow> [st] | c # _ \<Rightarrow> if c = CHR 0x0A then [st] else [])"
| "matches LineEnd st =
     (case rest st of [] \<Rightarrow> [st] | c # _ \<Rightarrow> if c = CHR 0x0A then [st] else [])"

subsection \<open>Pattern vocabulary\<close>

definition any_char :: re where
  "any_char = Cls (\<lambda>c. True)"

definition dot :: re where
  "dot = Cls (\<lambda>c. c \<noteq> CHR 0x0A)"

definition ch :: "char \<Rightarrow> re" where
  "ch d = Cls (\<lambda>c. c = d)"

definition one_of :: "string \<Rightarrow> re" where
  "one_of cs = Cls (\<lambda>c. c \<in> set cs)"

definition none_of :: "string \<Rightarrow> re" where
  "none_of cs = Cls (\<lambda>c. c \<notin> set cs)"

definition space :: re where
  "space = Cls is_space"

fun seq :: "re list \<Rightarrow> re" where
  "seq [] = Eps"
| "seq [r] = r"
| "seq (r # q # rs) = Cat r (seq (q # rs))"

fun alt :: "re list \<Rightarrow> re" where
  "alt [] = Ahead True (Cls (\<lambda>c. False))"
| "alt [r] = r"
| "alt (r # q # rs) = Alt r (alt (q # rs))"

definition lit :: "string \<Rightarrow> re" where
  "lit s = seq (map ch s)"

text \<open>A literal under \<^verbatim>\<open>re.I\<close>; the pattern text is written in lower case.\<close>

definition lit_i :: "string \<Rightarrow> re" where
  "lit_i s = seq (map (\<lambda>d. Cls (\<lambda>c. lower_char c = d)) s)"

definition opt :: "re \<Rightarrow> re" where
  "opt r = Alt r Eps"

definition many :: "re \<Rightarrow> re" where
  "many r = Star True r"

definition many_lazy :: "re \<Rightarrow> re" where
  "many_lazy r = Star False r"

definition some :: "re \<Rightarrow> re" where
  "some r = Cat r (many r)"

definition some_lazy :: "re \<Rightarrow> re" where
  "some_lazy r = Cat r (many_lazy r)"

fun times :: "nat \<Rightarrow> re \<Rightarrow> re" where
  "times 0 r = Eps"
| "times (Suc n) r = Cat r (times n r)"

fun upto_times :: "nat \<Rightarrow> re \<Rightarrow> re" where
  "upto_times 0 r = Eps"
| "upto_times (Suc n) r = Alt (Cat r (upto_times n r)) Eps"

fun upto_times_lazy :: "nat \<Rightarrow> re \<Rightarrow> re" where
  "upto_times_lazy 0 r = Eps"
| "upto_times_lazy (Suc n) r = Alt Eps (Cat r (upto_times_lazy n r))"

subsection \<open>Searching, scanning, substituting and splitting\<close>

fun group :: "nat \<Rightarrow> groups \<Rightarrow> string option" where
  "group n [] = None"
| "group n ((m, s) # g) = (if m = n then Some s else group n g)"

definition group_text :: "nat \<Rightarrow> groups \<Rightarrow> string" where
  "group_text n g = (case group n g of None \<Rightarrow> [] | Some s \<Rightarrow> s)"

text \<open>\<^verbatim>\<open>pattern.search(s)\<close>: the text before the match, the match, its groups, the text after.\<close>

fun find_from :: "re \<Rightarrow> string \<Rightarrow> string \<Rightarrow> (string \<times> string \<times> groups \<times> string) option" where
  "find_from r b [] =
     (case matches r (b, [], []) of
        (b', a', g) # _ \<Rightarrow> Some (rev b, [], g, a')
      | [] \<Rightarrow> None)"
| "find_from r b (c # cs) =
     (case matches r (b, c # cs, []) of
        (b', a', g) # _ \<Rightarrow> Some (rev b, take (Suc (length cs) - length a') (c # cs), g, a')
      | [] \<Rightarrow> find_from r (c # b) cs)"

definition search :: "re \<Rightarrow> string \<Rightarrow> (string \<times> string \<times> groups \<times> string) option" where
  "search r s = find_from r [] s"

definition found :: "re \<Rightarrow> string \<Rightarrow> bool" where
  "found r s \<longleftrightarrow> search r s \<noteq> None"

text \<open>
  \<^verbatim>\<open>pattern.finditer(s)\<close>, with the unmatched characters in between: the input cut into
  single characters (\<open>Inl\<close>) and leftmost non-overlapping matches (\<open>Inr\<close>). Every pattern the
  program iterates, substitutes or splits with matches at least one character.
\<close>

type_synonym piece = "char + string \<times> groups"

function scan_from :: "re \<Rightarrow> string \<Rightarrow> string \<Rightarrow> piece list" where
  "scan_from r b [] = []"
| "scan_from r b (c # cs) =
     (case matches r (b, c # cs, []) of
        [] \<Rightarrow> Inl c # scan_from r (c # b) cs
      | (b', a', g) # _ \<Rightarrow>
          if length a' \<le> length cs
          then Inr (take (Suc (length cs) - length a') (c # cs), g) # scan_from r b' a'
          else Inl c # scan_from r (c # b) cs)"
  by pat_completeness auto
termination
  by (relation "measure (\<lambda>(r, b, s). length s)") auto

definition scan :: "re \<Rightarrow> string \<Rightarrow> piece list" where
  "scan r s = scan_from r [] s"

text \<open>\<^verbatim>\<open>pattern.sub(f, s)\<close>, \<^verbatim>\<open>pattern.findall(s)\<close>, \<^verbatim>\<open>pattern.split(s)\<close>.\<close>

fun piece_text :: "(string \<Rightarrow> groups \<Rightarrow> string) \<Rightarrow> piece \<Rightarrow> string" where
  "piece_text f (Inl c) = [c]"
| "piece_text f (Inr (w, g)) = f w g"

definition sub :: "re \<Rightarrow> (string \<Rightarrow> groups \<Rightarrow> string) \<Rightarrow> string \<Rightarrow> string" where
  "sub r f s = concat (map (piece_text f) (scan r s))"

fun piece_match :: "piece \<Rightarrow> (string \<times> groups) list" where
  "piece_match (Inl c) = []"
| "piece_match (Inr m) = [m]"

definition findall :: "re \<Rightarrow> string \<Rightarrow> (string \<times> groups) list" where
  "findall r s = concat (map piece_match (scan r s))"

fun split_pieces :: "string \<Rightarrow> piece list \<Rightarrow> string list" where
  "split_pieces cur [] = [cur]"
| "split_pieces cur (Inl c # ps) = split_pieces (cur @ [c]) ps"
| "split_pieces cur (Inr m # ps) = cur # split_pieces [] ps"

definition re_split :: "re \<Rightarrow> string \<Rightarrow> string list" where
  "re_split r s = split_pieces [] (scan r s)"

subsection \<open>What a match consumes\<close>

text \<open>Every state a pattern reaches has moved a prefix of the remaining text behind the position.\<close>

definition advances :: "mstate \<Rightarrow> mstate \<Rightarrow> bool" where
  "advances st u \<longleftrightarrow> (\<exists>w. rest st = w @ rest u \<and> fst u = rev w @ fst st)"

lemma advances_refl [simp]: "advances st st"
  by (simp add: advances_def)

lemma advances_trans: "advances st u \<Longrightarrow> advances u v \<Longrightarrow> advances st v"
  by (auto simp: advances_def)

lemma advances_length: "advances st u \<Longrightarrow> length (rest u) \<le> length (rest st)"
  by (auto simp: advances_def)

lemma step_class_advances: "u \<in> set (step_class p st) \<Longrightarrow> advances st u"
  by (induction p st rule: step_class.induct) (auto simp: advances_def split: if_splits)

lemma iterate_advances:
  assumes "\<And>st u. u \<in> set (f st) \<Longrightarrow> advances st u"
  shows "u \<in> set (iterate n greedy f st) \<Longrightarrow> advances st u"
proof (induction n arbitrary: st)
  case (Suc n)
  then consider "u = st" | v where "v \<in> set (f st)" "u \<in> set (iterate n greedy f v)"
    by (auto simp: Let_def split: if_splits)
  then show ?case
    by cases (auto intro: advances_trans Suc.IH assms)
qed simp

lemma matches_advances: "u \<in> set (matches r st) \<Longrightarrow> advances st u"
proof (induction r arbitrary: st u)
  case (Cls p)
  then show ?case by (auto intro: step_class_advances)
next
  case (Cat r q)
  from Cat.prems obtain v where "v \<in> set (matches r st)" and "u \<in> set (matches q v)" by auto
  then show ?case using Cat.IH advances_trans by blast
next
  case (Star greedy r)
  then show ?case using iterate_advances [of "matches r"] by simp
next
  case (Grp n r)
  then obtain b a g where "(b, a, g) \<in> set (matches r st)" and "fst u = b" and "rest u = a"
    by auto
  with Grp.IH [of "(b, a, g)" st] show ?case by (auto simp: advances_def)
qed (auto split: if_splits list.splits)

lemma matches_consumes:
  assumes "(b', a', g) \<in> set (matches r (b, s, g0))"
  shows "s = take (length s - length a') s @ a'" and "b' = rev (take (length s - length a') s) @ b"
  using matches_advances [OF assms] by (auto simp: advances_def)

text \<open>Scanning loses nothing: the pieces, in order, spell the input.\<close>

abbreviation piece_source :: "piece \<Rightarrow> string" where
  "piece_source \<equiv> piece_text (\<lambda>w g. w)"

lemma scan_from_lossless: "concat (map piece_source (scan_from r b s)) = s"
proof (induction r b s rule: scan_from.induct)
  case (2 r b c cs)
  show ?case
  proof (cases "matches r (b, c # cs, [])")
    case Nil
    with "2.IH"(1) show ?thesis by simp
  next
    case (Cons u us)
    obtain b' a' g where u: "u = (b', a', g)" by (cases u) auto
    note m = Cons [unfolded u]
    show ?thesis
    proof (cases "length a' \<le> length cs")
      case True
      have "c # cs = take (Suc (length cs) - length a') (c # cs) @ a'"
        using matches_consumes(1) [of b' a' g r b "c # cs" "[]"] Cons u by simp
      with True m "2.IH"(2) [OF m refl refl] show ?thesis by simp
    next
      case False
      with m "2.IH"(3) [OF m refl refl] show ?thesis by simp
    qed
  qed
qed simp

lemma scan_lossless: "concat (map piece_source (scan r s)) = s"
  by (simp add: scan_def scan_from_lossless)

lemma sub_id: "sub r (\<lambda>w g. w) s = s"
  by (simp add: sub_def scan_lossless)

text \<open>The text of a match was reached by the pattern at that point.\<close>

lemma scan_from_matched:
  "Inr (w, g) \<in> set (scan_from r b s) \<Longrightarrow>
     w \<noteq> [] \<and> (\<exists>b0 s0 b'. (b', s0, g) \<in> set (matches r (b0, w @ s0, [])))"
proof (induction r b s rule: scan_from.induct)
  case (2 r b c cs)
  show ?case
  proof (cases "matches r (b, c # cs, [])")
    case Nil
    with 2 show ?thesis by auto
  next
    case (Cons u us)
    obtain b' a' h where u: "u = (b', a', h)" by (cases u) auto
    note m = Cons [unfolded u]
    show ?thesis
    proof (cases "length a' \<le> length cs")
      case False
      with "2.prems" m "2.IH"(3) [OF m refl refl] show ?thesis by auto
    next
      case True
      let ?w = "take (Suc (length cs) - length a') (c # cs)"
      have split: "c # cs = ?w @ a'"
        using matches_consumes(1) [of b' a' h r b "c # cs" "[]"] Cons u by simp
      have here: "(b', a', h) \<in> set (matches r (b, ?w @ a', []))"
        using Cons u split by simp
      have "?w \<noteq> []" using True by (simp add: Suc_diff_le)
      with "2.prems" m True here "2.IH"(2) [OF m refl refl] show ?thesis by auto
    qed
  qed
qed simp

lemma scan_matched:
  "Inr (w, g) \<in> set (scan r s) \<Longrightarrow>
     w \<noteq> [] \<and> (\<exists>b0 s0 b'. (b', s0, g) \<in> set (matches r (b0, w @ s0, [])))"
  unfolding scan_def by (rule scan_from_matched)

subsection \<open>Single-class repetition\<close>

text \<open>A repeated character class consumes only characters of the class.\<close>

definition consumes_only :: "(char \<Rightarrow> bool) \<Rightarrow> mstate \<Rightarrow> mstate \<Rightarrow> bool" where
  "consumes_only p st u \<longleftrightarrow> (\<exists>w. rest st = w @ rest u \<and> (\<forall>c \<in> set w. p c))"

lemma consumes_only_refl [simp]: "consumes_only p st st"
  by (simp add: consumes_only_def)

lemma consumes_only_trans: "consumes_only p st u \<Longrightarrow> consumes_only p u v \<Longrightarrow> consumes_only p st v"
  by (fastforce simp: consumes_only_def)

lemma step_class_only: "u \<in> set (step_class p st) \<Longrightarrow> consumes_only p st u"
  by (induction p st rule: step_class.induct) (auto simp: consumes_only_def split: if_splits)

lemma iterate_only:
  assumes "\<And>st u. u \<in> set (f st) \<Longrightarrow> consumes_only p st u"
  shows "u \<in> set (iterate n greedy f st) \<Longrightarrow> consumes_only p st u"
proof (induction n arbitrary: st)
  case (Suc n)
  then consider "u = st" | v where "v \<in> set (f st)" "u \<in> set (iterate n greedy f v)"
    by (auto simp: Let_def split: if_splits)
  then show ?case
    by cases (auto intro: consumes_only_trans Suc.IH assms)
qed simp

lemma star_class_only: "u \<in> set (matches (Star greedy (Cls p)) st) \<Longrightarrow> consumes_only p st u"
  using iterate_only [of "matches (Cls p)" p] step_class_only by (metis matches.simps(1) matches.simps(5))

lemma consumes_only_take:
  assumes "consumes_only p (b, s, g) (b', a', g')"
  shows "\<forall>c \<in> set (take (length s - length a') s). p c"
  using assms by (auto simp: consumes_only_def)

subsection \<open>Where a search stands, and what it captured\<close>

lemma find_from_matched:
  "find_from r b s = Some (p, m, g, a) \<Longrightarrow> \<exists>b0 s0 b'. (b', a, g) \<in> set (matches r (b0, s0, []))"
proof (induction r b s rule: find_from.induct)
  case (1 r b)
  then show ?case by (auto split: list.splits) (metis list.set_intros(1))
next
  case (2 r b c cs)
  show ?case
  proof (cases "matches r (b, c # cs, [])")
    case Nil
    with 2 show ?thesis by simp
  next
    case (Cons u us)
    obtain b' a' h where u: "u = (b', a', h)" by (cases u) auto
    with Cons "2.prems" have "(b', a, g) \<in> set (matches r (b, c # cs, []))" by simp
    then show ?thesis by blast
  qed
qed

fun group_free :: "re \<Rightarrow> bool" where
  "group_free (Cat r q) = (group_free r \<and> group_free q)"
| "group_free (Alt r q) = (group_free r \<and> group_free q)"
| "group_free (Star greedy r) = group_free r"
| "group_free (Grp n r) = False"
| "group_free r = True"

lemma iterate_groups:
  assumes "\<And>st u. u \<in> set (f st) \<Longrightarrow> snd (snd u) = snd (snd st)"
  shows "u \<in> set (iterate n greedy f st) \<Longrightarrow> snd (snd u) = snd (snd st)"
proof (induction n arbitrary: st)
  case (Suc n)
  then consider "u = st" | v where "v \<in> set (f st)" "u \<in> set (iterate n greedy f v)"
    by (auto simp: Let_def split: if_splits)
  then show ?case by cases (use Suc.IH assms in metis)+
qed simp

lemma group_free_matches: "group_free r \<Longrightarrow> u \<in> set (matches r st) \<Longrightarrow> snd (snd u) = snd (snd st)"
proof (induction r arbitrary: st u)
  case (Cls p)
  then show ?case by (cases st; cases "fst (snd st)") (auto split: if_splits)
next
  case (Cat r q)
  then obtain v where "v \<in> set (matches r st)" and "u \<in> set (matches q v)" by auto
  with Cat show ?case by (metis group_free.simps(1))
next
  case (Star greedy r)
  then have r: "group_free r" and u: "u \<in> set (iterate (length (rest st)) greedy (matches r) st)" by simp_all
  show ?case by (rule iterate_groups [OF _ u]) (rule Star.IH [OF r])
qed (auto split: if_splits list.splits)

lemma group_free_seq: "list_all group_free rs \<Longrightarrow> group_free (seq rs)"
  by (induction rs rule: seq.induct) simp_all

lemma group_free_lit_i [simp]: "group_free (lit_i s)"
  unfolding lit_i_def by (rule group_free_seq) (simp add: list_all_iff)

lemma some_class_matches:
  assumes "u \<in> set (matches (some (Cls p)) st)"
  shows "consumes_only p st u \<and> length (rest u) < length (rest st)"
proof -
  from assms obtain v where v: "v \<in> set (step_class p st)" "u \<in> set (matches (Star True (Cls p)) v)"
    by (auto simp: some_def many_def simp del: matches.simps(5))
  have "length (rest v) < length (rest st)"
    using v(1) by (induction p st rule: step_class.induct) (auto split: if_splits)
  moreover have "length (rest u) \<le> length (rest v)" using matches_advances [OF v(2)] advances_length by blast
  ultimately show ?thesis
    using consumes_only_trans [OF step_class_only [OF v(1)] star_class_only [OF v(2)]] by simp
qed

end
