(* ===== verification/Chunking.thy ===== *)
theory Chunking
  imports Regex
begin

section \<open>The sentence-aware chunker (\<^verbatim>\<open>freshet/pipeline/chunking.py\<close>)\<close>

text \<open>
  \<open>split_sentences\<close> normalises whitespace and cuts at \<open>sentence_end\<close>; \<open>chunk_text\<close> packs whole
  sentences up to a limit, and \<open>pack_words\<close> is the fallback for one sentence that is longer than
  the limit. The Python loops over a list of chunks and the chunk under construction are the
  two \<open>_loop\<close> functions, with the same two variables. The lemmas show that packing loses and
  reorders no word, that a chunk exceeds the limit only when it is a single word, and that a
  sentence that fits is never cut.
\<close>

definition DEFAULT_MAX_CHARS :: int where
  "DEFAULT_MAX_CHARS = 400"

definition sentence_end :: re where
  "sentence_end = seq [Behind (\<lambda>c. c \<in> set ''.!?''), some space,
     Ahead True (Cls (\<lambda>c. is_upper c \<or> is_digit c \<or> c \<in> {CHR 0x22, CHR 0x27, CHR ''['', CHR ''(''}))]"

definition split_sentences :: "string \<Rightarrow> string list" where
  "split_sentences text =
     (let flat = join '' '' (split_ws text)
      in if flat = [] then [] else filter (\<lambda>s. s \<noteq> []) (map strip (re_split sentence_end flat)))"

fun pack_words_loop :: "int \<Rightarrow> string list \<Rightarrow> string \<Rightarrow> string list \<Rightarrow> string list \<times> string" where
  "pack_words_loop max_chars chunks current [] = (chunks, current)"
| "pack_words_loop max_chars chunks current (word # words) =
     (if current = [] then pack_words_loop max_chars chunks word words
      else if int (length current) + 1 + int (length word) \<le> max_chars
      then pack_words_loop max_chars chunks (current @ '' '' @ word) words
      else pack_words_loop max_chars (chunks @ [current]) word words)"

definition flush_current :: "string list \<times> string \<Rightarrow> string list" where
  "flush_current cc = (if snd cc \<noteq> [] then fst cc @ [snd cc] else fst cc)"

definition pack_words :: "string \<Rightarrow> int \<Rightarrow> string list" where
  "pack_words sentence max_chars =
     flush_current (pack_words_loop max_chars [] [] (split_ws sentence))"

fun chunk_loop :: "int \<Rightarrow> string list \<Rightarrow> string \<Rightarrow> string list \<Rightarrow> string list \<times> string" where
  "chunk_loop max_chars chunks current [] = (chunks, current)"
| "chunk_loop max_chars chunks current (sentence # sentences) =
     (if int (length sentence) > max_chars
      then chunk_loop max_chars
             ((if current \<noteq> [] then chunks @ [current] else chunks) @ pack_words sentence max_chars)
             [] sentences
      else if current = [] then chunk_loop max_chars chunks sentence sentences
      else if int (length current) + 1 + int (length sentence) \<le> max_chars
      then chunk_loop max_chars chunks (current @ '' '' @ sentence) sentences
      else chunk_loop max_chars (chunks @ [current]) sentence sentences)"

definition chunk_text :: "string \<Rightarrow> int option \<Rightarrow> string list" where
  "chunk_text text max_chars =
     (let m = (case max_chars of None \<Rightarrow> DEFAULT_MAX_CHARS | Some m \<Rightarrow> m)
      in flush_current (chunk_loop m [] [] (split_sentences text)))"

subsection \<open>Words of the sentences\<close>

abbreviation words_of :: "string list \<Rightarrow> string list" where
  "words_of parts \<equiv> concat (map split_ws parts)"

lemma words_of_split_pieces:
  "\<forall>w g. Inr (w, g) \<in> set ps \<longrightarrow> w \<noteq> [] \<and> (\<forall>c \<in> set w. is_space c) \<Longrightarrow>
     words_of (split_pieces cur ps) = split_ws (cur @ concat (map piece_source ps))"
proof (induction cur ps rule: split_pieces.induct)
  case (3 cur m ps)
  obtain w g where m: "m = (w, g)" by (cases m)
  with "3.prems" have sp: "w \<noteq> []" "\<forall>c \<in> set w. is_space c" by auto
  from "3.prems" have "words_of (split_pieces [] ps) = split_ws (concat (map piece_source ps))"
    using "3.IH" by simp
  then show ?case using split_ws_around_spaces [OF sp] m by simp
qed simp_all

lemma sentence_end_spaces:
  "Inr (w, g) \<in> set (scan sentence_end s) \<Longrightarrow> w \<noteq> [] \<and> (\<forall>c \<in> set w. is_space c)"
proof -
  assume "Inr (w, g) \<in> set (scan sentence_end s)"
  then obtain b0 s0 b' where w: "w \<noteq> []"
    and m: "(b', s0, g) \<in> set (matches sentence_end (b0, w @ s0, []))"
    using scan_matched by blast
  from m obtain v u where
    v: "v \<in> set (step_class is_space (b0, w @ s0, []))"
    and u: "u \<in> set (matches (Star True (Cls is_space)) v)"
    and e: "u = (b', s0, g)"
    by (auto simp: sentence_end_def some_def many_def space_def
        split: list.splits if_splits simp del: matches.simps(5))
  have "consumes_only is_space (b0, w @ s0, []) u"
    using step_class_only [OF v] star_class_only [OF u] by (rule consumes_only_trans)
  with e have "\<forall>c \<in> set w. is_space c"
    using consumes_only_take [of is_space b0 "w @ s0" "[]" b' s0 g] by simp
  with w show ?thesis by simp
qed

lemma words_of_nonempty_strip:
  "words_of (filter (\<lambda>s. s \<noteq> []) (map strip parts)) = words_of parts"
proof (induction parts)
  case (Cons p ps)
  have "strip p = [] \<Longrightarrow> split_ws p = []"
    using split_ws_strip [of p] by simp
  with Cons show ?case by auto
qed simp

lemma join_split_ws_Nil: "join '' '' (split_ws t) = [] \<longleftrightarrow> split_ws t = []"
  by (rule join_Nil_iff) (auto dest: split_ws_tokens simp: is_token_def)

lemma words_of_sentences: "words_of (split_sentences t) = split_ws t"
proof (cases "split_ws t = []")
  case False
  let ?flat = "join '' '' (split_ws t)"
  have "words_of (re_split sentence_end ?flat) = split_ws ?flat"
    unfolding re_split_def
    by (subst words_of_split_pieces) (auto dest: sentence_end_spaces simp: scan_lossless)
  also have "\<dots> = split_ws t"
    by (rule split_ws_join) (auto dest: split_ws_tokens)
  finally show ?thesis using False
    by (simp add: split_sentences_def words_of_nonempty_strip join_split_ws_Nil)
qed (simp add: split_sentences_def)

lemma sentence_nonempty: "s \<in> set (split_sentences t) \<Longrightarrow> s \<noteq> []"
  by (auto simp: split_sentences_def Let_def split: if_splits)

subsection \<open>Packing\<close>

lemma split_ws_glue: "split_ws (a @ '' '' @ b) = split_ws a @ split_ws b"
  by (simp add: split_ws_at_space)

lemma words_of_flush: "words_of (flush_current (chunks, current)) = words_of chunks @ split_ws current"
  by (simp add: flush_current_def)

lemma words_of_pack_words_loop:
  "words_of (flush_current (pack_words_loop m chunks current ws)) =
     words_of chunks @ split_ws current @ words_of ws"
  by (induction m chunks current ws rule: pack_words_loop.induct)
    (auto simp: words_of_flush split_ws_at_space)

lemma words_of_pack_words: "words_of (pack_words s m) = split_ws s"
proof -
  have "words_of ws = ws" if "\<forall>w \<in> set ws. is_token w" for ws
    using that by (induction ws) (simp_all add: split_ws_token)
  then show ?thesis
    by (simp add: pack_words_def words_of_pack_words_loop split_ws_tokens)
qed

lemma words_of_chunk_loop:
  "words_of (flush_current (chunk_loop m chunks current ss)) =
     words_of chunks @ split_ws current @ words_of ss"
  by (induction m chunks current ss rule: chunk_loop.induct)
    (auto simp: words_of_flush split_ws_at_space words_of_pack_words)

text \<open>C38. Chunking loses, duplicates and reorders nothing: the words of the chunks, in order,
  are the words of the text, for every text and every limit.\<close>

theorem chunk_text_preserves_words:
  "concat (map split_ws (chunk_text t max_chars)) = split_ws t"
  by (simp add: chunk_text_def Let_def words_of_chunk_loop words_of_sentences)

subsection \<open>Size of a chunk\<close>

definition chunk_ok :: "int \<Rightarrow> string \<Rightarrow> bool" where
  "chunk_ok m c \<longleftrightarrow> c \<noteq> [] \<and> (int (length c) \<le> m \<or> is_token c)"

lemma pack_words_loop_ok:
  "\<lbrakk>list_all (chunk_ok m) chunks; current = [] \<or> chunk_ok m current; list_all is_token ws\<rbrakk> \<Longrightarrow>
     list_all (chunk_ok m) (flush_current (pack_words_loop m chunks current ws))"
  by (induction m chunks current ws rule: pack_words_loop.induct)
    (auto simp: flush_current_def chunk_ok_def is_token_def)

lemma pack_words_ok: "list_all (chunk_ok m) (pack_words s m)"
  unfolding pack_words_def
  by (rule pack_words_loop_ok) (auto simp: list_all_iff dest: split_ws_tokens)

lemma chunk_loop_ok:
  "\<lbrakk>list_all (chunk_ok m) chunks; current = [] \<or> chunk_ok m current; list_all (\<lambda>s. s \<noteq> []) ss\<rbrakk> \<Longrightarrow>
     list_all (chunk_ok m) (flush_current (chunk_loop m chunks current ss))"
proof (induction m chunks current ss rule: chunk_loop.induct)
  case (1 m chunks current)
  then show ?case by (auto simp: flush_current_def)
next
  case (2 m chunks current x ss)
  show ?case
  proof (cases "int (length x) > m")
    case True
    with 2 show ?thesis by (cases "current = []") (simp_all add: pack_words_ok)
  next
    case False
    with "2.prems" have "chunk_ok m x" by (simp add: chunk_ok_def)
    moreover have "chunk_ok m (current @ '' '' @ x)"
      if "int (length current) + 1 + int (length x) \<le> m"
      using that by (simp add: chunk_ok_def)
    ultimately show ?thesis using 2 False by (cases "current = []") simp_all
  qed
qed

text \<open>A chunk exceeds the limit only when it is a single word that is itself longer: for every text
  and limit, each chunk is non-empty and either fits or is one word.\<close>

theorem chunk_text_within_limit:
  "list_all (\<lambda>c. c \<noteq> [] \<and> (int (length c) \<le> m \<or> split_ws c = [c])) (chunk_text t (Some m))"
  unfolding list_all_iff
proof
  fix c
  assume c: "c \<in> set (chunk_text t (Some m))"
  have "list_all (chunk_ok m) (chunk_text t (Some m))"
    unfolding chunk_text_def Let_def option.case
    by (rule chunk_loop_ok) (auto simp: list_all_iff dest: sentence_nonempty)
  with c have "chunk_ok m c" by (simp add: list_all_iff)
  then show "c \<noteq> [] \<and> (int (length c) \<le> m \<or> split_ws c = [c])"
    by (auto simp: chunk_ok_def split_ws_token)
qed

subsection \<open>Sentences stay whole\<close>

definition covered :: "string \<Rightarrow> string list \<Rightarrow> bool" where
  "covered s cs \<longleftrightarrow> (\<exists>c \<in> set cs. sublist s c)"

lemma covered_append [simp]: "covered s (a @ b) \<longleftrightarrow> covered s a \<or> covered s b"
  by (auto simp: covered_def)

lemma covered_Cons [simp]: "covered s (c # cs) \<longleftrightarrow> sublist s c \<or> covered s cs"
  by (auto simp: covered_def)

lemma covered_flush:
  "covered s (flush_current (chunks, current)) \<longleftrightarrow>
     covered s chunks \<or> current \<noteq> [] \<and> sublist s current"
  by (auto simp: flush_current_def covered_def)

lemma sublist_glue: "sublist s current \<Longrightarrow> sublist s (current @ '' '' @ x)"
  by (auto simp: sublist_def) (metis append.assoc)

lemma sublist_glued: "sublist x (current @ '' '' @ x)"
  by (metis append.assoc sublist_append_leftI)

lemma chunk_loop_keeps:
  "covered s (flush_current (chunks, current)) \<Longrightarrow>
     covered s (flush_current (chunk_loop m chunks current ss))"
proof (induction m chunks current ss rule: chunk_loop.induct)
  case (2 m chunks current x ss)
  show ?case
  proof (cases "current = []")
    case True
    with 2 show ?thesis by (simp add: covered_flush)
  next
    case False
    with 2 sublist_glue [of s current x] show ?thesis by (auto simp: covered_flush)
  qed
qed simp

lemma chunk_loop_covers:
  "\<lbrakk>s \<in> set ss; s \<noteq> []; int (length s) \<le> m\<rbrakk> \<Longrightarrow>
     covered s (flush_current (chunk_loop m chunks current ss))"
proof (induction m chunks current ss rule: chunk_loop.induct)
  case (2 m chunks current x ss)
  show ?case
  proof (cases "s = x")
    case True
    have "covered x (flush_current (cs, cur))" if "cur \<in> {x, current @ '' '' @ x}" for cs cur
      using that "2.prems" True sublist_glued [of x current] by (auto simp: covered_flush)
    with True "2.prems" show ?thesis
      by (auto intro!: chunk_loop_keeps)
  next
    case False
    with 2 show ?thesis by simp
  qed
qed simp

text \<open>No sentence is cut that need not be: every sentence of the text that fits the limit lies whole
  inside one chunk.\<close>

theorem sentences_stay_whole:
  "\<forall>s \<in> set (split_sentences t). int (length s) \<le> m \<longrightarrow>
     (\<exists>c \<in> set (chunk_text t (Some m)). sublist s c)"
  by (auto simp: chunk_text_def covered_def [symmetric] intro!: chunk_loop_covers dest: sentence_nonempty)

theorem sentences_stay_whole_witness:
  "\<exists>c \<in> set (chunk_text ''Down. Up again'' (Some 9)). sublist ''Down.'' c"
proof -
  have "''Down.'' \<in> set (split_sentences ''Down. Up again'')"
    by code_simp
  with sentences_stay_whole [of "''Down. Up again''" 9] show ?thesis by fastforce
qed

end
