(* ===== verification/Civil.thy ===== *)
theory Civil
  imports Prelude
begin

section \<open>Calendar dates and number formatting\<close>

text \<open>
  The parts of the standard library's \<^verbatim>\<open>datetime\<close> and \<^verbatim>\<open>format\<close> the program uses: a
  \<^verbatim>\<open>datetime\<close> built from its fields (\<^verbatim>\<open>ValueError\<close> on an impossible date), the fields of a
  timestamp, the two \<^verbatim>\<open>strftime\<close> patterns of the renderers, and \<^verbatim>\<open>{x:g}\<close>. Days are counted in
  the proleptic Gregorian calendar, day 1 being 0001-01-01, as \<^verbatim>\<open>date.toordinal\<close> does.
\<close>

definition leap_year :: "int \<Rightarrow> bool" where
  "leap_year y \<longleftrightarrow> 4 dvd y \<and> (\<not> 100 dvd y \<or> 400 dvd y)"

definition month_lengths :: "bool \<Rightarrow> int list" where
  "month_lengths leap = [31, if leap then 29 else 28, 31, 30, 31, 30, 31, 31, 30, 31, 30, 31]"

definition days_in_month :: "int \<Rightarrow> int \<Rightarrow> int" where
  "days_in_month y m = month_lengths (leap_year y) ! nat (m - 1)"

definition days_before_year :: "int \<Rightarrow> int" where
  "days_before_year y = (let p = y - 1 in p * 365 + p div 4 - p div 100 + p div 400)"

definition days_before_month :: "int \<Rightarrow> int \<Rightarrow> int" where
  "days_before_month y m = sum_list (take (nat (m - 1)) (month_lengths (leap_year y)))"

definition valid_date :: "int \<Rightarrow> int \<Rightarrow> int \<Rightarrow> bool" where
  "valid_date y m d \<longleftrightarrow> 1 \<le> y \<and> y \<le> 9999 \<and> 1 \<le> m \<and> m \<le> 12 \<and> 1 \<le> d \<and> d \<le> days_in_month y m"

definition to_ordinal :: "int \<Rightarrow> int \<Rightarrow> int \<Rightarrow> int" where
  "to_ordinal y m d = days_before_year y + days_before_month y m + d"

fun find_month :: "int \<Rightarrow> int \<Rightarrow> int list \<Rightarrow> int \<times> int" where
  "find_month m n [] = (m, n + 1)"
| "find_month m n (l # ls) = (if n < l then (m, n + 1) else find_month (m + 1) (n - l) ls)"

definition from_ordinal :: "int \<Rightarrow> int \<times> int \<times> int" where
  "from_ordinal ord =
     (let n = ord - 1;
          n400 = n div 146097; a = n mod 146097;
          n100 = a div 36524; b = a mod 36524;
          n4 = b div 1461; c = b mod 1461;
          n1 = c div 365; d = c mod 365;
          y = n400 * 400 + n100 * 100 + n4 * 4 + n1 + 1
      in if n1 = 4 \<or> n100 = 4 then (y - 1, 12, 31)
         else (y, find_month 1 d (month_lengths (leap_year y))))"

text \<open>The ordinal of 1970-01-01.\<close>

definition EPOCH_ORDINAL :: int where
  "EPOCH_ORDINAL = 719163"

text \<open>\<^verbatim>\<open>datetime(y, mo, d, h, mi, tzinfo=timezone(timedelta(hours=off))).astimezone(UTC)\<close>.\<close>

definition make_time :: "int \<Rightarrow> int \<Rightarrow> int \<Rightarrow> int \<Rightarrow> int \<Rightarrow> int \<Rightarrow> time option" where
  "make_time y mo d h mi off =
     (if valid_date y mo d \<and> 0 \<le> h \<and> h \<le> 23 \<and> 0 \<le> mi \<and> mi \<le> 59
      then Some (days (to_ordinal y mo d - EPOCH_ORDINAL) + hours h + minutes mi - hours off)
      else None)"

text \<open>The range of \<^verbatim>\<open>datetime\<close>; a result outside raises \<^verbatim>\<open>OverflowError\<close>.\<close>

definition MIN_TIME :: time where
  "MIN_TIME = -62135596800000000"

definition MAX_TIME :: time where
  "MAX_TIME = 253402300799999999"

definition checked_time :: "time \<Rightarrow> time res" where
  "checked_time t = (if MIN_TIME \<le> t \<and> t \<le> MAX_TIME then Inr t else Inl (OtherError ''OverflowError''))"

lemma checked_time_Inr [simp]: "checked_time t = Inr t' \<longleftrightarrow> t' = t \<and> MIN_TIME \<le> t \<and> t \<le> MAX_TIME"
  by (auto simp: checked_time_def)

lemma checked_time_ok [simp]: "MIN_TIME \<le> t \<Longrightarrow> t \<le> MAX_TIME \<Longrightarrow> checked_time t = Inr t"
  by (simp add: checked_time_def)

definition date_of :: "time \<Rightarrow> int \<times> int \<times> int" where
  "date_of t = from_ordinal (t div 86400000000 + EPOCH_ORDINAL)"

definition clock_of :: "time \<Rightarrow> int \<times> int \<times> int" where
  "clock_of t = (let s = (t mod 86400000000) div 1000000
     in (s div 3600, (s mod 3600) div 60, s mod 60))"

definition year_of :: "time \<Rightarrow> int" where
  "year_of t = fst (date_of t)"

definition two :: "int \<Rightarrow> string" where
  "two n = pad_left 2 CHR ''0'' (show_int n)"

text \<open>\<^verbatim>\<open>{t:%Y-%m-%d}\<close>, \<^verbatim>\<open>{t:%H:%M}\<close> and \<^verbatim>\<open>{t:%Y-%m-%d %H:%M:%S}\<close>.\<close>

definition fmt_date :: "time \<Rightarrow> string" where
  "fmt_date t = (case date_of t of (y, m, d) \<Rightarrow>
     pad_left 4 CHR ''0'' (show_int y) @ ''-'' @ two m @ ''-'' @ two d)"

definition fmt_hm :: "time \<Rightarrow> string" where
  "fmt_hm t = (case clock_of t of (h, m, s) \<Rightarrow> two h @ '':'' @ two m)"

definition fmt_stamp :: "time \<Rightarrow> string" where
  "fmt_stamp t = (case clock_of t of (h, m, s) \<Rightarrow>
     fmt_date t @ '' '' @ two h @ '':'' @ two m @ '':'' @ two s)"

text \<open>Midnight of a day: \<^verbatim>\<open>now.replace(hour=0, minute=0, second=0, microsecond=0)\<close> in UTC.\<close>

definition midnight :: "time \<Rightarrow> time" where
  "midnight t = days (t div 86400000000)"

subsection \<open>Numbers\<close>

text \<open>\<^verbatim>\<open>float(s)\<close> on the digit strings the regular expressions deliver: \<^verbatim>\<open>\\d+(\\.\\d+)?\<close>.\<close>

definition digit_value :: "char \<Rightarrow> nat" where
  "digit_value c = code c - 48"

definition nat_of_digits :: "string \<Rightarrow> nat" where
  "nat_of_digits s = foldl (\<lambda>n c. 10 * n + digit_value c) 0 s"

definition int_of_digits :: "string \<Rightarrow> int" where
  "int_of_digits s = foldl (\<lambda>n c. 10 * n + int (digit_value c)) 0 s"

definition decimal_value :: "string \<Rightarrow> real" where
  "decimal_value s = (case partition_at ''.'' s of
     None \<Rightarrow> real (nat_of_digits s)
   | Some (a, b) \<Rightarrow> real (nat_of_digits a) + real (nat_of_digits b) / 10 ^ length b)"

text \<open>\<^verbatim>\<open>{x:g}\<close> for a non-negative number: six significant digits, trailing zeros dropped.\<close>

fun leading_zeros :: "nat \<Rightarrow> real \<Rightarrow> nat" where
  "leading_zeros 0 x = 0"
| "leading_zeros (Suc n) x = (if 1 \<le> x then 0 else Suc (leading_zeros n (x * 10)))"

definition exponent10 :: "real \<Rightarrow> int" where
  "exponent10 x = (if 1 \<le> x then int (length (digits_of (nat \<lfloor>x\<rfloor>))) - 1 else - int (leading_zeros 400 x))"

definition drop_trailing_zeros :: "string \<Rightarrow> string" where
  "drop_trailing_zeros s = rev (dropWhile (\<lambda>c. c = CHR ''0'') (rev s))"

definition with_fraction :: "string \<Rightarrow> string \<Rightarrow> string" where
  "with_fraction a b = (let f = drop_trailing_zeros b in if f = [] then a else a @ ''.'' @ f)"

definition significand :: "real \<Rightarrow> int \<Rightarrow> int" where
  "significand x e = round (if e \<le> 5 then x * 10 ^ nat (5 - e) else x / 10 ^ nat (e - 5))"

definition fmt_g :: "real \<Rightarrow> string" where
  "fmt_g x =
     (if x = 0 then ''0'' else
      let e0 = exponent10 x; m0 = significand x e0;
          e = (if m0 = 1000000 then e0 + 1 else e0);
          m = (if m0 = 1000000 then 100000 else m0);
          d = show_int m
      in if 0 \<le> e \<and> e < 6 then with_fraction (take (nat e + 1) d) (drop (nat e + 1) d)
         else if -4 \<le> e \<and> e < 0 then with_fraction ''0'' (replicate (nat (- e) - 1) CHR ''0'' @ d)
         else with_fraction (take 1 d) (drop 1 d) @ ''e'' @ (if e < 0 then ''-'' else ''+'') @ two \<bar>e\<bar>)"

subsection \<open>Decimal digits and separators\<close>

lemma digits_are_digits: "list_all is_digit (digits_of n)"
proof (induction n rule: digits_of.induct)
  case (1 n)
  have "is_digit (char_of (48 + k :: nat))" if "k < 10" for k
    using that by (simp add: is_digit_def in_range_def code_def)
  with 1 show ?case by (subst digits_of.simps) simp
qed

lemma digits_value: "nat_of_digits (digits_of n) = n"
proof (induction n rule: digits_of.induct)
  case (1 n)
  have d: "digit_value (char_of (48 + k :: nat)) = k" if "k < 10" for k
    using that by (simp add: digit_value_def code_def)
  show ?case
  proof (cases "n < 10")
    case True
    then show ?thesis by (subst digits_of.simps) (simp add: d nat_of_digits_def)
  next
    case False
    with 1 show ?thesis by (subst digits_of.simps) (simp add: d nat_of_digits_def)
  qed
qed

lemma digits_of_inj: "digits_of m = digits_of n \<Longrightarrow> m = n"
  by (metis digits_value)

lemma before_last: "x \<notin> set b \<Longrightarrow> takeWhile (\<lambda>c. c \<noteq> x) (rev (a @ x # b)) = rev b"
  by (induction b rule: rev_induct) (auto simp: takeWhile_append)

lemma split_last_unique:
  assumes "a @ x # b = a' @ x # b'" and "x \<notin> set b" and "x \<notin> set b'"
  shows "a = a' \<and> b = b'"
proof -
  have "rev b = rev b'" using before_last [OF assms(2), of a] before_last [OF assms(3), of a'] assms(1) by metis
  with assms(1) show ?thesis by simp
qed

text \<open>The same for the first separator.\<close>

lemma split_first_unique:
  assumes "x @ c # y = x' @ c # y'" and "c \<notin> set x" and "c \<notin> set x'"
  shows "x = x' \<and> y = y'"
proof -
  have "takeWhile (\<lambda>d. d \<noteq> c) (z @ c # w) = z" if "c \<notin> set z" for z w
    using that by (induction z) auto
  from this [OF assms(2)] this [OF assms(3)] assms(1) have "x = x'" by metis
  with assms(1) show ?thesis by simp
qed

subsection \<open>The calendar\<close>

lemma year_start:
  assumes "0 \<le> q100" "q100 \<le> 3" "0 \<le> q4" "q4 \<le> 24" "0 \<le> q1" "q1 \<le> 3"
  shows "days_before_year (q400 * 400 + q100 * 100 + q4 * 4 + q1 + 1)
      = 146097 * q400 + 36524 * q100 + 1461 * q4 + 365 * q1"
proof -
  have "(q1 + x * 4) div 4 = x" and "(q4 * 4 + q1 + x * 100) div 100 = x"
    and "(q100 * 100 + q4 * 4 + q1 + x * 400) div 400 = x" for x
    using assms by simp_all
  from this(1) [of "100 * q400 + 25 * q100 + q4"] this(2) [of "4 * q400 + q100"] this(3) [of q400]
  have d4: "(q400 * 400 + q100 * 100 + q4 * 4 + q1) div 4 = 100 * q400 + 25 * q100 + q4"
    and d100: "(q400 * 400 + q100 * 100 + q4 * 4 + q1) div 100 = 4 * q400 + q100"
    and d400: "(q400 * 400 + q100 * 100 + q4 * 4 + q1) div 400 = q400"
    by (simp_all add: algebra_simps)
  show ?thesis using d4 d100 d400 by (simp add: days_before_year_def Let_def)
qed

text \<open>The year of a day started on or before that day.\<close>

lemma year_start_le: "days_before_year (fst (from_ordinal n)) < n"
proof -
  define q400 where "q400 = (n - 1) div 146097"
  define a where "a = (n - 1) mod 146097"
  define q100 where "q100 = a div 36524"
  define b where "b = a mod 36524"
  define q4 where "q4 = b div 1461"
  define c where "c = b mod 1461"
  define q1 where "q1 = c div 365"
  define d where "d = c mod 365"
  have y: "fst (from_ordinal n)
      = (if q1 = 4 \<or> q100 = 4 then q400 * 400 + q100 * 100 + q4 * 4 + q1
         else q400 * 400 + q100 * 100 + q4 * 4 + q1 + 1)"
    by (simp add: from_ordinal_def Let_def q400_def a_def q100_def b_def q4_def c_def q1_def d_def)
  have a: "0 \<le> a" "a < 146097" and b: "0 \<le> b" "b < 36524" and c: "0 \<le> c" "c < 1461" and d: "0 \<le> d"
    by (simp_all add: a_def b_def c_def d_def)
  have r: "0 \<le> q100" "q100 \<le> 4" "0 \<le> q4" "q4 \<le> 24" "0 \<le> q1" "q1 \<le> 4"
    using a b c zdiv_mono1 [of a 146096 36524] zdiv_mono1 [of b 36523 1461] zdiv_mono1 [of c 1460 365]
    by (simp_all add: q100_def q4_def q1_def pos_imp_zdiv_nonneg_iff)
  have n: "n - 1 = 146097 * q400 + a" and a': "a = 36524 * q100 + b" and b': "b = 1461 * q4 + c" and c': "c = 365 * q1 + d"
    by (simp_all add: q400_def a_def q100_def b_def q4_def c_def q1_def d_def)
  consider "q100 = 4" | "q100 \<le> 3" "q1 = 4" | "q100 \<le> 3" "q1 \<le> 3" using r by linarith
  then show ?thesis
  proof cases
    case 1
    with a a' b have "b = 0" by linarith
    then have "q4 = 0" "c = 0" "q1 = 0" by (simp_all add: q4_def c_def q1_def)
    with 1 y have "fst (from_ordinal n) = q400 * 400 + 3 * 100 + 24 * 4 + 3 + 1" by simp
    then show ?thesis using year_start [of 3 24 3 q400] n a' b 1 by simp
  next
    case 2
    with y have "fst (from_ordinal n) = q400 * 400 + q100 * 100 + q4 * 4 + 3 + 1" by simp
    then show ?thesis using year_start [of q100 q4 3 q400] n a' b' c' 2 r d by simp
  next
    case 3
    then show ?thesis using year_start [of q100 q4 q1 q400] y n a' b' c' r d by simp
  qed
qed

lemma days_before_year_Suc: "days_before_year (y + 1) = days_before_year y + (if leap_year y then 366 else 365)"
proof -
  have step: "y div k = (y - 1) div k + (if k dvd y then 1 else 0)" if "0 < k" for k :: int
  proof (cases "k dvd y")
    case True
    then have "y - 1 = k * (y div k - 1) + (k - 1)" by (simp add: algebra_simps)
    from int_div_pos_eq [OF this] that have "(y - 1) div k = y div k - 1" by simp
    with True show ?thesis by simp
  next
    case False
    then have "0 < y mod k" "y mod k < k" using that pos_mod_bound [of k y] pos_mod_sign [of k y]
      by (simp_all add: dvd_eq_mod_eq_0 order_less_le)
    moreover have "y - 1 = k * (y div k) + (y mod k - 1)" by simp
    ultimately have "(y - 1) div k = y div k" using int_div_pos_eq [of "y - 1" k "y div k" "y mod k - 1"] by simp
    with False show ?thesis by simp
  qed
  have sums: "y * 365 + (a + (if A then 1 else 0)) - (b + (if B then 1 else 0)) + (c + (if C then 1 else 0))
      = (y - 1) * 365 + a - b + c + (if A \<and> (\<not> B \<or> C) then 366 else 365)"
    if "C \<longrightarrow> B" "B \<longrightarrow> A" for a b c :: int and A B C
    using that by (cases A; cases B; cases C) simp_all
  have "400 dvd y \<longrightarrow> 100 dvd y" by (rule impI, rule dvd_trans [of _ 400]) simp
  moreover have "100 dvd y \<longrightarrow> 4 dvd y" by (rule impI, rule dvd_trans [of _ 100]) simp
  ultimately show ?thesis
    unfolding days_before_year_def leap_year_def Let_def add_diff_cancel_right'
      step [of 4, OF zero_less_numeral] step [of 100, OF zero_less_numeral] step [of 400, OF zero_less_numeral]
    by (rule sums)
qed

lemma month_cases:
  assumes "1 \<le> m" "m \<le> (12::int)"
  obtains "m = 1" | "m = 2" | "m = 3" | "m = 4" | "m = 5" | "m = 6"
    | "m = 7" | "m = 8" | "m = 9" | "m = 10" | "m = 11" | "m = 12"
proof -
  have "m = 1 \<or> m = 2 \<or> m = 3 \<or> m = 4 \<or> m = 5 \<or> m = 6 \<or> m = 7 \<or> m = 8 \<or> m = 9 \<or> m = 10 \<or> m = 11 \<or> m = 12"
    using assms by presburger
  then show thesis using that by blast
qed

lemmas month_sums = days_before_month_def days_in_month_def month_lengths_def numeral_eq_Suc

text \<open>A date within its year, and the same date a year later.\<close>

lemma ordinal_in_year:
  assumes "valid_date y m d"
  shows "days_before_year y < to_ordinal y m d" and "to_ordinal y m d \<le> days_before_year (y + 1)"
proof -
  have m: "1 \<le> m" "m \<le> 12" and d: "1 \<le> d" "d \<le> days_in_month y m" using assms by (auto simp: valid_date_def)
  have "0 \<le> days_before_month y m"
    using m by (cases rule: month_cases) (simp_all add: month_sums)
  then show "days_before_year y < to_ordinal y m d" using d by (simp add: to_ordinal_def)
  have "days_before_month y m + days_in_month y m \<le> (if leap_year y then 366 else 365)"
    using m by (cases rule: month_cases) (simp_all add: month_sums)
  then show "to_ordinal y m d \<le> days_before_year (y + 1)"
    using d days_before_year_Suc [of y] by (simp add: to_ordinal_def)
qed

lemma ordinal_next_year:
  assumes "1 \<le> m" "m \<le> 12"
  shows "to_ordinal y m d + 365 \<le> to_ordinal (y + 1) m d \<and> to_ordinal (y + 1) m d \<le> to_ordinal y m d + 366"
  using assms
  by (cases rule: month_cases) (auto simp: to_ordinal_def days_before_year_Suc month_sums split: if_splits)

lemma make_timeD:
  "make_time y m d h mi off = Some t \<Longrightarrow> valid_date y m d \<and> 0 \<le> h \<and> h \<le> 23 \<and> 0 \<le> mi \<and> mi \<le> 59
     \<and> t = days (to_ordinal y m d - EPOCH_ORDINAL) + hours h + minutes mi - hours off"
  by (simp add: make_time_def split: if_splits)

lemma make_time_next_year:
  assumes "make_time y m d h mi off = Some t"
  shows "make_time (y + 1) m d h mi off = (if valid_date (y + 1) m d
      then Some (t + days (to_ordinal (y + 1) m d - to_ordinal y m d)) else None)"
  using make_timeD [OF assms] by (simp add: make_time_def algebra_simps)

lemma year_starts_before: "days (days_before_year (year_of t) + 1 - EPOCH_ORDINAL) \<le> t"
proof -
  have "days_before_year (year_of t) < t div 86400000000 + EPOCH_ORDINAL"
    using year_start_le by (simp add: year_of_def date_of_def)
  then have "days_before_year (year_of t) + 1 - EPOCH_ORDINAL \<le> t div 86400000000" by simp
  then have "days (days_before_year (year_of t) + 1 - EPOCH_ORDINAL) \<le> days (t div 86400000000)" by simp
  also have "\<dots> \<le> t" by (metis mult.commute pos_mod_sign le_add_same_cancel1 mult_div_mod_eq zero_less_numeral)
  finally show ?thesis .
qed

end
