(* ===== verification/Brief.thy ===== *)
theory Brief
  imports Chunking Civil
begin

section \<open>Rendering a brief (\<^verbatim>\<open>freshet/autopilot/brief.py\<close>, \<^verbatim>\<open>impact.py\<close>)\<close>

text \<open>
  Evidence is a record with the four fields of the \<^verbatim>\<open>Cited\<close> protocol; the classes that satisfy
  the protocol (\<^verbatim>\<open>investigate._Update\<close>, \<^verbatim>\<open>retrieval.RetrievedHit\<close>) extend the record, so the
  functions below apply to both as the duck-typed Python does. The regular expressions are
  transcribed into \<open>re\<close> in the order of their alternatives. The lemmas: a stated cause is one
  sentence of one update, cited to that update, and the earliest such update wins; a clipped
  text is bounded; impact levels follow the decision table and are monotone.
\<close>

record cited =
  event_id :: string
  ts :: time
  body_text :: string
  source :: string

record findings =
  f_service :: string
  f_status :: string
  cause_text :: "string option"
  cause_cite :: "string option"
  fix_text :: "string option"
  fix_cite :: "string option"
  runbook :: "string option"
  narrative :: "string option"
  meta :: "string option"
  impact :: "string option"
  updates :: "string list"
  recurrence :: "string option"

definition cite_hit :: "'a cited_scheme \<Rightarrow> string" where
  "cite_hit h = ''['' @ event_id h @ '' @ '' @ fmt_stamp (ts h) @ '']''"

subsection \<open>Stated causes\<close>

definition CAUSE_MARKERS :: "string list" where
  "CAUSE_MARKERS = [''caused by'', ''root cause'', ''due to'', ''as a result of'',
     ''identified the source of'', ''identified the cause of'',
     ''stemmed from'', ''triggered by'', ''resulted from'']"

definition lits_i :: "string list \<Rightarrow> re" where
  "lits_i ss = alt (map lit_i ss)"

definition PROMISSORY :: re where
  "PROMISSORY = alt [
     seq [lit_i ''will be '', lits_i [''shared'', ''provided'', ''published'', ''available'']],
     seq [lit_i ''will '', lits_i [''follow'', ''share'', ''provide'']],
     lit_i ''as soon as it is available'', lit_i ''analysis will'', lit_i ''postmortem will'',
     lit_i ''updates will'', lit_i ''will continue'']"

definition FOUND_BUT_UNNAMED :: re where
  "FOUND_BUT_UNNAMED = alt [
     seq [lit_i ''identified the '', lits_i [''root cause'', ''cause''],
          Ahead False (seq [some space, lit_i ''of'', space])],
     seq [lit_i ''identified the '', lits_i [''root cause'', ''source'', ''cause''], lit_i '' '',
          lits_i [''of'', ''for''], space],
     seq [opt (lit_i ''root ''), lit_i ''cause '', lits_i [''has been'', ''had been'', ''was'', ''is''],
          lit_i '' '', lits_i [''fixed'', ''addressed'', ''resolved'', ''mitigated'', ''remediated'',
            ''corrected'', ''repaired'']]]"

definition word_char :: re where
  "word_char = Cls is_word"

definition UNRESOLVED :: re where
  "UNRESOLVED = alt [
     seq [lits_i [''still'', ''currently'', ''actively''], lit_i '' '',
          alt [lit_i ''investigating'', lit_i ''determining'',
               seq [lit_i ''working to '', lits_i [''identify'', ''determine'']]],
          upto_times_lazy 30 (none_of ''.''), lits_i [''root cause'', ''cause'']],
     seq [alt [lit_i ''in the process of'', seq [lit_i ''continue'', opt (lit_i ''s''), lit_i '' to''],
               lit_i ''continuing to'', lit_i ''continue''], lit_i '' '',
          alt [seq [lit_i ''investigat'', many word_char], seq [lit_i ''look'', many word_char],
               seq [lit_i ''determin'', many word_char]],
          upto_times_lazy 30 (none_of ''.''), lits_i [''root cause'', ''cause'']],
     seq [opt (lit_i ''root ''), lit_i ''cause '', lits_i [''is'', ''remains''], lit_i '' '',
          opt (lit_i ''still ''),
          alt [lit_i ''unknown'', lit_i ''unclear'', lit_i ''under investigation'',
               lit_i ''being investigated'',
               seq [lit_i ''not '', opt (lit_i ''yet ''), lits_i [''known'', ''determined'', ''identified'']]]]]"

definition articles :: re where
  "articles = lits_i [''a'', ''an'', ''the'']"

definition NAMES_A_SUSPECT :: re where
  "NAMES_A_SUSPECT = alt [
     seq [lit_i ''which '', lits_i [''appears'', ''seems'', ''is believed'', ''is thought''], lit_i '' to be''],
     seq [lit_i ''appears to '', lits_i [''be'', ''have been''], lit_i '' '',
          lits_i [''related to'', ''caused by'', ''due to'']],
     seq [lits_i [''related'', ''traced'', ''linked'', ''attributed''], lit_i '' to '', articles, space],
     seq [lits_i [''identified'', ''traced'', ''attributed'', ''determined''],
          upto_times_lazy 80 (none_of ''.''), WordEdge, lit_i ''as '', articles, space],
     seq [lits_i [''root cause'', ''cause'', ''source''], many space, ch CHR '':'', many space,
          Cls (\<lambda>c. \<not> is_space c)]]"

text \<open>The three guards of the loop body, in its order; \<open>states_cause\<close> is reaching its \<^verbatim>\<open>return\<close>.\<close>

definition states_cause :: "string \<Rightarrow> bool" where
  "states_cause sentence \<longleftrightarrow>
     list_ex (\<lambda>m. contains m (lower sentence)) CAUSE_MARKERS
     \<and> \<not> found PROMISSORY sentence
     \<and> \<not> (found FOUND_BUT_UNNAMED sentence \<and> \<not> found NAMES_A_SUSPECT sentence)
     \<and> \<not> (found UNRESOLVED sentence \<and> \<not> found NAMES_A_SUSPECT sentence)"

definition cause_sentence :: "string \<Rightarrow> string option" where
  "cause_sentence text = find states_cause (split_sentences text)"

fun first_cause :: "'a cited_scheme list \<Rightarrow> (string \<times> string) option" where
  "first_cause [] = None"
| "first_cause (h # hs) =
     (case cause_sentence (body_text h) of
        Some s \<Rightarrow> if s \<noteq> [] then Some (s, cite_hit h) else first_cause hs
      | None \<Rightarrow> first_cause hs)"

definition cause_from_updates :: "'a cited_scheme list \<Rightarrow> (string \<times> string) option" where
  "cause_from_updates hits = first_cause (sort_key ts hits)"

subsection \<open>Update lines\<close>

definition MAX_UPDATES :: nat where
  "MAX_UPDATES = 4"

definition MAX_UPDATE_CHARS :: nat where
  "MAX_UPDATE_CHARS = 200"

fun clip_loop :: "nat \<Rightarrow> string \<Rightarrow> string list \<Rightarrow> string" where
  "clip_loop max_chars kept [] = kept"
| "clip_loop max_chars kept (sentence # ss) =
     (let candidate = (if kept = [] then sentence else kept @ '' '' @ sentence)
      in if length candidate > max_chars then kept else clip_loop max_chars candidate ss)"

text \<open>\<^verbatim>\<open>s.rsplit(" ", 1)[0]\<close>: the text before the last blank, or all of it.\<close>

definition before_last_blank :: "string \<Rightarrow> string" where
  "before_last_blank s =
     (if CHR '' '' \<in> set s then rev (tl (dropWhile (\<lambda>c. c \<noteq> CHR '' '') (rev s))) else s)"

definition clip :: "string \<Rightarrow> nat \<Rightarrow> string" where
  "clip text max_chars =
     (let flat = join '' '' (split_ws text)
      in if length flat \<le> max_chars then flat
         else let kept = clip_loop max_chars [] (split_sentences flat);
                  kept = (if kept = [] then before_last_blank (take max_chars flat) else kept)
              in rstrip kept @ ''...'')"

text \<open>\<^verbatim>\<open>sorted(hits, key=lambda h: h.ts, reverse=True)\<close> keeps the order of equal keys.\<close>

definition newest_first :: "'a cited_scheme list \<Rightarrow> 'a cited_scheme list" where
  "newest_first hits = sort_key (\<lambda>h. - ts h) hits"

definition update_lines :: "'a cited_scheme list \<Rightarrow> string list" where
  "update_lines hits =
     map (\<lambda>h. fmt_hm (ts h) @ '' '' @ em_dash @ '' '' @ clip (body_text h) MAX_UPDATE_CHARS @ '' '' @ cite_hit h)
       (take MAX_UPDATES (newest_first hits))"

subsection \<open>The plain-text brief\<close>

definition str_of :: "string option \<Rightarrow> string" where
  "str_of s = (case s of None \<Rightarrow> ''None'' | Some t \<Rightarrow> t)"

definition render_lines :: "findings \<Rightarrow> string list" where
  "render_lines f =
     (let title = (if f_status f = ''resolved'' then ''POSTMORTEM''
                   else if f_status f = ''in_progress'' then ''INCIDENT UPDATE'' else ''INCIDENT BRIEF'');
          status = (if f_status f = ''in_progress'' then ''in progress'' else f_status f)
      in [''=== '' @ title @ '' '' @ em_dash @ '' '' @ f_service f @ '' ('' @ status @ '') ==='']
         @ (if truthy (narrative f) then [[], str_of (narrative f), []] else [])
         @ (if truthy (cause_text f)
            then [''Cause: '' @ str_of (cause_text f) @ '' '' @ em_dash @ '' '' @ str_of (cause_cite f)]
            else if \<not> truthy (narrative f) then [''Cause: not identified from retrieved evidence''] else [])
         @ (if truthy (fix_text f)
            then [''Resolution: '' @ str_of (fix_text f) @ '' '' @ em_dash @ '' '' @ str_of (fix_cite f)]
            else if \<not> truthy (narrative f) then [''Resolution: not identified from retrieved evidence''] else [])
         @ (if truthy (recurrence f) then [str_of (recurrence f)] else [])
         @ (if updates f \<noteq> [] then [''Updates:''] @ map (\<lambda>l. ''  '' @ l) (updates f) else [])
         @ (if truthy (runbook f) then [''Runbook: '' @ str_of (runbook f)] else [])
         @ (if truthy (meta f) then [str_of (meta f)] else [])
         @ (if truthy (impact f) then [str_of (impact f)] else []))"

definition render_brief :: "findings \<Rightarrow> string" where
  "render_brief f = join newline (render_lines f)"

subsection \<open>Impact\<close>

definition digits :: re where
  "digits = some (Cls is_digit)"

definition PCT_RE :: re where
  "PCT_RE = seq [Grp 1 (seq [digits, opt (seq [ch CHR ''.'', digits])]), many space, ch CHR ''%'']"

definition UTILISATION_RE :: re where
  "UTILISATION_RE = seq [WordEdge,
     alt [lit_i ''cpu'', lit_i ''memory'', lit_i ''mem'', lit_i ''ram'', lit_i ''disk'', lit_i ''storage'',
          lit_i ''heap'', lit_i ''swap'',
          seq [lit_i ''utili'', Cls (\<lambda>c. lower_char c \<in> set ''sz''), lit_i ''ation''], lit_i ''usage'',
          lit_i ''saturation'', lit_i ''capacity'', lit_i ''load''], WordEdge]"

definition ERROR_CONTEXT_RE :: re where
  "ERROR_CONTEXT_RE = seq [WordEdge,
     alt [lit_i ''error'', lit_i ''errors'', seq [lit_i ''failur'', many word_char], lit_i ''failing'',
          lit_i ''failed'', lit_i ''fail'', seq [lit_i ''timeout'', many word_char], lit_i ''timing out'',
          seq [ch CHR ''5'', times 2 (Cls is_digit), opt (lit_i ''s'')],
          seq [ch CHR ''4'', times 2 (Cls is_digit), opt (lit_i ''s'')],
          seq [lit_i ''unavailab'', many word_char], seq [lit_i ''degrad'', many word_char],
          seq [lit_i ''drop'', many word_char], seq [lit_i ''reject'', many word_char]], WordEdge]"

definition SENTENCE_SPLIT :: re where
  "SENTENCE_SPLIT = alt [seq [Behind (\<lambda>c. c \<in> set ''.!?''), some space], some (ch CHR 0x0A)]"

definition stated_pcts :: "string list \<Rightarrow> real list" where
  "stated_pcts hit_texts =
     concat (map (\<lambda>text. concat (map (\<lambda>sentence.
         if found UTILISATION_RE sentence then []
         else if \<not> found ERROR_CONTEXT_RE sentence then []
         else map (\<lambda>(w, g). decimal_value (str_of (group 1 g))) (findall PCT_RE sentence))
       (re_split SENTENCE_SPLIT text))) hit_texts)"

definition max_stated_pct :: "string list \<Rightarrow> real option" where
  "max_stated_pct hit_texts =
     (let vals = stated_pcts hit_texts in if vals = [] then None else Some (Max (set vals)))"

definition duration_min :: "time option \<Rightarrow> time option \<Rightarrow> real option" where
  "duration_min opened resolved =
     (case (opened, resolved) of
        (Some o', Some r) \<Rightarrow>
          let mins = total_seconds (r - o') / 60 in if 0 \<le> mins then Some mins else None
      | _ \<Rightarrow> None)"

definition duration_text :: "int \<Rightarrow> string" where
  "duration_text secs =
     (if secs < 60 then show_int secs @ ''s''
      else let m = secs div 60
           in if m < 60 then show_int m @ ''m''
              else show_int (m div 60) @ ''h '' @ show_int (m mod 60) @ ''m'')"

definition duration_display :: "real option \<Rightarrow> string" where
  "duration_display mins =
     (case mins of None \<Rightarrow> ''ongoing'' | Some m \<Rightarrow> duration_text \<lfloor>m * 60\<rfloor>)"

datatype level = Low | Medium | High

definition classify_impact ::
  "string list \<Rightarrow> time option \<Rightarrow> time option \<Rightarrow> string list \<Rightarrow> level" where
  "classify_impact services opened resolved hit_texts =
     (let pct = max_stated_pct hit_texts; n = length services; mins = duration_min opened resolved
      in if (case pct of Some p \<Rightarrow> 25 \<le> p | None \<Rightarrow> False) \<or> 3 \<le> n
            \<or> (case mins of Some m \<Rightarrow> 60 \<le> m | None \<Rightarrow> False)
         then High
         else if (case pct of Some p \<Rightarrow> p < 5 | None \<Rightarrow> False) \<and> n = 1
            \<and> (case mins of Some m \<Rightarrow> m < 10 | None \<Rightarrow> True)
         then Low
         else Medium)"

definition level_name :: "level \<Rightarrow> string" where
  "level_name l = (case l of Low \<Rightarrow> ''Low'' | Medium \<Rightarrow> ''Medium'' | High \<Rightarrow> ''High'')"

definition estimate_impact ::
  "string list \<Rightarrow> time option \<Rightarrow> time option \<Rightarrow> string list \<Rightarrow> string" where
  "estimate_impact services opened resolved hit_texts =
     (let label = level_name (classify_impact services opened resolved hit_texts); n = length services;
          dur = duration_display (duration_min opened resolved);
          rationale = show_int (int n) @ '' service'' @ (if n = 1 then [] else ''s'') @ '', '' @ dur;
          stated = (case max_stated_pct hit_texts of
             Some p \<Rightarrow> ''; source reports ~'' @ fmt_g p @ ''% errors'' | None \<Rightarrow> [])
      in ''Impact: '' @ label @ '' '' @ em_dash @ '' '' @ rationale @ stated)"


subsection \<open>The quoted cause\<close>

lemma cause_sentence_Some:
  "cause_sentence t = Some s \<Longrightarrow> s \<in> set (split_sentences t) \<and> states_cause s \<and> s \<noteq> []"
  unfolding cause_sentence_def
  by (auto simp: find_Some_iff dest: nth_mem sentence_nonempty)

lemma cause_sentence_None: "cause_sentence t = None \<longleftrightarrow> (\<forall>s \<in> set (split_sentences t). \<not> states_cause s)"
  by (auto simp: cause_sentence_def find_None_iff)

lemma first_cause_Some:
  assumes "first_cause hs = Some (s, c)" and "sorted (map ts hs)"
  shows "\<exists>h \<in> set hs. cause_sentence (body_text h) = Some s \<and> c = cite_hit h
    \<and> (\<forall>h' \<in> set hs. cause_sentence (body_text h') \<noteq> None \<longrightarrow> ts h \<le> ts h')"
  using assms
proof (induction hs)
  case (Cons h hs)
  show ?case
  proof (cases "cause_sentence (body_text h)")
    case None
    with Cons show ?thesis by auto
  next
    case (Some s')
    with cause_sentence_Some [OF Some] Cons.prems show ?thesis by auto
  qed
qed simp

lemma first_cause_None: "first_cause hs = None \<longleftrightarrow> (\<forall>h \<in> set hs. cause_sentence (body_text h) = None)"
  by (induction hs) (auto split: option.splits dest: cause_sentence_Some)

text \<open>A brief's cause is quoted, never composed: \<open>cause_from_updates\<close> returns a whole sentence of
  one of the updates that passes every guard, cited to that very update, and no update that states
  a cause is earlier; it returns nothing exactly when no update states one.\<close>

theorem cause_is_a_quotation:
  "case cause_from_updates hits of
     Some (s, c) \<Rightarrow> (\<exists>h \<in> set hits. s \<in> set (split_sentences (body_text h)) \<and> states_cause s
        \<and> c = cite_hit h \<and> (\<forall>h' \<in> set hits. cause_sentence (body_text h') = None \<or> ts h \<le> ts h'))
   | None \<Rightarrow> (\<forall>h \<in> set hits. \<forall>s \<in> set (split_sentences (body_text h)). \<not> states_cause s)"
proof (cases "cause_from_updates hits")
  case None
  then have "\<forall>h \<in> set hits. cause_sentence (body_text h) = None"
    by (simp add: cause_from_updates_def first_cause_None)
  with None show ?thesis by (simp add: cause_sentence_None)
next
  case (Some q)
  then obtain s c where q: "q = (s, c)" and "first_cause (sort_key ts hits) = Some (s, c)"
    by (cases q) (auto simp: cause_from_updates_def)
  then obtain h where h: "h \<in> set hits" "cause_sentence (body_text h) = Some s" "c = cite_hit h"
    and first: "\<forall>h' \<in> set hits. cause_sentence (body_text h') \<noteq> None \<longrightarrow> ts h \<le> ts h'"
    using first_cause_Some [of "sort_key ts hits" s c] by auto
  have "s \<in> set (split_sentences (body_text h)) \<and> states_cause s"
    using cause_sentence_Some [OF h(2)] by simp
  moreover have "\<forall>h' \<in> set hits. cause_sentence (body_text h') = None \<or> ts h \<le> ts h'"
    using first by blast
  ultimately show ?thesis using Some q h(1,3) by (auto intro!: bexI [of _ h])
qed

theorem cause_is_a_quotation_witness:
  "case cause_from_updates [\<lparr>event_id = ''e1'', ts = 0, body_text = ''Due to rain'', source = ''alert''\<rparr>] of
     Some (s, c) \<Rightarrow> s \<in> set (split_sentences ''Due to rain'') \<and> states_cause s \<and> c = ''[e1 @ 1970-01-01 00:00:00]''
   | None \<Rightarrow> \<not> states_cause ''Due to rain''"
proof -
  let ?h = "\<lparr>event_id = ''e1'', ts = 0, body_text = ''Due to rain'', source = ''alert''\<rparr>"
  have "cite_hit ?h = ''[e1 @ 1970-01-01 00:00:00]''" and "split_sentences ''Due to rain'' = [''Due to rain'']"
    by code_simp+
  with cause_is_a_quotation [of "[?h]"] show ?thesis by (auto split: option.splits)
qed

subsection \<open>Clipping and the update list\<close>

lemma length_dropWhile_le: "length (dropWhile p xs) \<le> length xs"
  by (induction xs) auto

lemma length_rstrip: "length (rstrip s) \<le> length s"
  unfolding rstrip_def using length_dropWhile_le [of is_space "rev s"] by simp

lemma length_before_last_blank: "length (before_last_blank s) \<le> length s"
proof -
  have "length (dropWhile (\<lambda>c. c \<noteq> CHR '' '') (rev s)) \<le> length s"
    using length_dropWhile_le [of "\<lambda>c. c \<noteq> CHR '' ''" "rev s"] by simp
  then show ?thesis by (auto simp: before_last_blank_def)
qed

lemma length_clip_loop: "length kept \<le> m \<Longrightarrow> length (clip_loop m kept ss) \<le> m"
  by (induction m kept ss rule: clip_loop.induct) (auto simp: Let_def)

lemma clip_bound: "length (clip t m) \<le> m + 3"
proof -
  have a: "length (rstrip (clip_loop m [] ss)) \<le> m" for ss
    using length_rstrip length_clip_loop [of "[]" m ss] le_trans by (metis list.size(3) zero_le)
  have b: "length (rstrip (before_last_blank (take m x))) \<le> m" for x
  proof -
    have "length (rstrip (before_last_blank (take m x))) \<le> length (take m x)"
      using length_rstrip length_before_last_blank le_trans by blast
    then show ?thesis by simp
  qed
  show ?thesis by (auto simp: clip_def Let_def a b)
qed

lemma take_sorted_split:
  assumes "sorted (map f xs)"
  shows "x \<in> set (take n xs) \<Longrightarrow> y \<in> set (drop n xs) \<Longrightarrow> f x \<le> f y"
proof -
  have "sorted (map f (take n xs) @ map f (drop n xs))"
    using assms by (metis append_take_drop_id map_append)
  then show "x \<in> set (take n xs) \<Longrightarrow> y \<in> set (drop n xs) \<Longrightarrow> f x \<le> f y"
    by (auto simp: sorted_append)
qed

subsection \<open>Impact levels\<close>

text \<open>Levels are ordered by severity.\<close>

instantiation level :: linorder
begin

definition rank :: "level \<Rightarrow> nat" where
  "rank l = (case l of Low \<Rightarrow> 0 | Medium \<Rightarrow> 1 | High \<Rightarrow> 2)"

definition less_eq_level :: "level \<Rightarrow> level \<Rightarrow> bool" where
  "less_eq_level a b \<longleftrightarrow> rank a \<le> rank b"

definition less_level :: "level \<Rightarrow> level \<Rightarrow> bool" where
  "less_level a b \<longleftrightarrow> rank a < rank b"

instance
proof
  fix x y z :: level
  show "x < y \<longleftrightarrow> x \<le> y \<and> \<not> y \<le> x"
    by (auto simp: less_eq_level_def less_level_def)
  show "x \<le> x" by (simp add: less_eq_level_def)
  show "x \<le> y \<Longrightarrow> y \<le> z \<Longrightarrow> x \<le> z" by (simp add: less_eq_level_def)
  show "x \<le> y \<Longrightarrow> y \<le> x \<Longrightarrow> x = y"
    by (cases x; cases y) (auto simp: less_eq_level_def rank_def)
  show "x \<le> y \<or> y \<le> x" by (auto simp: less_eq_level_def)
qed

end

lemmas level_order = less_eq_level_def rank_def

lemma High_top [simp]: "l \<le> High"
  by (cases l) (simp_all add: level_order)

lemma Low_bot [simp]: "Low \<le> l"
  by (cases l) (simp_all add: level_order)

text \<open>An unknown duration (still open, or stamps out of order) counts as shorter than any other.\<close>

definition no_longer :: "real option \<Rightarrow> real option \<Rightarrow> bool" where
  "no_longer a b \<longleftrightarrow> (case a of None \<Rightarrow> True | Some x \<Rightarrow> (case b of None \<Rightarrow> False | Some y \<Rightarrow> x \<le> y))"

text \<open>Growing the incident never lowers its impact level: more services (at least one is
  always listed) and a longer duration, over the same update texts, give a level at least as high.\<close>

theorem impact_level_monotone:
  assumes "services \<noteq> []" and "length services \<le> length services'"
    and "no_longer (duration_min o1 r1) (duration_min o2 r2)"
  shows "classify_impact services o1 r1 texts \<le> classify_impact services' o2 r2 texts"
proof -
  obtain n where "length services = Suc n" using assms(1) by (cases services) auto
  then show ?thesis using assms(2,3)
    by (cases "duration_min o1 r1"; cases "duration_min o2 r2"; cases "max_stated_pct texts")
      (auto simp: classify_impact_def Let_def no_longer_def level_order)
qed

theorem impact_level_monotone_witness:
  "classify_impact [''api''] (Some 0) (Some 60000000) [''2% of requests are failing'']
     \<le> classify_impact [''api'', ''web''] (Some 0) (Some 120000000) [''2% of requests are failing'']"
  by (rule impact_level_monotone)
    (simp_all add: no_longer_def duration_min_def total_seconds_def)

end
