(* ===== verification/Database.thy ===== *)
theory Database
  imports Prelude
begin

section \<open>The shared Postgres database (\<^verbatim>\<open>db/init.sql\<close>, \<^verbatim>\<open>freshet/common/incidents.py\<close>)\<close>

text \<open>
  One record per table row and one for the database, a table being the list of its rows. The
  workers share this state; a \<open>world\<close> adds the wall clock that \<^verbatim>\<open>now()\<close> reads, the process's
  own memory (metrics, the centroid cache, the sink's channel, what it printed as a delivery) and the part \<open>env\<close>
  that belongs to services outside the repository (Slack, the model API, the embedding model).
  Statements take no time; calls to those services may move the clock. \<open>ensure_incident\<close> is the
  find-or-create both the embedder and the autopilot run; the lemmas say what it adds, that it
  never overwrites a title, a service or a delivery state, and that repeating it changes nothing.
\<close>

record incident =
  inc_id :: string
  inc_title :: string
  opened_at :: time
  resolved_at :: "time option"
  resolution_summary :: "string option"
  brief_as_of :: "time option"
  primary_service :: "string option"
  auto_opened :: bool
  briefed_at :: "time option"
  postmortem_at :: "time option"
  slack_ts :: "string option"
  brief_delivered_at :: "time option"
  postmortem_delivered_at :: "time option"
  progress_at :: "time option"
  progress_delivered_at :: "time option"
  progress_needed :: bool
  brief_due_at :: "time option"
  postmortem_needed :: bool
  thread_seen_ts :: "string option"
  slack_channel_id :: "string option"

record vector_row =
  chunk_id :: string
  chunk_index :: nat
  v_event :: string
  v_incident :: "string option"
  v_service :: string
  v_ts :: time
  v_indexed_at :: time
  v_source :: string
  v_text :: string
  v_title :: "string option"
  v_severity :: "string option"
  v_type :: string
  v_embedding :: "real list"
  v_model :: "string option"

record receipt =
  r_event :: string
  first_index_observed :: bool
  first_queryable_at :: "time option"
  last_queryable_at :: "time option"

record database =
  vector_records :: "vector_row list"
  event_indexing :: "receipt list"
  incidents :: "incident list"
  incident_services :: "(string \<times> string) list"
  incident_events :: "(string \<times> string) list"
  llm_budget :: "(time \<times> int) list"
  heartbeats :: "(string \<times> time) list"
  heartbeat_log :: "(string \<times> time) list"
  index_stats :: "(string \<times> real list \<times> nat) list"

definition empty_database :: database where
  "empty_database = \<lparr>vector_records = [], event_indexing = [], incidents = [], incident_services = [],
     incident_events = [], llm_budget = [], heartbeats = [], heartbeat_log = [], index_stats = []\<rparr>"

record 'e world =
  db :: database
  clock :: time
  counters :: "string \<Rightarrow> nat"
  samples :: "(string \<times> real) list"
  centroid_cache :: "string \<Rightarrow> (time \<times> real list option) option"
  sink_channel :: "string option"
  printed :: "string list"
  env :: 'e

text \<open>A process that has just started over a database.\<close>

definition start_world :: "database \<Rightarrow> time \<Rightarrow> 'e \<Rightarrow> 'e world" where
  "start_world d now e = \<lparr>db = d, clock = now, counters = (\<lambda>n. 0), samples = [],
     centroid_cache = (\<lambda>m. None), sink_channel = None, printed = [], env = e\<rparr>"

lemma start_world_simps [simp]:
  "db (start_world d now e) = d" "clock (start_world d now e) = now" "env (start_world d now e) = e"
  by (simp_all add: start_world_def)

text \<open>Incrementing a Prometheus counter, observing a histogram sample.\<close>

definition inc_counter :: "string \<Rightarrow> 'e world \<Rightarrow> 'e world" where
  "inc_counter name w = w\<lparr>counters := (counters w)(name := Suc (counters w name))\<rparr>"

definition observe :: "string \<Rightarrow> real \<Rightarrow> 'e world \<Rightarrow> 'e world" where
  "observe name x w = w\<lparr>samples := samples w @ [(name, x)]\<rparr>"

text \<open>
  A call to a service outside the repository: it may raise, it takes some microseconds and it
  changes its own part of the world, never the database.
\<close>

type_synonym ('e, 'q, 'a) service = "'q \<Rightarrow> 'e \<Rightarrow> 'a res \<times> nat \<times> 'e"

definition call_service :: "('e, 'q, 'a) service \<Rightarrow> 'q \<Rightarrow> ('e world, 'a) call" where
  "call_service srv q w =
     (case srv q (env w) of (r, d, e) \<Rightarrow> (r, w\<lparr>clock := clock w + int d, env := e\<rparr>))"

lemma call_service_db [simp]: "db (snd (call_service srv q w)) = db w"
  by (simp add: call_service_def split: prod.split)

lemma call_service_clock: "clock w \<le> clock (snd (call_service srv q w))"
  by (simp add: call_service_def split: prod.split)

lemma call_serviceD:
  "call_service srv q w = (r, w') \<Longrightarrow>
     db w' = db w \<and> clock w \<le> clock w' \<and> counters w' = counters w \<and> samples w' = samples w
     \<and> centroid_cache w' = centroid_cache w"
  by (auto simp: call_service_def split: prod.splits)

text \<open>A service that also counts how often it is called, whatever its answer.\<close>

definition counted :: "('e, 'q, 'a) service \<Rightarrow> (nat \<times> 'e, 'q, 'a) service" where
  "counted srv q s = (case srv q (snd s) of (r, d, e) \<Rightarrow> (r, d, (Suc (fst s), e)))"

lemma call_counted:
  "call_service (counted srv) q w = (r, w') \<Longrightarrow> fst (env w') = Suc (fst (env w)) \<and> clock w \<le> clock w'"
  by (auto simp: call_service_def counted_def split: prod.splits)

lemma inc_counter_frame [simp]:
  "db (inc_counter n w) = db w" "clock (inc_counter n w) = clock w" "env (inc_counter n w) = env w"
  by (simp_all add: inc_counter_def)

lemma observe_frame [simp]:
  "db (observe n x w) = db w" "clock (observe n x w) = clock w" "env (observe n x w) = env w"
  by (simp_all add: observe_def)

text \<open>\<^verbatim>\<open>sleep(s)\<close> for a number of microseconds.\<close>

definition sleep :: "time \<Rightarrow> 'e world \<Rightarrow> 'e world" where
  "sleep d w = w\<lparr>clock := clock w + d\<rparr>"

lemma sleep_frame [simp]: "db (sleep d w) = db w" "env (sleep d w) = env w" "clock (sleep d w) = clock w + d"
  by (simp_all add: sleep_def)

text \<open>A row of \<^verbatim>\<open>incidents\<close> with every other column at its default.\<close>

definition new_incident :: "string \<Rightarrow> string \<Rightarrow> time \<Rightarrow> string \<Rightarrow> incident" where
  "new_incident i title opened service =
     \<lparr>inc_id = i, inc_title = title, opened_at = opened, resolved_at = None, resolution_summary = None,
      brief_as_of = None, primary_service = Some service, auto_opened = False, briefed_at = None,
      postmortem_at = None, slack_ts = None, brief_delivered_at = None, postmortem_delivered_at = None,
      progress_at = None, progress_delivered_at = None, progress_needed = False, brief_due_at = None,
      postmortem_needed = False, thread_seen_ts = None, slack_channel_id = None\<rparr>"

definition coalesce :: "'a option \<Rightarrow> 'a option \<Rightarrow> 'a option" where
  "coalesce a b = (case a of None \<Rightarrow> b | Some x \<Rightarrow> Some x)"

lemma coalesce_simps [simp]: "coalesce None b = b" "coalesce (Some x) b = Some x"
  by (simp_all add: coalesce_def)

lemma coalesce_Some_iff: "coalesce a (Some x) \<noteq> None"
  by (cases a) simp_all

text \<open>\<^verbatim>\<open>INSERT .. ON CONFLICT DO NOTHING\<close> into a table whose key is the whole row.\<close>

definition insert_once :: "'r \<Rightarrow> 'r list \<Rightarrow> 'r list" where
  "insert_once r t = (if r \<in> set t then t else t @ [r])"

definition refresh_incident :: "string \<Rightarrow> string \<Rightarrow> incident \<Rightarrow> incident" where
  "refresh_incident title service r =
     r\<lparr>inc_title := (if inc_title r = [] then title else inc_title r),
       primary_service := coalesce (primary_service r) (Some service)\<rparr>"

definition ensure_incident_rows :: "string \<Rightarrow> string \<Rightarrow> time \<Rightarrow> string \<Rightarrow> incident list \<Rightarrow> incident list" where
  "ensure_incident_rows i service opened title t =
     upsert inc_id (new_incident i title opened service) (refresh_incident title service) t"

text \<open>\<^verbatim>\<open>if not incident_id\<close>: a missing or empty id does nothing.\<close>

definition ensure_incident :: "string option \<Rightarrow> string \<Rightarrow> time \<Rightarrow> string \<Rightarrow> database \<Rightarrow> database" where
  "ensure_incident incident_id service opened title d =
     (case incident_id of
        None \<Rightarrow> d
      | Some i \<Rightarrow>
          if i = [] then d
          else d\<lparr>incidents := ensure_incident_rows i service opened title (incidents d),
                 incident_services := insert_once (i, service) (incident_services d)\<rparr>)"

subsection \<open>Laws of find-or-create\<close>

lemma refresh_incident_id [simp]: "inc_id (refresh_incident title service r) = inc_id r"
  by (simp add: refresh_incident_def)

lemma new_incident_id [simp]: "inc_id (new_incident i title opened service) = i"
  by (simp add: new_incident_def)

lemma insert_once_set [simp]: "set (insert_once r t) = insert r (set t)"
  by (auto simp: insert_once_def)

lemma insert_once_twice [simp]: "insert_once r (insert_once r t) = insert_once r t"
  by (simp add: insert_once_def)

lemma insert_once_distinct: "distinct t \<Longrightarrow> distinct (insert_once r t)"
  by (simp add: insert_once_def)

lemma row_of_ensure:
  "row_of inc_id j (ensure_incident_rows i service opened title t) =
     (if j = i then Some (case row_of inc_id i t of
          None \<Rightarrow> new_incident i title opened service
        | Some r \<Rightarrow> refresh_incident title service r)
      else row_of inc_id j t)"
  by (simp add: ensure_incident_rows_def row_of_upsert)

lemma keyed_ensure: "keyed inc_id t \<Longrightarrow> keyed inc_id (ensure_incident_rows i service opened title t)"
  by (simp add: ensure_incident_rows_def keyed_upsert)

lemma upsert_absorbs:
  assumes "\<And>r. key (f r) = key r" and "\<And>r. f (f r) = f r" and "f new = new"
  shows "upsert key new f (upsert key new f t) = upsert key new f t"
  by (induction t) (auto simp: assms)

lemma ensure_rows_idempotent:
  "ensure_incident_rows i s o1 title (ensure_incident_rows i s o1 title t) = ensure_incident_rows i s o1 title t"
  unfolding ensure_incident_rows_def
  by (rule upsert_absorbs) (simp_all add: refresh_incident_def new_incident_def coalesce_def split: option.splits)

text \<open>Find-or-create is idempotent on the whole database: a redelivered message that runs
  \<open>ensure_incident\<close> again with the same arguments changes nothing.\<close>

theorem ensure_incident_idempotent:
  "ensure_incident i service opened title (ensure_incident i service opened title d) =
     ensure_incident i service opened title d"
  by (cases i) (simp_all add: ensure_incident_def ensure_rows_idempotent)

subsection \<open>Foreign keys\<close>

text \<open>\<^verbatim>\<open>incident_services\<close> and \<^verbatim>\<open>incident_events\<close> reference \<^verbatim>\<open>incidents\<close>; the primary keys are unique.\<close>

definition integrity :: "database \<Rightarrow> bool" where
  "integrity d \<longleftrightarrow> keyed inc_id (incidents d) \<and> keyed chunk_id (vector_records d)
     \<and> keyed r_event (event_indexing d)
     \<and> distinct (incident_services d) \<and> distinct (incident_events d)
     \<and> fst ` set (incident_services d) \<subseteq> inc_id ` set (incidents d)
     \<and> fst ` set (incident_events d) \<subseteq> inc_id ` set (incidents d)"

lemma ensure_ids: "inc_id ` set (ensure_incident_rows i s o1 title t) = insert i (inc_id ` set t)"
  by (simp add: ensure_incident_rows_def keys_upsert)

lemma integrity_empty: "integrity empty_database"
  by (simp add: integrity_def empty_database_def keyed_def)

lemma integrity_ensure: "integrity d \<Longrightarrow> integrity (ensure_incident i service opened title d)"
  by (cases i) (auto simp: integrity_def ensure_incident_def ensure_ids keyed_ensure insert_once_distinct)

lemma ensure_incident_frame [simp]:
  "vector_records (ensure_incident i s o1 title d) = vector_records d"
  "event_indexing (ensure_incident i s o1 title d) = event_indexing d"
  "incident_events (ensure_incident i s o1 title d) = incident_events d"
  "llm_budget (ensure_incident i s o1 title d) = llm_budget d"
  "heartbeats (ensure_incident i s o1 title d) = heartbeats d"
  "heartbeat_log (ensure_incident i s o1 title d) = heartbeat_log d"
  "index_stats (ensure_incident i s o1 title d) = index_stats d"
  by (simp_all add: ensure_incident_def split: option.splits)

end
