(* ===== verification/Composer.thy ===== *)
theory Composer
  imports Brief Database
begin

section \<open>Grounded answers (\<^verbatim>\<open>freshet/rag/composer.py\<close>)\<close>

text \<open>
  \<open>verify_citations\<close> rewrites the model's answer: an id-shaped bracket that names evidence gets
  the evidence's own timestamp, one that does not is removed, other brackets stay. The model
  API is a service; \<open>anthropic_compose\<close> is \<^verbatim>\<open>AnthropicComposer.compose\<close> around it. The theorems
  say what each citation of the answer becomes, and one closed theorem shows the limit of a
  single pass: removing a citation nested in brackets can leave a new, unverified one.
\<close>

definition NO_EVIDENCE :: string where
  "NO_EVIDENCE = ''I don'' @ [CHR 0x27] @ ''t have enough indexed evidence to answer that.''"

definition not_bracket :: re where
  "not_bracket = none_of ''[]''"

definition CITATION :: re where
  "CITATION = seq [Grp 1 (many space), ch CHR ''['', Grp 2 (some_lazy not_bracket),
     opt (seq [many space, ch CHR ''@'', many space, many_lazy not_bracket]),
     many space, ch CHR '']'']"

definition is_alnum_ascii :: "char \<Rightarrow> bool" where
  "is_alnum_ascii c \<longleftrightarrow> is_digit c \<or> is_upper c \<or> is_lower c"

definition ID_SHAPED :: re where
  "ID_SHAPED = seq [Ahead True (seq [many dot, Cls (\<lambda>c. is_digit c \<or> c \<in> set ''_:-'')]),
     Cls is_alnum_ascii, times 2 (Cls (\<lambda>c. is_alnum_ascii c \<or> c \<in> set ''_.:-'')),
     many (Cls (\<lambda>c. is_alnum_ascii c \<or> c \<in> set ''_.:-'')), Dollar]"

definition id_shaped :: "string \<Rightarrow> bool" where
  "id_shaped s \<longleftrightarrow> matches ID_SHAPED ([], s, []) \<noteq> []"

text \<open>The dict comprehension over the hits: a later hit with the same id overrides.\<close>

definition allowed_stamps :: "'a cited_scheme list \<Rightarrow> string \<Rightarrow> string option" where
  "allowed_stamps hits = map_of (rev (map (\<lambda>h. (event_id h, fmt_stamp (ts h))) hits))"

definition cited_id :: "groups \<Rightarrow> string" where
  "cited_id g = strip (str_of (group 2 g))"

definition keep_citation :: "(string \<Rightarrow> string option) \<Rightarrow> string \<Rightarrow> groups \<Rightarrow> string" where
  "keep_citation allowed whole g =
     (if \<not> id_shaped (cited_id g) then whole
      else case allowed (cited_id g) of
             None \<Rightarrow> []
           | Some stamp \<Rightarrow> str_of (group 1 g) @ ''['' @ cited_id g @ '' @ '' @ stamp @ '']'')"

definition verify_citations :: "string \<Rightarrow> 'a cited_scheme list \<Rightarrow> string" where
  "verify_citations answer hits = sub CITATION (keep_citation (allowed_stamps hits)) answer"

text \<open>How many times the call increments \<^verbatim>\<open>DROPPED_CITATIONS\<close>.\<close>

definition dropped_citations :: "string \<Rightarrow> 'a cited_scheme list \<Rightarrow> nat" where
  "dropped_citations answer hits =
     length (filter (\<lambda>(w, g). id_shaped (cited_id g) \<and> allowed_stamps hits (cited_id g) = None)
       (findall CITATION answer))"

definition quote_char :: string where
  "quote_char = [CHR 0x22]"

definition evidence_block :: "'a cited_scheme list \<Rightarrow> string" where
  "evidence_block hits = join newline
     (map (\<lambda>h. ''<event id='' @ quote_char @ event_id h @ quote_char @ '' source='' @ quote_char @ source h
        @ quote_char @ ''>'' @ body_text h @ ''</event>'') hits)"

text \<open>The element is said to give an event's text an edge. It does while no text contains the closing tag; the text is
  not escaped, so one that does can end its element and open another, under an id of its own choice.\<close>

lemma event_text_forges_evidence:
  "evidence_block [h\<lparr>body_text := t @ ''</event>'' @ newline @ ''<event id='' @ quote_char @ i @ quote_char @ '' source=''
       @ quote_char @ src @ quote_char @ ''>'' @ u\<rparr>]
   = evidence_block [h\<lparr>body_text := t\<rparr>, h\<lparr>event_id := i, source := src, body_text := u\<rparr>]"
  by (simp add: evidence_block_def)

subsection \<open>The composer around the model API\<close>

definition DEFAULT_MODEL :: string where
  "DEFAULT_MODEL = ''claude-sonnet-4-6''"

text \<open>The model's name: the argument, else the variable when it is set, be it to nothing.\<close>

definition composer_model :: "string option \<Rightarrow> string option \<Rightarrow> string" where
  "composer_model model variable =
     (if truthy model then the model else case variable of None \<Rightarrow> DEFAULT_MODEL | Some m \<Rightarrow> m)"

text \<open>
  A response is the list of its blocks, a text block carrying its text, and whether it stopped
  at the token limit. The request is the user message; the model name, system prompt and token
  limit are constants of the call.
\<close>

record response =
  blocks :: "string option list"
  hit_max_tokens :: bool

definition user_message :: "time \<Rightarrow> string \<Rightarrow> 'a cited_scheme list \<Rightarrow> string" where
  "user_message now question hits =
     ''Current time: '' @ fmt_date now @ '' '' @ fmt_hm now @ '' UTC'' @ newline @ newline
     @ ''Question: '' @ question @ newline @ newline @ ''Events:'' @ newline @ evidence_block hits"

fun first_text :: "string option list \<Rightarrow> string" where
  "first_text [] = []"
| "first_text (Some t # bs) = t"
| "first_text (None # bs) = first_text bs"

definition count_times :: "string \<Rightarrow> nat \<Rightarrow> 'e world \<Rightarrow> 'e world" where
  "count_times name n w = w\<lparr>counters := (counters w)(name := counters w name + n)\<rparr>"

definition anthropic_compose ::
  "('e, string, response) service \<Rightarrow> string \<Rightarrow> 'a cited_scheme list \<Rightarrow> ('e world, string) call" where
  "anthropic_compose client question hits w =
     (if hits = [] then (Inr NO_EVIDENCE, w)
      else case call_service client (user_message (clock w) question hits) w of
             (Inl e, w1) \<Rightarrow> (Inl e, w1)
           | (Inr resp, w1) \<Rightarrow>
               let w2 = observe ''llm_seconds'' (total_seconds (clock w1 - clock w))
                          (inc_counter ''llm_calls'' w1);
                   raw = first_text (blocks resp);
                   w3 = count_times ''dropped_citations'' (dropped_citations raw hits) w2;
                   answer = verify_citations raw hits
               in if hit_max_tokens resp
                  then (Inr (rstrip answer @ '' '' @ ellipsis @ ''(truncated)''), inc_counter ''llm_truncated'' w3)
                  else (Inr answer, w3))"

lemma count_times_frame [simp]:
  "db (count_times n k w) = db w" "clock (count_times n k w) = clock w" "env (count_times n k w) = env w"
  by (simp_all add: count_times_def)

lemma anthropic_compose_frame:
  "db (snd (anthropic_compose client q hits w)) = db w \<and> clock w \<le> clock (snd (anthropic_compose client q hits w))"
  by (auto simp: anthropic_compose_def Let_def split: prod.split sum.split dest: call_serviceD)

subsection \<open>What becomes of a citation\<close>

lemma allowed_stamps_Some:
  "allowed_stamps hits c = Some stamp \<Longrightarrow> \<exists>h \<in> set hits. event_id h = c \<and> stamp = fmt_stamp (ts h)"
  by (auto simp: allowed_stamps_def dest!: map_of_SomeD)

lemma allowed_stamps_None: "allowed_stamps hits c = None \<longleftrightarrow> c \<notin> event_id ` set hits"
  by (simp add: allowed_stamps_def map_of_eq_None_iff image_image)

lemma keep_citation_cases:
  "keep_citation (allowed_stamps hits) w g =
     (if \<not> id_shaped (cited_id g) then w
      else if cited_id g \<notin> event_id ` set hits then []
      else str_of (group 1 g) @ ''['' @ cited_id g @ '' @ '' @ the (allowed_stamps hits (cited_id g)) @ '']'')"
  unfolding keep_citation_def by (auto simp: allowed_stamps_None [symmetric] split: option.splits)

text \<open>C29. Every bracket of the model's answer is accounted for: the verified answer is the answer
  with each match of the citation pattern replaced, where a bracket that is not id-shaped stays as
  it was, an id outside the evidence disappears, and an id of the evidence comes out as the
  canonical citation of a piece of evidence with that id, whatever timestamp the model wrote.\<close>

theorem citations_come_from_evidence:
  "verify_citations answer hits =
     concat (map (piece_text (keep_citation (allowed_stamps hits))) (scan CITATION answer))
   \<and> concat (map (piece_text (\<lambda>w g. w)) (scan CITATION answer)) = answer
   \<and> (\<forall>w g. Inr (w, g) \<in> set (scan CITATION answer) \<longrightarrow>
        (let out = keep_citation (allowed_stamps hits) w g in
         if \<not> id_shaped (cited_id g) then out = w
         else if cited_id g \<notin> event_id ` set hits then out = []
         else \<exists>h \<in> set hits. event_id h = cited_id g \<and> out = str_of (group 1 g) @ cite_hit h))"
proof -
  have "\<exists>h \<in> set hits. event_id h = cited_id g
      \<and> keep_citation (allowed_stamps hits) w g = str_of (group 1 g) @ cite_hit h"
    if "id_shaped (cited_id g)" and known: "cited_id g \<in> event_id ` set hits" for w g
  proof -
    from known obtain stamp where s: "allowed_stamps hits (cited_id g) = Some stamp"
      using allowed_stamps_None by (cases "allowed_stamps hits (cited_id g)") auto
    from allowed_stamps_Some [OF s] obtain h where "h \<in> set hits" "event_id h = cited_id g"
      "stamp = fmt_stamp (ts h)" by blast
    with that s show ?thesis
      by (auto simp: keep_citation_def cite_hit_def intro!: bexI [of _ h])
  qed
  then show ?thesis
    by (simp add: verify_citations_def sub_def scan_lossless keep_citation_cases Let_def)
qed

theorem citations_come_from_evidence_witness:
  "let hits = [\<lparr>event_id = ''evt_1'', ts = 0, body_text = [], source = []\<rparr>]
   in verify_citations ''Down [evt_1 @ 12:00] [evt_2]'' hits = ''Down [evt_1 @ 1970-01-01 00:00:00]''
      \<and> concat (map (piece_text (\<lambda>w g. w)) (scan CITATION ''Down [evt_1 @ 12:00] [evt_2]'')) = ''Down [evt_1 @ 12:00] [evt_2]''"
proof -
  let ?hits = "[\<lparr>event_id = ''evt_1'', ts = 0, body_text = [], source = []\<rparr>]"
  have "verify_citations ''Down [evt_1 @ 12:00] [evt_2]'' ?hits = ''Down [evt_1 @ 1970-01-01 00:00:00]''"
    by code_simp
  with citations_come_from_evidence [of "''Down [evt_1 @ 12:00] [evt_2]''" ?hits]
  show ?thesis unfolding Let_def by blast
qed

text \<open>One pass is not enough for nested brackets: from the answer \<^verbatim>\<open>[evt_[x_1]9]\<close>, with the single
  piece of evidence \<^verbatim>\<open>evt_1\<close>, the pass removes the unverifiable \<^verbatim>\<open>[x_1]\<close> and thereby produces
  \<^verbatim>\<open>[evt_9]\<close>, an id-shaped citation that names no evidence.\<close>

theorem nested_brackets_forge_a_citation:
  "verify_citations ''[evt_[x_1]9]'' [\<lparr>event_id = ''evt_1'', ts = 0, body_text = [], source = []\<rparr>] = ''[evt_9]''
   \<and> map (\<lambda>(w, g). cited_id g) (findall CITATION ''[evt_9]'') = [''evt_9'']
   \<and> id_shaped ''evt_9''"
  by code_simp

end
