(* ===== verification/Retrieval.thy ===== *)
theory Retrieval
  imports Composer
begin

section \<open>Hybrid retrieval (\<^verbatim>\<open>freshet/rag/retrieval.py\<close>, \<^verbatim>\<open>freshet/pipeline/index_stats.py\<close>)\<close>

text \<open>
  Two ranked queries over \<^verbatim>\<open>vector_records\<close>, reciprocal-rank fusion of the two lists and the
  abstention test. What pgvector and the full-text engine compute (distance, vector arithmetic,
  query parsing, match, rank) and the collation of the key are the parameters of
  \<open>search_engine\<close>; the embedding model is a service. A cosine is a real number. The lemmas give
  the fused score as a sum over the lists, show that fusion respects an order the lists agree
  on, and say what a search can return.
\<close>

record search_engine =
  vec_distance :: "real list \<Rightarrow> real list \<Rightarrow> real"
  vec_minus :: "real list \<Rightarrow> real list \<Rightarrow> real list"
  vec_mean :: "real list list \<Rightarrow> real list"
  websearch_tsquery :: "string \<Rightarrow> string"
  ts_matches :: "string \<Rightarrow> string \<Rightarrow> bool"
  ts_rank_cd :: "string \<Rightarrow> string \<Rightarrow> real"
  collation :: "string \<Rightarrow> real"

record 'e embedder =
  emb_name :: "string option"
  emb_floor :: "real option"
  emb_floor_centered :: "real option"
  encode_texts :: "('e, string list, real list list) service"
  encode_query :: "('e, string list, real list list) service"

subsection \<open>The centroid of the index\<close>

definition CENTROID_TTL_S :: real where
  "CENTROID_TTL_S = 300"

definition model_rows :: "string \<Rightarrow> database \<Rightarrow> vector_row list" where
  "model_rows model d = filter (\<lambda>r. v_model r = Some model) (vector_records d)"

text \<open>\<^verbatim>\<open>avg(embedding)\<close> over no rows is NULL.\<close>

definition compute_centroid :: "search_engine \<Rightarrow> string \<Rightarrow> database \<Rightarrow> real list option" where
  "compute_centroid eng model d =
     (let rs = model_rows model d in if rs = [] then None else Some (vec_mean eng (map v_embedding rs)))"

definition clear_cache :: "'e world \<Rightarrow> 'e world" where
  "clear_cache w = w\<lparr>centroid_cache := (\<lambda>m. None)\<rparr>"

definition store_centroid :: "string \<Rightarrow> real list \<Rightarrow> nat \<Rightarrow> database \<Rightarrow> database" where
  "store_centroid model c n d =
     d\<lparr>index_stats := upsert fst (model, c, n) (\<lambda>r. (fst r, c, n)) (index_stats d)\<rparr>"

definition refresh_centroid :: "search_engine \<Rightarrow> string \<Rightarrow> 'e world \<Rightarrow> nat \<times> 'e world" where
  "refresh_centroid eng model w =
     (case compute_centroid eng model (db w) of
        None \<Rightarrow> (0, w)
      | Some c \<Rightarrow>
          let n = length (model_rows model (db w))
          in (n, clear_cache (w\<lparr>db := store_centroid model c n (db w)\<rparr>)))"

definition stored_centroid :: "string \<Rightarrow> database \<Rightarrow> real list option" where
  "stored_centroid model d = map_option (fst \<circ> snd) (row_of fst model (index_stats d))"

definition get_centroid :: "string \<Rightarrow> 'e world \<Rightarrow> real list option \<times> 'e world" where
  "get_centroid model w =
     (if model = [] then (None, w)
      else case centroid_cache w model of
             Some (stamp, v) \<Rightarrow>
               if total_seconds (clock w - stamp) < CENTROID_TTL_S then (v, w)
               else let v' = stored_centroid model (db w)
                    in (v', w\<lparr>centroid_cache := (centroid_cache w)(model := Some (clock w, v'))\<rparr>)
           | None \<Rightarrow>
               let v' = stored_centroid model (db w)
               in (v', w\<lparr>centroid_cache := (centroid_cache w)(model := Some (clock w, v'))\<rparr>))"

subsection \<open>The two arms\<close>

definition ARM_K :: nat where
  "ARM_K = 20"

definition where_clause :: "string option \<Rightarrow> time option \<Rightarrow> string option \<Rightarrow> vector_row \<Rightarrow> bool" where
  "where_clause service since exclude_event r \<longleftrightarrow>
     (case service of None \<Rightarrow> True | Some s \<Rightarrow> v_service r = s)
     \<and> (case since of None \<Rightarrow> True | Some t \<Rightarrow> t \<le> v_ts r)
     \<and> (case exclude_event of None \<Rightarrow> True | Some e \<Rightarrow> v_event r \<noteq> e)"

text \<open>A row of either query: the record, its cosine similarity and the centered one.\<close>

type_synonym arm_row = "vector_row \<times> real \<times> real option"

definition cosine :: "search_engine \<Rightarrow> real list \<Rightarrow> vector_row \<Rightarrow> real" where
  "cosine eng qvec r = 1 - vec_distance eng (v_embedding r) qvec"

definition centered_cosine :: "search_engine \<Rightarrow> real list \<Rightarrow> real list option \<Rightarrow> vector_row \<Rightarrow> real option" where
  "centered_cosine eng qvec centroid r =
     (case centroid of
        None \<Rightarrow> None
      | Some c \<Rightarrow> Some (1 - vec_distance eng (vec_minus eng (v_embedding r) c) (vec_minus eng qvec c)))"

definition arm_row_of :: "search_engine \<Rightarrow> real list \<Rightarrow> real list option \<Rightarrow> vector_row \<Rightarrow> arm_row" where
  "arm_row_of eng qvec centroid r = (r, cosine eng qvec r, centered_cosine eng qvec centroid r)"

definition by_chunk :: "search_engine \<Rightarrow> vector_row list \<Rightarrow> vector_row list" where
  "by_chunk eng rs = sort_key (collation eng \<circ> chunk_id) rs"

definition vector_arm ::
  "search_engine \<Rightarrow> real list \<Rightarrow> real list option \<Rightarrow> (vector_row \<Rightarrow> bool) \<Rightarrow> database \<Rightarrow> arm_row list" where
  "vector_arm eng qvec centroid p d =
     map (arm_row_of eng qvec centroid)
       (take ARM_K (sort_key (\<lambda>r. vec_distance eng (v_embedding r) qvec)
         (by_chunk eng (filter p (vector_records d)))))"

definition or_tsquery :: "search_engine \<Rightarrow> string \<Rightarrow> string" where
  "or_tsquery eng q =
     (let t = websearch_tsquery eng q
      in if CHR 0x21 \<in> set t then t else map (\<lambda>c. if c = CHR 0x26 then CHR 0x7C else c) t)"

definition keyword_arm ::
  "search_engine \<Rightarrow> real list \<Rightarrow> real list option \<Rightarrow> string \<Rightarrow> (vector_row \<Rightarrow> bool) \<Rightarrow> database \<Rightarrow> arm_row list" where
  "keyword_arm eng qvec centroid q p d =
     map (arm_row_of eng qvec centroid)
       (take ARM_K (sort_key (\<lambda>r. - ts_rank_cd eng (v_text r) (or_tsquery eng q))
         (by_chunk eng (filter (\<lambda>r. p r \<and> ts_matches eng (v_text r) (or_tsquery eng q)) (vector_records d)))))"

subsection \<open>Reciprocal-rank fusion\<close>

definition RRF_K :: nat where
  "RRF_K = 60"

text \<open>The score dictionary in insertion order.\<close>

fun add_score :: "string \<Rightarrow> real \<Rightarrow> (string \<times> real) list \<Rightarrow> (string \<times> real) list" where
  "add_score c x [] = [(c, x)]"
| "add_score c x ((d, s) # sc) = (if d = c then (d, s + x) # sc else (d, s) # add_score c x sc)"

fun add_ranked :: "nat \<Rightarrow> string list \<Rightarrow> (string \<times> real) list \<Rightarrow> (string \<times> real) list" where
  "add_ranked r [] sc = sc"
| "add_ranked r (c # cs) sc = add_ranked (Suc r) cs (add_score c (1 / real (RRF_K + r)) sc)"

definition reciprocal_rank_fusion :: "string list list \<Rightarrow> (string \<times> real) list" where
  "reciprocal_rank_fusion ranked_lists =
     sort_key (\<lambda>kv. - snd kv) (foldl (\<lambda>sc l. add_ranked 0 l sc) [] ranked_lists)"

subsection \<open>The search\<close>

record hit = cited +
  h_chunk :: string
  h_service :: string
  h_indexed_at :: time
  h_type :: string
  similarity :: real
  score :: real
  h_title :: "string option"
  centered_similarity :: "real option"

record hybrid_result =
  hits :: "hit list"
  abstained :: bool

definition should_abstain :: "real list \<Rightarrow> real \<Rightarrow> bool" where
  "should_abstain similarities min_similarity \<longleftrightarrow>
     similarities = [] \<or> Max (set similarities) < min_similarity"

definition DEFAULT_MIN_SIMILARITY :: real where
  "DEFAULT_MIN_SIMILARITY = 3 / 10"

definition default_min_similarity :: "'e embedder \<Rightarrow> real" where
  "default_min_similarity e = (case emb_floor e of None \<Rightarrow> DEFAULT_MIN_SIMILARITY | Some x \<Rightarrow> x)"

definition rows_to_map :: "arm_row list \<Rightarrow> string \<Rightarrow> arm_row option" where
  "rows_to_map rs = map_of (rev (map (\<lambda>r. (chunk_id (fst r), r)) rs))"

definition hit_of :: "arm_row \<Rightarrow> real \<Rightarrow> hit" where
  "hit_of a s =
     (let r = fst a in
      \<lparr>event_id = v_event r, ts = v_ts r, body_text = v_text r, source = v_source r,
       h_chunk = chunk_id r, h_service = v_service r, h_indexed_at = v_indexed_at r, h_type = v_type r,
       similarity = fst (snd a), score = s, h_title = v_title r, centered_similarity = snd (snd a)\<rparr>)"

text \<open>The loop over the fused ids; an id of neither arm is a \<^verbatim>\<open>KeyError\<close>.\<close>

fun build_hits ::
  "(string \<Rightarrow> arm_row option) \<Rightarrow> (string \<Rightarrow> arm_row option) \<Rightarrow> (string \<times> real) list \<Rightarrow> hit list res" where
  "build_hits vec_map kw_map [] = Inr []"
| "build_hits vec_map kw_map ((c, s) # fused) =
     (case (case vec_map c of Some a \<Rightarrow> Some a | None \<Rightarrow> kw_map c) of
        None \<Rightarrow> Inl KeyError
      | Some a \<Rightarrow>
          (case build_hits vec_map kw_map fused of
             Inl e \<Rightarrow> Inl e
           | Inr hs \<Rightarrow> Inr (hit_of a s # hs)))"

definition abstains ::
  "string option \<Rightarrow> time option \<Rightarrow> real option \<Rightarrow> real \<Rightarrow> hit list \<Rightarrow> bool" where
  "abstains service since centered_floor min_similarity topk =
     (if service \<noteq> None \<or> since \<noteq> None then topk = []
      else let csims = map (the \<circ> centered_similarity) (filter (\<lambda>h. centered_similarity h \<noteq> None) topk)
           in case centered_floor of
                Some f \<Rightarrow> if csims \<noteq> [] then should_abstain csims f
                          else should_abstain (map similarity topk) min_similarity
              | None \<Rightarrow> should_abstain (map similarity topk) min_similarity)"

definition fuse_arms :: "arm_row list \<Rightarrow> arm_row list \<Rightarrow> hit list res" where
  "fuse_arms vec_rows kw_rows =
     build_hits (rows_to_map vec_rows) (rows_to_map kw_rows)
       (reciprocal_rank_fusion [map (chunk_id \<circ> fst) vec_rows, map (chunk_id \<circ> fst) kw_rows])"

definition top_hits :: "nat \<Rightarrow> hit list \<Rightarrow> hit list" where
  "top_hits k hs = take k (sort_key (\<lambda>h. - score h) hs)"

definition hybrid_search ::
  "search_engine \<Rightarrow> 'e embedder \<Rightarrow> string \<Rightarrow> nat \<Rightarrow> string option \<Rightarrow> time option \<Rightarrow> real option
    \<Rightarrow> string option \<Rightarrow> ('e world, hybrid_result) call" where
  "hybrid_search eng emb question k service since min_similarity exclude_event w =
     (let floor = (case min_similarity of None \<Rightarrow> default_min_similarity emb | Some x \<Rightarrow> x);
          model = (case emb_name emb of None \<Rightarrow> [] | Some n \<Rightarrow> n);
          (centroid, w1) = (if emb_floor_centered emb \<noteq> None then get_centroid model w else (None, w))
      in case call_service (encode_query emb) [question] w1 of
           (Inl e, w2) \<Rightarrow> (Inl e, w2)
         | (Inr [qvec], w2) \<Rightarrow>
             let p = where_clause service since exclude_event;
                 vec_rows = vector_arm eng qvec centroid p (db w2);
                 kw_rows = keyword_arm eng qvec centroid question p (db w2)
             in (case fuse_arms vec_rows kw_rows of
                   Inl e \<Rightarrow> (Inl e, w2)
                 | Inr hs \<Rightarrow>
                     let topk = top_hits k hs;
                         ab = abstains service since (emb_floor_centered emb) floor topk
                     in (Inr \<lparr>hits = topk, abstained = ab\<rparr>, if ab then inc_counter ''abstentions'' w2 else w2))
         | (Inr other, w2) \<Rightarrow> (Inl ValueError, w2))"

text \<open>\<^verbatim>\<open>check_index_model\<close>: a conflicting model in the index raises; the result is the number of
  rows of unknown provenance to warn about.\<close>

definition index_model :: "vector_row \<Rightarrow> string" where
  "index_model r = (case v_model r of None \<Rightarrow> ''unknown'' | Some m \<Rightarrow> m)"

definition check_index_model :: "'e embedder \<Rightarrow> database \<Rightarrow> nat option res" where
  "check_index_model emb d =
     (case emb_name emb of
        None \<Rightarrow> Inr None
      | Some name \<Rightarrow>
          let models = map index_model (vector_records d)
          in if models = [] then Inr None
             else if filter (\<lambda>m. m \<noteq> name \<and> m \<noteq> ''unknown'') models \<noteq> [] then Inl RuntimeError
             else if ''unknown'' \<in> set models then Inr (Some (count_list models ''unknown''))
             else Inr None)"

subsection \<open>Fusion\<close>

text \<open>The reference score: over every list, the reciprocal of each position the id holds in it.\<close>

definition fused_score :: "string list list \<Rightarrow> string \<Rightarrow> real" where
  "fused_score ls c = (\<Sum>l \<leftarrow> ls. \<Sum>j | j < length l \<and> l ! j = c. 1 / real (RRF_K + j))"

definition score_in :: "(string \<times> real) list \<Rightarrow> string \<Rightarrow> real" where
  "score_in sc c = (case map_of sc c of None \<Rightarrow> 0 | Some s \<Rightarrow> s)"

fun weight :: "nat \<Rightarrow> string \<Rightarrow> string list \<Rightarrow> real" where
  "weight r c [] = 0"
| "weight r c (d # ds) = (if d = c then 1 / real (RRF_K + r) else 0) + weight (Suc r) c ds"

lemma add_score_keys [simp]: "fst ` set (add_score c x sc) = insert c (fst ` set sc)"
  by (induction c x sc rule: add_score.induct) auto

lemma add_score_distinct: "distinct (map fst sc) \<Longrightarrow> distinct (map fst (add_score c x sc))"
proof (induction c x sc rule: add_score.induct)
  case (2 c x d s sc)
  have "fst ` set (add_score c x sc) = insert c (fst ` set sc)" by simp
  with 2 show ?case by (auto simp del: add_score_keys)
qed simp

lemma score_in_add: "score_in (add_score c x sc) d = score_in sc d + (if d = c then x else 0)"
  by (induction c x sc rule: add_score.induct) (auto simp: score_in_def)

lemma add_ranked_keys [simp]: "fst ` set (add_ranked r l sc) = set l \<union> fst ` set sc"
  by (induction r l sc rule: add_ranked.induct) auto

lemma add_ranked_distinct: "distinct (map fst sc) \<Longrightarrow> distinct (map fst (add_ranked r l sc))"
  by (induction r l sc rule: add_ranked.induct) (auto simp: add_score_distinct)

lemma score_in_ranked: "score_in (add_ranked r l sc) c = score_in sc c + weight r c l"
  by (induction r l sc rule: add_ranked.induct) (auto simp: score_in_add)

lemma weight_sum: "weight r c l = (\<Sum>j | j < length l \<and> l ! j = c. 1 / real (RRF_K + r + j))"
proof (induction l arbitrary: r)
  case (Cons d ds)
  let ?J = "{j. j < length ds \<and> ds ! j = c}"
  have split: "{j. j < length (d # ds) \<and> (d # ds) ! j = c} = (if d = c then {0} else {}) \<union> Suc ` ?J"
    by (auto simp: less_Suc_eq_0_disj)
  have "(\<Sum>j \<in> Suc ` ?J. 1 / real (RRF_K + r + j)) = weight (Suc r) c ds"
    by (simp add: Cons.IH sum.reindex add.assoc add.left_commute)
  then show ?case
    unfolding split by (subst sum.union_disjoint) auto
qed simp

lemma fold_lists:
  "fst ` set (foldl (\<lambda>sc l. add_ranked 0 l sc) sc0 ls) = (\<Union>l \<in> set ls. set l) \<union> fst ` set sc0"
  "distinct (map fst sc0) \<Longrightarrow> distinct (map fst (foldl (\<lambda>sc l. add_ranked 0 l sc) sc0 ls))"
  "score_in (foldl (\<lambda>sc l. add_ranked 0 l sc) sc0 ls) c = score_in sc0 c + (\<Sum>l \<leftarrow> ls. weight 0 c l)"
  by (induction ls arbitrary: sc0) (auto simp: add_ranked_distinct score_in_ranked)

lemma score_in_entry: "distinct (map fst sc) \<Longrightarrow> (c, s) \<in> set sc \<Longrightarrow> score_in sc c = s"
  by (simp add: score_in_def)

lemma fused_score_weight: "fused_score ls c = (\<Sum>l \<leftarrow> ls. weight 0 c l)"
  by (simp add: fused_score_def weight_sum)

lemma rrf_entry: "(c, s) \<in> set (reciprocal_rank_fusion ls) \<Longrightarrow> s = fused_score ls c"
  using score_in_entry [OF fold_lists(2) [of "[]" ls], of c s] fold_lists(3) [of "[]" ls c]
  by (simp add: reciprocal_rank_fusion_def fused_score_weight score_in_def)

lemma rrf_facts:
  "distinct (map fst (reciprocal_rank_fusion ls))"
  "set (map fst (reciprocal_rank_fusion ls)) = (\<Union>l \<in> set ls. set l)"
  "sorted (map (\<lambda>kv. - snd kv) (reciprocal_rank_fusion ls))"
  using fold_lists(2) [of "[]" ls] fold_lists(1) [of "[]" ls]
  by (simp_all add: reciprocal_rank_fusion_def distinct_map)

lemma split_at_two:
  assumes "i < j" and "j < length xs"
  shows "xs = take i xs @ [xs ! i] @ take (j - Suc i) (drop (Suc i) xs) @ [xs ! j] @ drop (Suc j) xs"
proof -
  have "xs = take i xs @ xs ! i # drop (Suc i) xs" using assms by (simp add: id_take_nth_drop)
  moreover have "drop (Suc i) xs = take (j - Suc i) (drop (Suc i) xs)
      @ drop (Suc i) xs ! (j - Suc i) # drop (Suc (j - Suc i)) (drop (Suc i) xs)"
    using assms by (intro id_take_nth_drop) simp
  ultimately show ?thesis using assms by simp
qed

text \<open>C23. The incremental score dictionary computes the textbook formula: every id of the lists
  comes out exactly once, with the sum over all lists of \<open>1 / (60 + position)\<close>, best score first.\<close>

theorem rrf_is_the_sum_of_reciprocal_ranks:
  "distinct (map fst (reciprocal_rank_fusion ls))
   \<and> set (map fst (reciprocal_rank_fusion ls)) = (\<Union>l \<in> set ls. set l)
   \<and> map snd (reciprocal_rank_fusion ls) = map (fused_score ls) (map fst (reciprocal_rank_fusion ls))
   \<and> sorted (map (\<lambda>kv. - snd kv) (reciprocal_rank_fusion ls))"
  using rrf_facts [of ls] by (auto simp: rrf_entry)

lemma weight_nonneg: "0 \<le> weight r c l"
  by (induction r c l rule: weight.induct) auto

lemma weight_absent: "c \<notin> set l \<Longrightarrow> weight r c l = 0"
  by (induction r c l rule: weight.induct) auto

lemma weight_single: "distinct l \<Longrightarrow> i < length l \<Longrightarrow> weight r (l ! i) l = 1 / real (RRF_K + r + i)"
proof -
  assume "distinct l" "i < length l"
  then have "{j. j < length l \<and> l ! j = l ! i} = {i}" by (auto simp: nth_eq_iff_index_eq)
  then show ?thesis by (simp add: weight_sum)
qed

text \<open>\<open>x\<close> stands above \<open>y\<close> in a list: wherever \<open>y\<close> is listed, \<open>x\<close> is listed before it.\<close>

definition above :: "string \<Rightarrow> string \<Rightarrow> string list \<Rightarrow> bool" where
  "above x y l \<longleftrightarrow> (\<forall>j < length l. l ! j = y \<longrightarrow> (\<exists>i < j. l ! i = x))"

lemma above_member: "above x y l \<Longrightarrow> y \<in> set l \<Longrightarrow> x \<in> set l"
proof -
  assume a: "above x y l" and "y \<in> set l"
  then obtain j where "j < length l" "l ! j = y" by (auto simp: in_set_conv_nth)
  with a obtain i where "i < j" "l ! i = x" by (auto simp: above_def)
  with \<open>j < length l\<close> show "x \<in> set l" by (meson less_trans nth_mem)
qed

lemma weight_above:
  assumes "distinct l" and "above x y l"
  shows "weight 0 y l \<le> weight 0 x l" and "y \<in> set l \<Longrightarrow> weight 0 y l < weight 0 x l"
proof -
  show lt: "weight 0 y l < weight 0 x l" if "y \<in> set l"
  proof -
    from that obtain j where j: "j < length l" "l ! j = y" by (auto simp: in_set_conv_nth)
    with assms(2) obtain i where i: "i < j" "l ! i = x" by (auto simp: above_def)
    then show ?thesis
      using weight_single [OF assms(1), of i 0] weight_single [OF assms(1) j(1), of 0] j
      by (simp add: RRF_K_def frac_less2)
  qed
  show "weight 0 y l \<le> weight 0 x l"
    using lt weight_nonneg [of 0 x l] by (cases "y \<in> set l") (auto simp: weight_absent)
qed

lemma fused_score_above:
  assumes "list_all (\<lambda>l. distinct l \<and> above x y l) ls" and "y \<in> (\<Union>l \<in> set ls. set l)"
  shows "fused_score ls y < fused_score ls x"
  using assms
proof (induction ls)
  case (Cons l ls)
  have le: "(\<Sum>l \<leftarrow> ls. weight 0 y l) \<le> (\<Sum>l \<leftarrow> ls. weight 0 x l)"
    using Cons.prems(1) by (intro sum_list_mono) (auto simp: list_all_iff weight_above)
  show ?case
  proof (cases "y \<in> set l")
    case True
    then have "weight 0 y l < weight 0 x l" using Cons.prems(1) by (simp add: weight_above)
    with le show ?thesis by (simp add: fused_score_weight)
  next
    case False
    then have "fused_score ls y < fused_score ls x" using Cons by simp
    moreover have "weight 0 y l \<le> weight 0 x l" using Cons.prems(1) by (simp add: weight_above)
    ultimately show ?thesis by (simp add: fused_score_weight)
  qed
qed simp

text \<open>Fusion respects agreement: when every list that ranks \<open>y\<close> ranks \<open>x\<close> above it, the fused
  ranking puts \<open>x\<close> before \<open>y\<close>.\<close>

theorem fusion_respects_agreement:
  assumes "list_all (\<lambda>l. distinct l \<and> above x y l) ls" and "y \<in> (\<Union>l \<in> set ls. set l)"
  shows "\<exists>a b c. map fst (reciprocal_rank_fusion ls) = a @ [x] @ b @ [y] @ c"
proof -
  let ?out = "reciprocal_rank_fusion ls"
  note spec = rrf_facts [of ls]
  have lt: "fused_score ls y < fused_score ls x" by (rule fused_score_above [OF assms])
  from assms obtain l where l: "l \<in> set ls" "y \<in> set l" "above x y l" by (auto simp: list_all_iff)
  then have "x \<in> set l" using above_member by blast
  with l have "x \<in> set (map fst ?out)" and "y \<in> set (map fst ?out)" unfolding spec(2) by blast+
  then obtain i j where ij: "i < length ?out" "fst (?out ! i) = x" "j < length ?out" "fst (?out ! j) = y"
    unfolding in_set_conv_nth by auto
  have "snd (?out ! i) = fused_score ls x" "snd (?out ! j) = fused_score ls y"
    using ij rrf_entry by (metis nth_mem prod.collapse)+
  with lt have "\<not> j \<le> i"
    using sorted_nth_mono [OF spec(3), of j i] ij by auto
  then have "i < j" by simp
  then have "map fst ?out = take i (map fst ?out) @ [map fst ?out ! i]
      @ take (j - Suc i) (drop (Suc i) (map fst ?out)) @ [map fst ?out ! j] @ drop (Suc j) (map fst ?out)"
    using ij(3) by (intro split_at_two) simp_all
  moreover have "map fst ?out ! i = x" and "map fst ?out ! j = y" using ij by simp_all
  ultimately have "map fst ?out = take i (map fst ?out) @ [x]
      @ take (j - Suc i) (drop (Suc i) (map fst ?out)) @ [y] @ drop (Suc j) (map fst ?out)" by metis
  then show ?thesis by blast
qed

theorem fusion_respects_agreement_witness:
  "\<exists>a b c. map fst (reciprocal_rank_fusion [[''x'', ''y'', ''z''], [''z'', ''x'']]) = a @ [''x''] @ b @ [''y''] @ c"
  by (rule fusion_respects_agreement)
    (auto simp: above_def less_Suc_eq)

subsection \<open>What a search returns\<close>

lemma rows_to_map_SomeD: "rows_to_map rs c = Some a \<Longrightarrow> a \<in> set rs \<and> chunk_id (fst a) = c"
  by (auto simp: rows_to_map_def dest!: map_of_SomeD)

lemma rows_to_map_None: "rows_to_map rs c = None \<longleftrightarrow> c \<notin> set (map (chunk_id \<circ> fst) rs)"
  by (simp add: rows_to_map_def map_of_eq_None_iff image_image)

definition hit_from :: "arm_row list \<Rightarrow> string \<times> real \<Rightarrow> hit \<Rightarrow> bool" where
  "hit_from rs cs h \<longleftrightarrow> (\<exists>a \<in> set rs. chunk_id (fst a) = fst cs \<and> h = hit_of a (snd cs))"

lemma build_hits_total:
  "fst ` set fused \<subseteq> set (map (chunk_id \<circ> fst) (vs @ ks)) \<Longrightarrow>
     \<exists>hs. build_hits (rows_to_map vs) (rows_to_map ks) fused = Inr hs \<and> list_all2 (hit_from (vs @ ks)) fused hs"
proof (induction fused)
  case (Cons cs fused)
  obtain c s where cs: "cs = (c, s)" by (cases cs)
  from Cons obtain hs where hs: "build_hits (rows_to_map vs) (rows_to_map ks) fused = Inr hs"
    "list_all2 (hit_from (vs @ ks)) fused hs" by auto
  show ?case
  proof (cases "rows_to_map vs c")
    case None
    with Cons.prems cs have "rows_to_map ks c \<noteq> None"
      by (auto simp: rows_to_map_None)
    then obtain a where a: "rows_to_map ks c = Some a" by blast
    from rows_to_map_SomeD [OF a] have "hit_from (vs @ ks) (c, s) (hit_of a s)" by (auto simp: hit_from_def)
    with None a hs cs show ?thesis by simp
  next
    case (Some a)
    from rows_to_map_SomeD [OF Some] have "hit_from (vs @ ks) (c, s) (hit_of a s)" by (auto simp: hit_from_def)
    with Some hs cs show ?thesis by simp
  qed
qed simp

lemma h_chunk_hit_of [simp]: "h_chunk (hit_of a s) = chunk_id (fst a)"
  by (simp add: hit_of_def Let_def)

lemma hit_from_chunks: "list_all2 (hit_from rs) fused hs \<Longrightarrow> map h_chunk hs = map fst fused"
  by (induction rule: list_all2_induct) (auto simp: hit_from_def)

lemma hit_from_row: "list_all2 (hit_from rs) fused hs \<Longrightarrow> h \<in> set hs \<Longrightarrow> \<exists>a \<in> set rs. \<exists>s. h = hit_of a s"
  by (induction rule: list_all2_induct) (auto simp: hit_from_def)

lemma fuse_arms_hits:
  obtains hs where "fuse_arms vs ks = Inr hs" "distinct (map h_chunk hs)"
    "\<And>h. h \<in> set hs \<Longrightarrow> \<exists>a \<in> set (vs @ ks). \<exists>s. h = hit_of a s"
proof -
  let ?ids = "[map (chunk_id \<circ> fst) vs, map (chunk_id \<circ> fst) ks]"
  note spec = rrf_facts [of ?ids]
  have "fst ` set (reciprocal_rank_fusion ?ids) \<subseteq> set (map (chunk_id \<circ> fst) (vs @ ks))"
    using spec(2) by auto
  from build_hits_total [OF this] obtain hs where
    "build_hits (rows_to_map vs) (rows_to_map ks) (reciprocal_rank_fusion ?ids) = Inr hs"
    and l: "list_all2 (hit_from (vs @ ks)) (reciprocal_rank_fusion ?ids) hs" by blast
  then have "fuse_arms vs ks = Inr hs" by (simp add: fuse_arms_def)
  then show thesis
    using that hit_from_chunks [OF l] hit_from_row [OF l] spec(1) by metis
qed

lemma vector_arm_rows: "a \<in> set (vector_arm eng q c p d) \<Longrightarrow> fst a \<in> set (vector_records d) \<and> p (fst a)"
  by (auto simp: vector_arm_def by_chunk_def arm_row_of_def dest!: in_set_takeD)

lemma keyword_arm_rows: "a \<in> set (keyword_arm eng q c t p d) \<Longrightarrow> fst a \<in> set (vector_records d) \<and> p (fst a)"
  by (auto simp: keyword_arm_def by_chunk_def arm_row_of_def dest!: in_set_takeD)

lemma top_hits_props:
  "length (top_hits k hs) \<le> k" "set (top_hits k hs) \<subseteq> set hs"
  "distinct (map h_chunk hs) \<Longrightarrow> distinct (map h_chunk (top_hits k hs))"
  by (auto simp: top_hits_def distinct_map dest!: in_set_takeD intro: inj_on_subset set_take_subset)

lemma get_centroid_frame [simp]:
  "db (snd (get_centroid m w)) = db w" "clock (snd (get_centroid m w)) = clock w"
  "env (snd (get_centroid m w)) = env w" "counters (snd (get_centroid m w)) = counters w"
  by (auto simp: get_centroid_def Let_def split: option.split)

text \<open>Every outcome of a search: a failure of the embedding call, or the fused hits.\<close>

definition row_hit :: "vector_row \<Rightarrow> hit \<Rightarrow> bool" where
  "row_hit r h \<longleftrightarrow> h_chunk h = chunk_id r \<and> event_id h = v_event r \<and> ts h = v_ts r
     \<and> body_text h = v_text r \<and> h_service h = v_service r \<and> source h = v_source r"

lemma row_hit_of: "row_hit (fst a) (hit_of a s)"
  by (simp add: row_hit_def hit_of_def Let_def)

definition sound_hits ::
  "nat \<Rightarrow> string option \<Rightarrow> time option \<Rightarrow> string option \<Rightarrow> database \<Rightarrow> hit list \<Rightarrow> bool" where
  "sound_hits k service since ex d hs \<longleftrightarrow> length hs \<le> k \<and> distinct (map h_chunk hs)
     \<and> (\<forall>h \<in> set hs. \<exists>r \<in> set (vector_records d). where_clause service since ex r \<and> row_hit r h)"

lemma hybrid_search_cases:
  obtains (raised) e w1 where "hybrid_search eng emb q k service since flr ex w = (Inl e, w1)"
      "db w1 = db w" "clock w \<le> clock w1"
      "\<nexists>v. fst (encode_query emb [q] (env w)) = Inr [v]"
  | (found) hs w1 where
      "hybrid_search eng emb q k service since flr ex w =
         (Inr \<lparr>hits = hs, abstained = abstains service since (emb_floor_centered emb)
            (case flr of None \<Rightarrow> default_min_similarity emb | Some x \<Rightarrow> x) hs\<rparr>, w1)"
      "db w1 = db w" "clock w \<le> clock w1" "sound_hits k service since ex (db w) hs"
proof -
  obtain c w1 where c: "(if emb_floor_centered emb \<noteq> None
      then get_centroid (case emb_name emb of None \<Rightarrow> [] | Some n \<Rightarrow> n) w else (None, w)) = (c, w1)"
    by fastforce
  then have w1: "db w1 = db w" "clock w1 = clock w" "env w1 = env w"
    by (metis get_centroid_frame snd_conv)+
  obtain r w2 where s: "call_service (encode_query emb) [q] w1 = (r, w2)" by fastforce
  then have w2: "db w2 = db w" "clock w \<le> clock w2" and r: "r = fst (encode_query emb [q] (env w))"
    using call_serviceD [OF s] w1 by (auto simp: call_service_def split: prod.splits)
  show thesis
  proof (cases "\<exists>v. r = Inr [v]")
    case False
    then have "\<exists>e. hybrid_search eng emb q k service since flr ex w = (Inl e, w2)"
      using c s by (auto simp: hybrid_search_def split: sum.split list.split)
    then obtain e where "hybrid_search eng emb q k service since flr ex w = (Inl e, w2)" ..
    with False show thesis using w2 r by (auto intro: raised)
  next
    case True
    then obtain v where v: "r = Inr [v]" by blast
    let ?p = "where_clause service since ex"
    obtain hs where hs: "fuse_arms (vector_arm eng v c ?p (db w)) (keyword_arm eng v c q ?p (db w)) = Inr hs"
      "distinct (map h_chunk hs)"
      "\<And>h. h \<in> set hs \<Longrightarrow> \<exists>a \<in> set (vector_arm eng v c ?p (db w) @ keyword_arm eng v c q ?p (db w)). \<exists>s. h = hit_of a s"
      using fuse_arms_hits by blast
    have "\<exists>r \<in> set (vector_records (db w)). ?p r \<and> row_hit r h" if "h \<in> set hs" for h
      using hs(3) [OF that] row_hit_of by (auto dest!: vector_arm_rows keyword_arm_rows)
    then have "sound_hits k service since ex (db w) (top_hits k hs)"
      using top_hits_props(1,2) [of k hs] top_hits_props(3) [OF hs(2)] by (auto simp: sound_hits_def)
    then show thesis
      using c s v hs(1) w2
      by (intro found [of "top_hits k hs" "if abstains service since (emb_floor_centered emb)
           (case flr of None \<Rightarrow> default_min_similarity emb | Some x \<Rightarrow> x) (top_hits k hs)
         then inc_counter ''abstentions'' w2 else w2"])
        (simp_all add: hybrid_search_def Let_def)
  qed
qed

lemma hybrid_search_frame:
  "hybrid_search eng emb q k service since flr ex w = (r, w1) \<Longrightarrow> db w1 = db w \<and> clock w \<le> clock w1"
  by (cases rule: hybrid_search_cases [of eng emb q k service since flr ex w]) auto

lemma hybrid_search_total:
  assumes "fst (encode_query emb [q] (env w)) = Inr [v]"
  shows "\<exists>res w1. hybrid_search eng emb q k service since flr ex w = (Inr res, w1)"
  by (cases rule: hybrid_search_cases [of eng emb q k service since flr ex w]) (use assms in auto)

text \<open>C33. The search never fails by itself: once the embedding model has returned the query's one
  vector, the lookup of a fused id cannot miss and the search returns at most \<open>k\<close> hits, no chunk
  twice, each carrying the fields of a stored record that passes the service, time and exclusion
  filters; with a service or time filter it abstains exactly when nothing was found.\<close>

theorem search_returns_filtered_records:
  assumes "fst (encode_query emb [q] (env w)) = Inr [v]"
  shows "\<exists>res w1. hybrid_search eng emb q k service since flr ex w = (Inr res, w1)
    \<and> db w1 = db w \<and> sound_hits k service since ex (db w) (hits res)
    \<and> (service \<noteq> None \<or> since \<noteq> None \<longrightarrow> abstained res = (hits res = []))"
  by (cases rule: hybrid_search_cases [of eng emb q k service since flr ex w])
    (use assms in \<open>auto simp: abstains_def\<close>)

definition toy_engine :: search_engine where
  "toy_engine = \<lparr>vec_distance = (\<lambda>a b. \<bar>hd a - hd b\<bar>), vec_minus = map2 (-), vec_mean = hd,
     websearch_tsquery = (\<lambda>q. q), ts_matches = (\<lambda>t q. contains q t), ts_rank_cd = (\<lambda>t q. 1 / real (length t)),
     collation = (\<lambda>c. 0)\<rparr>"

definition toy_embedder :: "'e embedder" where
  "toy_embedder = \<lparr>emb_name = None, emb_floor = Some (1 / 2), emb_floor_centered = None,
     encode_texts = (\<lambda>ts e. (Inr (map (\<lambda>t. [real (length t)]) ts), 0, e)),
     encode_query = (\<lambda>ts e. (Inr (map (\<lambda>t. [real (length t)]) ts), 0, e))\<rparr>"

theorem search_returns_filtered_records_witness:
  "\<exists>res w1. hybrid_search toy_engine toy_embedder ''db'' 5 (Some ''api'') None None None
       (start_world empty_database 0 ())
     = (Inr res, w1) \<and> abstained res = (hits res = [])"
  using search_returns_filtered_records [of toy_embedder "''db''"
      "(start_world empty_database 0 ())"
      "[2]" toy_engine 5 "Some ''api''" None None None]
  by (auto simp: toy_embedder_def)

text \<open>Abstention without a filter: a search that does not abstain has a hit that clears the floor it
  was judged by (the centered floor when the index has a centroid, the raw one otherwise), and one
  that abstains has none.\<close>

theorem abstention_is_about_the_best_hit:
  "abstains None None centered_floor flr topk \<longleftrightarrow>
     (case centered_floor of
        Some f \<Rightarrow> if filter (\<lambda>h. centered_similarity h \<noteq> None) topk \<noteq> []
                  then filter (\<lambda>h. \<exists>s. centered_similarity h = Some s \<and> f \<le> s) topk = []
                  else filter (\<lambda>h. flr \<le> similarity h) topk = []
      | None \<Rightarrow> filter (\<lambda>h. flr \<le> similarity h) topk = [])"
proof -
  have raw: "should_abstain (map f hs) x \<longleftrightarrow> filter (\<lambda>h. x \<le> f h) hs = []" for f :: "hit \<Rightarrow> real" and hs x
    by (cases "hs = []") (simp_all add: should_abstain_def filter_empty_conv not_le Max_less_iff)
  have "filter (\<lambda>h. f \<le> the (centered_similarity h)) (filter (\<lambda>h. centered_similarity h \<noteq> None) topk) = []
      \<longleftrightarrow> filter (\<lambda>h. \<exists>s. centered_similarity h = Some s \<and> f \<le> s) topk = []" for f
    by (auto simp: filter_empty_conv)
  with raw [of "the \<circ> centered_similarity" "filter (\<lambda>h. centered_similarity h \<noteq> None) topk"] show ?thesis
    by (simp add: abstains_def Let_def raw split: option.split)
qed

end
