(* ===== verification/Recurrence.thy ===== *)
theory Recurrence
  imports Retrieval
begin

section \<open>Recurrence (\<^verbatim>\<open>freshet/autopilot/recurrence.py\<close>)\<close>

text \<open>
  Has this happened before: a service-filtered search by the incident's earliest text, reduced to
  the best hit per earlier incident. The theorem states what a reported precedent is: another
  incident of the same service, strictly earlier, above the floor, no maintenance notice, and at
  most \<open>MAX_RECURRENCES\<close> of them, no incident twice.
\<close>

definition MAINTENANCE_MARKERS :: "string list" where
  "MAINTENANCE_MARKERS = [''scheduled maintenance'', ''will be performing'', ''planned maintenance'',
     ''maintenance window'', ''maintenance is scheduled'']"

definition is_maintenance :: "string \<Rightarrow> bool" where
  "is_maintenance text = list_ex (\<lambda>m. contains m (lower text)) MAINTENANCE_MARKERS"

definition MAX_RECURRENCES :: nat where
  "MAX_RECURRENCES = 3"

definition CANDIDATE_K :: nat where
  "CANDIDATE_K = 25"

record precedent =
  p_incident :: string
  p_title :: string
  p_ts :: time
  p_event :: string
  p_similarity :: real

text \<open>\<^verbatim>\<open>_incident_of\<close>: the incident and title of each event, a later row overriding.\<close>

definition incident_of :: "database \<Rightarrow> string list \<Rightarrow> string \<Rightarrow> (string \<times> string) option" where
  "incident_of d event_ids =
     map_of (rev (map (\<lambda>r. (v_event r, (the (v_incident r), case v_title r of None \<Rightarrow> [] | Some t \<Rightarrow> t)))
       (filter (\<lambda>r. v_event r \<in> set event_ids \<and> truthy (v_incident r)) (vector_records d))))"

text \<open>The dictionary \<^verbatim>\<open>best\<close>, in insertion order.\<close>

fun keep_best :: "precedent \<Rightarrow> precedent list \<Rightarrow> precedent list" where
  "keep_best p [] = [p]"
| "keep_best p (q # qs) =
     (if p_incident q = p_incident p
      then (if p_similarity q < p_similarity p then p else q) # qs
      else q # keep_best p qs)"

definition precedent_of ::
  "string \<Rightarrow> time option \<Rightarrow> (string \<Rightarrow> (string \<times> string) option) \<Rightarrow> hit \<Rightarrow> precedent option" where
  "precedent_of incident_id before mapping h =
     (case mapping (event_id h) of
        None \<Rightarrow> None
      | Some (other_id, title) \<Rightarrow>
          if other_id = incident_id then None
          else if (case before of None \<Rightarrow> False | Some b \<Rightarrow> b \<le> ts h) then None
          else if is_maintenance (body_text h) then None
          else Some \<lparr>p_incident = other_id, p_title = title, p_ts = ts h, p_event = event_id h,
                     p_similarity = similarity h\<rparr>)"

fun best_precedents ::
  "string \<Rightarrow> time option \<Rightarrow> (string \<Rightarrow> (string \<times> string) option) \<Rightarrow> hit list \<Rightarrow> precedent list \<Rightarrow> precedent list" where
  "best_precedents incident_id before mapping [] best = best"
| "best_precedents incident_id before mapping (h # hs) best =
     best_precedents incident_id before mapping hs
       (case precedent_of incident_id before mapping h of None \<Rightarrow> best | Some p \<Rightarrow> keep_best p best)"

definition recurrence_floor :: "'e embedder \<Rightarrow> real" where
  "recurrence_floor emb = (case emb_floor emb of None \<Rightarrow> 7 / 10 | Some x \<Rightarrow> x)"

definition find_recurrences ::
  "search_engine \<Rightarrow> 'e embedder \<Rightarrow> string \<Rightarrow> string \<Rightarrow> string \<Rightarrow> time option \<Rightarrow> nat
    \<Rightarrow> ('e world, precedent list) call" where
  "find_recurrences eng emb service incident_id query_text before limit w =
     (if strip query_text = [] \<or> is_maintenance query_text then (Inr [], w)
      else case hybrid_search eng emb query_text CANDIDATE_K (Some service) None None None w of
             (Inl e, w1) \<Rightarrow> (Inl e, w1)
           | (Inr result, w1) \<Rightarrow>
               let hs = filter (\<lambda>h. recurrence_floor emb \<le> similarity h) (hits result);
                   mapping = incident_of (db w1) (map event_id hs);
                   best = best_precedents incident_id before mapping hs []
               in (Inr (take limit (sort_key (\<lambda>p. - p_similarity p) best)), w1))"

text \<open>\<^verbatim>\<open>max(matches, key=..)\<close> is the first of the latest.\<close>

fun newest_of :: "precedent \<Rightarrow> precedent list \<Rightarrow> precedent" where
  "newest_of p [] = p"
| "newest_of p (q # qs) = newest_of (if p_ts p < p_ts q then q else p) qs"

definition recurrence_line :: "precedent list \<Rightarrow> string option" where
  "recurrence_line ps =
     (case ps of
        [] \<Rightarrow> None
      | p # qs \<Rightarrow>
          let newest = newest_of p qs;
              times = show_int (int (length ps)) @ '' similar prior incident'' @ (if 1 < length ps then ''s'' else [])
          in Some (''Recurrence: '' @ times @ '', most recent '' @ fmt_date (p_ts newest) @ '' '' @ em_dash @ '' ''
               @ take 70 (p_title newest) @ '' ['' @ p_event newest @ '' @ '' @ fmt_stamp (p_ts newest) @ '']''))"

subsection \<open>What counts as a precedent\<close>

lemma keep_best_keys: "p_incident ` set (keep_best p ps) = insert (p_incident p) (p_incident ` set ps)"
  by (induction p ps rule: keep_best.induct) auto

lemma keep_best_distinct: "distinct (map p_incident ps) \<Longrightarrow> distinct (map p_incident (keep_best p ps))"
proof (induction p ps rule: keep_best.induct)
  case (2 p q qs)
  then show ?case using keep_best_keys [of p qs] by auto
qed simp

lemma keep_best_set: "set (keep_best p ps) \<subseteq> insert p (set ps)"
  by (induction p ps rule: keep_best.induct) auto

lemma best_precedents_distinct:
  "distinct (map p_incident best) \<Longrightarrow> distinct (map p_incident (best_precedents i before m hs best))"
  by (induction i before m hs best rule: best_precedents.induct) (simp add: keep_best_distinct split: option.split)+

lemma best_precedents_from:
  "p \<in> set (best_precedents i before m hs best) \<Longrightarrow> p \<in> set best \<or> (\<exists>h \<in> set hs. precedent_of i before m h = Some p)"
  by (induction i before m hs best rule: best_precedents.induct)
    (use keep_best_set in \<open>fastforce split: option.splits\<close>)+

lemma precedent_of_SomeD:
  "precedent_of i before m h = Some p \<Longrightarrow>
     p_incident p \<noteq> i \<and> m (p_event p) = Some (p_incident p, p_title p) \<and> p_event p = event_id h \<and> p_ts p = ts h
     \<and> p_similarity p = similarity h \<and> \<not> is_maintenance (body_text h)
     \<and> (case before of None \<Rightarrow> True | Some b \<Rightarrow> ts h < b)"
  by (auto simp: precedent_of_def split: option.splits prod.splits if_splits)

lemma incident_of_SomeD:
  "incident_of d es e = Some (i, t) \<Longrightarrow> \<exists>r \<in> set (vector_records d). v_event r = e \<and> v_incident r = Some i"
  by (fastforce simp: incident_of_def truthy_def dest!: map_of_SomeD split: option.splits)

text \<open>A precedent reported for an incident of a service.\<close>

definition genuine_precedent :: "'e embedder \<Rightarrow> string \<Rightarrow> string \<Rightarrow> time option \<Rightarrow> database \<Rightarrow> precedent \<Rightarrow> bool" where
  "genuine_precedent emb service i before d p \<longleftrightarrow> p_incident p \<noteq> i
     \<and> (case before of None \<Rightarrow> True | Some b \<Rightarrow> p_ts p < b)
     \<and> recurrence_floor emb \<le> p_similarity p
     \<and> (\<exists>r \<in> set (vector_records d). v_event r = p_event p \<and> v_incident r = Some (p_incident p))
     \<and> (\<exists>r \<in> set (vector_records d). v_event r = p_event p \<and> v_service r = service \<and> v_ts r = p_ts p
          \<and> \<not> is_maintenance (v_text r))"

text \<open>What the recurrence line may claim: at most \<open>limit\<close> precedents, no incident twice, each one an
  incident other than this one whose quoted event is stored, belongs to it, is of the same service,
  is not a maintenance notice, clears the embedder's floor and predates this incident.\<close>

theorem recurrences_are_precedents:
  assumes "find_recurrences eng emb service i query before limit w = (Inr ps, w1)"
  shows "length ps \<le> limit \<and> distinct (map p_incident ps) \<and> list_all (genuine_precedent emb service i before (db w)) ps"
proof (cases rule: hybrid_search_cases [of eng emb query CANDIDATE_K "Some service" None None None w])
  case (raised e w')
  with assms show ?thesis by (auto simp: find_recurrences_def split: if_splits)
next
  case (found hs w')
  let ?hs = "filter (\<lambda>h. recurrence_floor emb \<le> similarity h) hs"
  let ?m = "incident_of (db w) (map event_id ?hs)"
  let ?best = "best_precedents i before ?m ?hs []"
  have genuine: "genuine_precedent emb service i before (db w) p" if "p \<in> set ?best" for p
  proof -
    from best_precedents_from [OF that] obtain h where
      h: "h \<in> set hs" "recurrence_floor emb \<le> similarity h" "precedent_of i before ?m h = Some p" by auto
    note p = precedent_of_SomeD [OF h(3)]
    from found(4) h(1) obtain r where "r \<in> set (vector_records (db w))"
      "where_clause (Some service) None None r" "row_hit r h" by (auto simp: sound_hits_def)
    then have "r \<in> set (vector_records (db w)) \<and> v_event r = p_event p \<and> v_service r = service
        \<and> v_ts r = p_ts p \<and> \<not> is_maintenance (v_text r)"
      using p by (simp add: where_clause_def row_hit_def)
    moreover from p incident_of_SomeD have
      "\<exists>r \<in> set (vector_records (db w)). v_event r = p_event p \<and> v_incident r = Some (p_incident p)" by blast
    ultimately show ?thesis using p h(2) by (auto simp: genuine_precedent_def split: option.splits)
  qed
  have "ps = [] \<or> ps = take limit (sort_key (\<lambda>p. - p_similarity p) ?best)"
    using assms found(1,2) by (auto simp: find_recurrences_def Let_def split: if_splits)
  moreover have "distinct (map p_incident (take limit (sort_key (\<lambda>p. - p_similarity p) ?best)))"
    using best_precedents_distinct [of "[]" i before ?m ?hs]
    by (auto simp: distinct_map take_map [symmetric] intro: inj_on_subset dest: in_set_takeD)
  ultimately show ?thesis
    using genuine by (auto simp: list_all_iff dest!: in_set_takeD)
qed

definition past_outage :: database where
  "past_outage = empty_database\<lparr>vector_records :=
     [\<lparr>chunk_id = ''c'', chunk_index = 0, v_event = ''e'', v_incident = Some ''old'', v_service = ''api'',
       v_ts = 5, v_indexed_at = 6, v_source = ''alert'', v_text = ''errors'', v_title = Some ''Errors'',
       v_severity = None, v_type = [], v_embedding = [6], v_model = None\<rparr>]\<rparr>"

theorem recurrences_are_precedents_witness:
  "\<exists>ps w1. find_recurrences toy_engine toy_embedder ''api'' ''new'' ''errors'' (Some 9) 3
       (start_world past_outage 0 ()) = (Inr ps, w1)
     \<and> length ps \<le> 3 \<and> distinct (map p_incident ps)"
proof -
  let ?run = "find_recurrences toy_engine toy_embedder ''api'' ''new'' ''errors'' (Some 9) 3 (start_world past_outage 0 ())"
  have "\<exists>ps w1. ?run = (Inr ps, w1)"
    using hybrid_search_total [of toy_embedder "''errors''" "start_world past_outage 0 ()" "[6]"
        toy_engine CANDIDATE_K "Some ''api''" None None None]
    by (auto simp: find_recurrences_def toy_embedder_def Let_def)
  then obtain ps w1 where "?run = (Inr ps, w1)" by blast
  with recurrences_are_precedents [OF this] show ?thesis by blast
qed

end
