(* ===== verification/Interfaces.thy ===== *)
theory Interfaces
  imports Database
begin

section \<open>Interfaces between components\<close>

text \<open>
  The contracts several components share, as locales whose laws the providers prove:

  \<^item> \<open>throttle\<close>: a clock-guarded action (heartbeat writes, idle drains, housekeeping, thread polls);
  \<^item> \<open>lease_slot\<close>: a delivery slot of an incident row claimed under a lease (brief, progress
    update, postmortem), with the protocol several workers run over it;
  \<^item> \<open>narrator\<close>: a composer of texts, which may raise, take time and spend budget, and nothing else;
  \<^item> \<open>messenger\<close>: a sink of findings, which may raise and take time but never touches the database.
\<close>

subsection \<open>Throttles\<close>

text \<open>Readings of the clock come in pairs: one for the guard, a later one to re-arm it.\<close>

fun fires :: "('s \<Rightarrow> real \<Rightarrow> bool) \<Rightarrow> ('s \<Rightarrow> real \<Rightarrow> 's) \<Rightarrow> 's \<Rightarrow> (real \<times> real) list \<Rightarrow> real list" where
  "fires due arm s [] = []"
| "fires due arm s ((t, t') # rs) =
     (if due s t then t' # fires due arm (arm s t') rs else fires due arm s rs)"

locale throttle =
  fixes due :: "'s \<Rightarrow> real \<Rightarrow> bool"
    and arm :: "'s \<Rightarrow> real \<Rightarrow> 's"
    and period :: "'s \<Rightarrow> real"
  assumes due_arm: "due (arm s t0) t \<longleftrightarrow> t0 + period s \<le> t"
    and period_arm: "period (arm s t0) = period s"
begin

lemma fires_after:
  "\<forall>(t, t') \<in> set rs. t \<le> t' \<Longrightarrow> 0 \<le> period s \<Longrightarrow>
     \<forall>f \<in> set (fires due arm (arm s t0) rs). t0 + period s \<le> f"
proof (induction rs arbitrary: s t0)
  case (Cons r rs)
  obtain t t' where r: "r = (t, t')" by (cases r)
  show ?case
  proof (cases "due (arm s t0) t")
    case True
    then have "t0 + period s \<le> t'" using Cons.prems r by (auto simp: due_arm)
    moreover have "\<forall>f \<in> set (fires due arm (arm (arm s t0) t') rs). t' + period (arm s t0) \<le> f"
      using Cons.IH [of "arm s t0" t'] Cons.prems by (simp add: period_arm)
    ultimately show ?thesis using True r Cons.prems(2) by (force simp: period_arm)
  next
    case False
    with Cons r show ?thesis by simp
  qed
qed simp

lemma fires_spaced:
  "\<forall>(t, t') \<in> set rs. t \<le> t' \<Longrightarrow> 0 \<le> period s \<Longrightarrow>
     sorted_wrt (\<lambda>a b. a + period s \<le> b) (fires due arm s rs)"
proof (induction rs arbitrary: s)
  case (Cons r rs)
  obtain t t' where r: "r = (t, t')" by (cases r)
  have "sorted_wrt (\<lambda>a b. a + period s \<le> b) (fires due arm (arm s t') rs)"
    using Cons.IH [of "arm s t'"] Cons.prems by (simp add: period_arm)
  with fires_after [of rs s t'] Cons r show ?case by auto
qed simp

end

text \<open>The state every throttle of the program has: an interval and the reading after which it fires.\<close>

record clock_throttle =
  th_interval :: real
  th_next :: real

definition new_throttle :: "real \<Rightarrow> clock_throttle" where
  "new_throttle interval = \<lparr>th_interval = interval, th_next = - 1000000000\<rparr>"

definition throttle_due :: "clock_throttle \<Rightarrow> real \<Rightarrow> bool" where
  "throttle_due s t \<longleftrightarrow> \<not> t < th_next s"

definition throttle_arm :: "clock_throttle \<Rightarrow> real \<Rightarrow> clock_throttle" where
  "throttle_arm s t = s\<lparr>th_next := t + th_interval s\<rparr>"

interpretation clock: throttle throttle_due throttle_arm th_interval
  by unfold_locales (auto simp: throttle_due_def throttle_arm_def)

subsection \<open>Leases\<close>

text \<open>A slot is free when nothing holds it or the holder's lease has run out.\<close>

definition LEASE_MINUTES :: int where
  "LEASE_MINUTES = 15"

definition lease_free :: "time \<Rightarrow> time option \<Rightarrow> bool" where
  "lease_free now since \<longleftrightarrow> (case since of None \<Rightarrow> True | Some t \<Rightarrow> t < now - minutes LEASE_MINUTES)"

lemma lease_free_None [simp]: "lease_free now None"
  by (simp add: lease_free_def)

lemma lease_held: "now \<le> t + minutes LEASE_MINUTES \<Longrightarrow> \<not> lease_free now (Some t)"
  by (simp add: lease_free_def)

locale lease_slot =
  fixes claim :: "time \<Rightarrow> string \<Rightarrow> incident list \<Rightarrow> bool \<times> incident list"
    and release :: "string \<Rightarrow> incident list \<Rightarrow> incident list"
    and mark :: "time \<Rightarrow> string \<Rightarrow> incident list \<Rightarrow> incident list"
    and held :: "incident \<Rightarrow> time option"
    and delivered :: "incident \<Rightarrow> time option"
    and ready :: "incident \<Rightarrow> bool"
  assumes claim_iff: "keyed inc_id t \<Longrightarrow> fst (claim now i t) \<longleftrightarrow>
      (\<exists>r. row_of inc_id i t = Some r \<and> delivered r = None \<and> ready r \<and> lease_free now (held r))"
    and claim_other: "j \<noteq> i \<Longrightarrow> row_of inc_id j (snd (claim now i t)) = row_of inc_id j t"
    and claim_row: "fst (claim now i t) \<Longrightarrow> keyed inc_id t \<Longrightarrow> row_of inc_id i t = Some r \<Longrightarrow>
      \<exists>r'. row_of inc_id i (snd (claim now i t)) = Some r' \<and> held r' = Some now
        \<and> delivered r' = delivered r \<and> ready r' = ready r"
    and claim_keyed: "keyed inc_id t \<Longrightarrow> keyed inc_id (snd (claim now i t))"
    and release_other: "j \<noteq> i \<Longrightarrow> row_of inc_id j (release i t) = row_of inc_id j t"
    and release_row: "row_of inc_id i t = Some r \<Longrightarrow>
      \<exists>r'. row_of inc_id i (release i t) = Some r' \<and> held r' = None
        \<and> delivered r' = delivered r \<and> ready r' = ready r"
    and release_keyed: "keyed inc_id t \<Longrightarrow> keyed inc_id (release i t)"
    and mark_other: "j \<noteq> i \<Longrightarrow> row_of inc_id j (mark now i t) = row_of inc_id j t"
    and mark_row: "row_of inc_id i t = Some r \<Longrightarrow>
      \<exists>r'. row_of inc_id i (mark now i t) = Some r' \<and> held r' = held r \<and> delivered r' = Some now"
    and mark_keyed: "keyed inc_id t \<Longrightarrow> keyed inc_id (mark now i t)"
begin

lemma claim_obtains:
  assumes "fst (claim now i t)" and "keyed inc_id t"
  obtains r where "row_of inc_id i t = Some r" "delivered r = None" "ready r" "lease_free now (held r)"
  using assms claim_iff by blast

lemma no_second_claim:
  assumes "fst (claim now i t)" and "keyed inc_id t" and "now' \<le> now + minutes LEASE_MINUTES"
  shows "\<not> fst (claim now' i (snd (claim now i t)))"
proof
  assume second: "fst (claim now' i (snd (claim now i t)))"
  from claim_obtains [OF assms(1,2)] obtain r where r: "row_of inc_id i t = Some r" .
  from claim_row [OF assms(1,2) r] obtain r' where
    "row_of inc_id i (snd (claim now i t)) = Some r'" and "held r' = Some now" by blast
  with claim_obtains [OF second claim_keyed [OF assms(2)]] lease_held [OF assms(3)]
  show False by (metis option.inject)
qed

lemma claim_after_expiry:
  assumes "fst (claim now i t)" and "keyed inc_id t" and "now + minutes LEASE_MINUTES < now'"
  shows "fst (claim now' i (snd (claim now i t)))"
proof -
  from claim_obtains [OF assms(1,2)] obtain r where
    r: "row_of inc_id i t = Some r" "delivered r = None" "ready r" by metis
  from claim_row [OF assms(1,2) r(1)] obtain r' where
    "row_of inc_id i (snd (claim now i t)) = Some r'" "held r' = Some now"
    "delivered r' = delivered r" "ready r' = ready r" by blast
  with r assms(3) claim_keyed [OF assms(2)] show ?thesis
    by (simp add: claim_iff lease_free_def)
qed

lemma claim_after_release:
  assumes "keyed inc_id t" and "row_of inc_id i t = Some r" and "delivered r = None" and "ready r"
  shows "fst (claim now i (release i t))"
  using release_row [OF assms(2)] release_keyed [OF assms(1)] assms(3,4) by (auto simp: claim_iff)

lemma no_claim_after_mark:
  assumes "keyed inc_id t" and "row_of inc_id i t = Some r"
  shows "\<not> fst (claim now' i (mark now i t))"
  using mark_row [OF assms(2), of now] mark_keyed [OF assms(1), of now i] by (auto simp: claim_iff)

end

subsection \<open>Composers and sinks\<close>

text \<open>The only table a composer writes is the budget.\<close>

definition same_but_budget :: "database \<Rightarrow> database \<Rightarrow> bool" where
  "same_but_budget d d' \<longleftrightarrow> incidents d' = incidents d \<and> vector_records d' = vector_records d
     \<and> incident_services d' = incident_services d \<and> incident_events d' = incident_events d
     \<and> event_indexing d' = event_indexing d \<and> heartbeats d' = heartbeats d
     \<and> heartbeat_log d' = heartbeat_log d \<and> index_stats d' = index_stats d"

lemma same_but_budget_refl [simp, intro]: "same_but_budget d d"
  by (simp add: same_but_budget_def)

lemma same_but_budget_trans [trans]: "same_but_budget d e \<Longrightarrow> same_but_budget e f \<Longrightarrow> same_but_budget d f"
  by (simp add: same_but_budget_def)

lemma same_but_budget_spent [simp]: "same_but_budget d (d\<lparr>llm_budget := t\<rparr>)"
  by (simp add: same_but_budget_def)

lemma same_but_budget_incidents: "same_but_budget d d' \<Longrightarrow> incidents d' = incidents d"
  by (simp add: same_but_budget_def)

locale narrator =
  fixes compose :: "string \<Rightarrow> 'q \<Rightarrow> ('e world, string) call"
  assumes compose_db: "same_but_budget (db w) (db (snd (compose q x w)))"
    and compose_clock: "clock w \<le> clock (snd (compose q x w))"
begin

lemma composeD:
  "compose q x w = (r, w') \<Longrightarrow> same_but_budget (db w) (db w') \<and> clock w \<le> clock w'"
  using compose_db [of w q x] compose_clock [of w q x] by simp

end

locale messenger =
  fixes post :: "'f \<Rightarrow> string option \<Rightarrow> ('e world, string option) call"
  assumes post_db: "db (snd (post f thread w)) = db w"
    and post_clock: "clock w \<le> clock (snd (post f thread w))"
begin

lemma postD: "post f thread w = (r, w') \<Longrightarrow> db w' = db w \<and> clock w \<le> clock w'"
  using post_db [of f thread w] post_clock [of w f thread] by simp

end

end
