(* ===== verification/Budget.thy ===== *)
theory Budget
  imports Composer Interfaces
begin

section \<open>The model-call budget (\<^verbatim>\<open>freshet/rag/budget.py\<close>)\<close>

text \<open>
  One counter row per hour in \<^verbatim>\<open>llm_budget\<close>. \<open>spend\<close> is \<^verbatim>\<open>BudgetedComposer._spend\<close>: the disabled
  test, the day's sum, then the guarded upsert of the hour's row; \<open>budgeted_compose\<close> spends
  before it calls the wrapped composer, so a call that fails still counts and a refused call
  does not. The lemmas bound the hour's counter and, with a client that counts its calls, the
  requests that really reach the model API.
\<close>

definition DEFAULT_HOURLY_CAP :: int where
  "DEFAULT_HOURLY_CAP = 60"

definition DEFAULT_DAILY_CAP :: int where
  "DEFAULT_DAILY_CAP = 500"

text \<open>\<^verbatim>\<open>_cap\<close>: the environment variable as an integer, if it is set and parses.\<close>

definition cap_of :: "int res option \<Rightarrow> int \<Rightarrow> int res" where
  "cap_of setting dflt =
     (case setting of
        None \<Rightarrow> Inr dflt
      | Some (Inr n) \<Rightarrow> Inr n
      | Some (Inl ValueError) \<Rightarrow> Inr dflt
      | Some (Inl e) \<Rightarrow> Inl e)"

definition hour_of :: "time \<Rightarrow> time" where
  "hour_of now = hours (now div 3600000000)"

definition calls_between :: "time \<Rightarrow> (time \<times> int) list \<Rightarrow> int" where
  "calls_between since t = sum_list (map snd (filter (\<lambda>r. since < fst r) t))"

text \<open>\<^verbatim>\<open>_DAY_SQL\<close> at \<open>now\<close>.\<close>

definition day_calls :: "time \<Rightarrow> (time \<times> int) list \<Rightarrow> int" where
  "day_calls now t = calls_between (now - hours 24) t"

text \<open>\<^verbatim>\<open>_SPEND_SQL\<close>: insert the hour with one call, or add one under the cap; nothing when at the cap.\<close>

definition spend_hour :: "int \<Rightarrow> time \<Rightarrow> (time \<times> int) list \<Rightarrow> (time \<times> int) list option" where
  "spend_hour hourly_cap now t =
     (case row_of fst (hour_of now) t of
        None \<Rightarrow> Some (t @ [(hour_of now, 1)])
      | Some r \<Rightarrow> if snd r < hourly_cap
                  then Some (update_rows (\<lambda>r. fst r = hour_of now) (\<lambda>r. (fst r, snd r + 1)) t)
                  else None)"

definition spend :: "int \<Rightarrow> int \<Rightarrow> ('e world, unit) call" where
  "spend hourly_cap daily_cap w =
     (if hourly_cap \<le> 0 \<or> daily_cap \<le> 0 then (Inl BudgetExhausted, w)
      else if daily_cap \<le> day_calls (clock w) (llm_budget (db w)) then (Inl BudgetExhausted, w)
      else case spend_hour hourly_cap (clock w) (llm_budget (db w)) of
             None \<Rightarrow> (Inl BudgetExhausted, w)
           | Some t \<Rightarrow> (Inr (), w\<lparr>db := (db w)\<lparr>llm_budget := t\<rparr>\<rparr>))"

definition budgeted_compose ::
  "(string \<Rightarrow> 'a cited_scheme list \<Rightarrow> ('e world, string) call) \<Rightarrow> int \<Rightarrow> int \<Rightarrow>
   string \<Rightarrow> 'a cited_scheme list \<Rightarrow> ('e world, string) call" where
  "budgeted_compose inner hourly_cap daily_cap question hits w =
     (case spend hourly_cap daily_cap w of
        (Inl e, w1) \<Rightarrow> (Inl e, w1)
      | (Inr u, w1) \<Rightarrow> inner question hits w1)"

definition spent :: "time \<Rightarrow> (time \<times> int) list \<Rightarrow> int \<times> int" where
  "spent now t = ((case row_of fst (hour_of now) t of None \<Rightarrow> 0 | Some r \<Rightarrow> snd r), day_calls now t)"

definition prune_budget :: "time \<Rightarrow> database \<Rightarrow> database" where
  "prune_budget now d = d\<lparr>llm_budget := filter (\<lambda>r. \<not> fst r < now - days 7) (llm_budget d)\<rparr>"

text \<open>The composer the autopilot runs: the budget around the model API.\<close>

definition system_composer ::
  "('e, string, response) service \<Rightarrow> int \<Rightarrow> int \<Rightarrow> string \<Rightarrow> 'a cited_scheme list \<Rightarrow> ('e world, string) call" where
  "system_composer client hourly_cap daily_cap =
     budgeted_compose (anthropic_compose client) hourly_cap daily_cap"

lemma spend_frame:
  "same_but_budget (db w) (db (snd (spend hcap dcap w))) \<and> clock (snd (spend hcap dcap w)) = clock w"
  by (simp add: spend_def split: option.split)

lemma anthropic_compose_same:
  "anthropic_compose client q hits w = (r, w1) \<Longrightarrow> db w1 = db w \<and> clock w \<le> clock w1"
  using anthropic_compose_frame [of client q hits w] by simp

lemma system_composer_frame:
  "same_but_budget (db w) (db (snd (system_composer client hcap dcap q hits w)))
   \<and> clock w \<le> clock (snd (system_composer client hcap dcap q hits w))"
proof (cases "spend hcap dcap w")
  case (Pair r w1)
  have w1: "same_but_budget (db w) (db w1)" "clock w1 = clock w"
    using spend_frame [of w hcap dcap] Pair by simp_all
  with Pair anthropic_compose_frame [of client q hits w1] show ?thesis
    by (simp add: system_composer_def budgeted_compose_def split: sum.split)
qed

interpretation system_narrator: narrator "system_composer client hcap dcap" for client hcap dcap
  by unfold_locales (simp_all add: system_composer_frame)

subsection \<open>Admission\<close>

definition count_at :: "time \<Rightarrow> (time \<times> int) list \<Rightarrow> int" where
  "count_at h t = (case row_of fst h t of None \<Rightarrow> 0 | Some r \<Rightarrow> snd r)"

lemma hour_of_recent: "now - hours 24 < hour_of now"
  unfolding hour_of_def by linarith

lemma spend_hour_count:
  "spend_hour cap now t = Some t' \<Longrightarrow>
     count_at h t' = count_at h t + (if h = hour_of now then 1 else 0)"
  using row_of_SomeD [of fst h t] row_of_SomeD [of fst "hour_of now" t]
  by (auto simp: spend_hour_def count_at_def row_of_update_rows table_simps split: option.splits if_splits)

lemma spend_hour_keyed: "spend_hour cap now t = Some t' \<Longrightarrow> keyed fst t \<Longrightarrow> keyed fst t'"
  by (cases "row_of fst (hour_of now) t")
    (auto simp: spend_hour_def keyed_update_rows row_of_None_iff keyed_def [of fst "t @ u" for t u]
      keyed_def [of fst t] image_iff split: if_splits)

lemma sum_update_one:
  assumes "keyed fst t" and "row_of fst h t = Some r" and "since < h"
  shows "calls_between since (update_rows (\<lambda>r. fst r = h) (\<lambda>r. (fst r, snd r + 1)) t) = calls_between since t + 1"
  using assms
proof (induction t)
  case (Cons x xs)
  show ?case
  proof (cases "fst x = h")
    case True
    with Cons.prems(1) have "h \<notin> fst ` set xs" by (auto simp: keyed_def)
    then have "update_rows (\<lambda>r. fst r = h) (\<lambda>r. (fst r, snd r + 1)) xs = xs"
      by (force simp: update_rows_def intro!: map_idI)
    with True Cons.prems(3) show ?thesis by (simp add: calls_between_def update_rows_def)
  next
    case False
    with Cons have "calls_between since (update_rows (\<lambda>r. fst r = h) (\<lambda>r. (fst r, snd r + 1)) xs)
        = calls_between since xs + 1"
      by (simp add: keyed_def table_simps)
    with False show ?thesis by (simp add: calls_between_def update_rows_def)
  qed
qed (simp add: table_simps)

lemma spend_hour_day:
  assumes "spend_hour cap now t = Some t'" and "keyed fst t"
  shows "day_calls now t' = day_calls now t + 1"
proof (cases "row_of fst (hour_of now) t")
  case None
  with assms(1) hour_of_recent [of now] show ?thesis
    by (auto simp: spend_hour_def day_calls_def calls_between_def)
next
  case (Some r)
  with assms(1) have "t' = update_rows (\<lambda>r. fst r = hour_of now) (\<lambda>r. (fst r, snd r + 1)) t"
    by (auto simp: spend_hour_def split: if_splits)
  then show ?thesis
    using sum_update_one [OF assms(2) Some hour_of_recent] by (simp add: day_calls_def)
qed

text \<open>The one-step summary every budget proof uses.\<close>

lemma spend_cases:
  obtains (refused) "spend hcap dcap w = (Inl BudgetExhausted, w)"
  | (admitted) t where "spend hcap dcap w = (Inr (), w\<lparr>db := (db w)\<lparr>llm_budget := t\<rparr>\<rparr>)"
      "spend_hour hcap (clock w) (llm_budget (db w)) = Some t"
      "day_calls (clock w) (llm_budget (db w)) < dcap" "0 < hcap"
proof (cases "spend hcap dcap w = (Inl BudgetExhausted, w)")
  case True
  then show ?thesis by (rule refused)
next
  case False
  then have "\<not> (hcap \<le> 0 \<or> dcap \<le> 0)" and "\<not> dcap \<le> day_calls (clock w) (llm_budget (db w))"
    by (auto simp: spend_def split: if_splits)
  moreover from this False obtain t where "spend_hour hcap (clock w) (llm_budget (db w)) = Some t"
    by (auto simp: spend_def split: option.splits)
  ultimately show ?thesis by (intro admitted [of t]) (simp_all add: spend_def)
qed

text \<open>The budget in one call. Either the call is refused with \<open>BudgetExhausted\<close>, costs nothing and
  never reaches the wrapped composer (the whole world is unchanged), or the hour's counter and
  the day's sum have each grown by exactly one before the wrapped composer runs, whatever that
  composer then returns or raises.\<close>

theorem budget_counts_every_attempt:
  assumes "keyed fst (llm_budget (db w))"
  shows "budgeted_compose inner hcap dcap q hits w = (Inl BudgetExhausted, w)
    \<or> (\<exists>w1. budgeted_compose inner hcap dcap q hits w = inner q hits w1
         \<and> clock w1 = clock w \<and> env w1 = env w
         \<and> count_at (hour_of (clock w)) (llm_budget (db w1)) = count_at (hour_of (clock w)) (llm_budget (db w)) + 1
         \<and> count_at (hour_of (clock w)) (llm_budget (db w1)) \<le> hcap
         \<and> day_calls (clock w) (llm_budget (db w1)) = day_calls (clock w) (llm_budget (db w)) + 1
         \<and> day_calls (clock w) (llm_budget (db w1)) \<le> dcap)"
proof (cases rule: spend_cases [of hcap dcap w])
  case refused
  then show ?thesis by (simp add: budgeted_compose_def)
next
  case (admitted t)
  have "count_at (hour_of (clock w)) (llm_budget (db w)) < hcap"
    using admitted(2,4) by (auto simp: spend_hour_def count_at_def split: option.splits if_splits)
  moreover have "count_at (hour_of (clock w)) t = count_at (hour_of (clock w)) (llm_budget (db w)) + 1"
    using spend_hour_count [OF admitted(2), of "hour_of (clock w)"] by simp
  moreover have "day_calls (clock w) t = day_calls (clock w) (llm_budget (db w)) + 1"
    by (rule spend_hour_day [OF admitted(2) assms])
  moreover have "budgeted_compose inner hcap dcap q hits w = inner q hits (w\<lparr>db := (db w)\<lparr>llm_budget := t\<rparr>\<rparr>)"
    by (simp add: budgeted_compose_def admitted(1))
  ultimately show ?thesis
    using admitted(3) by (intro disjI2 exI [of _ "w\<lparr>db := (db w)\<lparr>llm_budget := t\<rparr>\<rparr>"]) simp
qed

theorem budget_counts_every_attempt_witness:
  "let w = start_world empty_database 0 ();
       inner = (\<lambda>q (hits :: cited list) w. (Inl (OtherError ''timeout''), w));
       w1 = w\<lparr>db := (db w)\<lparr>llm_budget := [(0, 1)]\<rparr>\<rparr>
   in budgeted_compose inner 1 5 ''q'' [] w = (Inl (OtherError ''timeout''), w1)
      \<and> budgeted_compose inner 1 5 ''q'' [] w1 = (Inl BudgetExhausted, w1)"
proof -
  let ?w = "start_world empty_database 0 ()"
  let ?inner = "\<lambda>q (hits :: cited list) w. (Inl (OtherError ''timeout''), w)"
  let ?w1 = "?w\<lparr>db := (db ?w)\<lparr>llm_budget := [(0, 1)]\<rparr>\<rparr>"
  have "keyed fst (llm_budget (db ?w1))" by (simp add: keyed_def)
  moreover have "count_at (hour_of (clock ?w1)) (llm_budget (db ?w1)) = 1"
    by (simp add: count_at_def hour_of_def table_simps)
  ultimately have "budgeted_compose ?inner 1 5 ''q'' [] ?w1 = (Inl BudgetExhausted, ?w1)"
    using budget_counts_every_attempt [of ?w1 ?inner 1 5 "''q''" "[]"] by auto
  then show ?thesis
    by (simp add: Let_def budgeted_compose_def spend_def spend_hour_def day_calls_def calls_between_def
        hour_of_def table_simps empty_database_def)
qed

subsection \<open>Any run of calls\<close>

lemma spend_hour_cap: "spend_hour cap now t = Some t' \<Longrightarrow> 0 < cap \<Longrightarrow> count_at (hour_of now) t' \<le> cap"
  by (auto simp: spend_hour_def count_at_def row_of_update_rows table_simps split: option.splits if_splits)

text \<open>
  Calls to a composer separated by the passage of time, over a model API that counts its requests
  in the first part of its state. Each call is charged, to the hour in which it was made, what that
  counter grew by: the requests that reached the API, not what the budget believes of them.
\<close>

fun run_calls ::
  "(string \<Rightarrow> 'a cited_scheme list \<Rightarrow> ((nat \<times> 'e) world, string) call) \<Rightarrow>
   (nat \<times> string \<times> 'a cited_scheme list) list \<Rightarrow> (nat \<times> 'e) world \<Rightarrow> (time \<times> int) list \<times> (nat \<times> 'e) world" where
  "run_calls composer [] w = ([], w)"
| "run_calls composer ((wait, q, hits) # cs) w =
     (let w0 = sleep (int wait) w;
          (r, w1) = composer q hits w0;
          (bill, w2) = run_calls composer cs w1
      in ((hour_of (clock w0), int (fst (env w1)) - int (fst (env w0))) # bill, w2))"

definition billed :: "time \<Rightarrow> (time \<times> int) list \<Rightarrow> int" where
  "billed h bill = sum_list (map snd (filter (\<lambda>b. fst b = h) bill))"

text \<open>One call of the model composer makes at most one request, and leaves the counters of the budget.\<close>

lemma anthropic_requests:
  assumes "anthropic_compose (counted client) q hits w = (r, w1)"
  shows "db w1 = db w" and "fst (env w1) = (if hits = [] then fst (env w) else Suc (fst (env w)))"
  using assms by (auto simp: anthropic_compose_def Let_def split: if_splits prod.splits sum.splits
      dest: call_counted call_serviceD)

text \<open>One call of the system's composer: the requests it makes are covered by what it adds to its hour.\<close>

lemma system_composer_requests:
  assumes "system_composer (counted client) hcap dcap q hits w = (r, w1)"
  shows "int (fst (env w1)) - int (fst (env w))
      \<le> count_at (hour_of (clock w)) (llm_budget (db w1)) - count_at (hour_of (clock w)) (llm_budget (db w))"
    and "h \<noteq> hour_of (clock w) \<Longrightarrow> count_at h (llm_budget (db w1)) = count_at h (llm_budget (db w))"
    and "count_at h (llm_budget (db w1)) \<le> max hcap (count_at h (llm_budget (db w)))"
proof -
  have "int (fst (env w1)) - int (fst (env w))
        \<le> count_at (hour_of (clock w)) (llm_budget (db w1)) - count_at (hour_of (clock w)) (llm_budget (db w))
      \<and> (h \<noteq> hour_of (clock w) \<longrightarrow> count_at h (llm_budget (db w1)) = count_at h (llm_budget (db w)))
      \<and> count_at h (llm_budget (db w1)) \<le> max hcap (count_at h (llm_budget (db w)))"
  proof (cases rule: spend_cases [of hcap dcap w])
    case refused
    with assms show ?thesis by (auto simp: system_composer_def budgeted_compose_def)
  next
    case (admitted t)
    with assms have "anthropic_compose (counted client) q hits (w\<lparr>db := (db w)\<lparr>llm_budget := t\<rparr>\<rparr>) = (r, w1)"
      by (simp add: system_composer_def budgeted_compose_def)
    from anthropic_requests [OF this] have "llm_budget (db w1) = t" "fst (env w1) \<le> Suc (fst (env w))"
      by (simp_all split: if_splits)
    with spend_hour_count [OF admitted(2)] spend_hour_cap [OF admitted(2,4)] show ?thesis
      by (cases "h = hour_of (clock w)") simp_all
  qed
  then show "int (fst (env w1)) - int (fst (env w))
      \<le> count_at (hour_of (clock w)) (llm_budget (db w1)) - count_at (hour_of (clock w)) (llm_budget (db w))"
    "h \<noteq> hour_of (clock w) \<Longrightarrow> count_at h (llm_budget (db w1)) = count_at h (llm_budget (db w))"
    "count_at h (llm_budget (db w1)) \<le> max hcap (count_at h (llm_budget (db w)))" by simp_all
qed

lemma run_calls_requests:
  assumes "run_calls (system_composer (counted client) hcap dcap) cs w = (bill, w2)"
  shows "billed h bill \<le> count_at h (llm_budget (db w2)) - count_at h (llm_budget (db w))
    \<and> count_at h (llm_budget (db w2)) \<le> max hcap (count_at h (llm_budget (db w)))"
  using assms
proof (induction cs arbitrary: w bill)
  case Nil
  then show ?case by (auto simp: billed_def)
next
  case (Cons c cs)
  obtain wait q hits where c: "c = (wait, q, hits)" by (cases c) auto
  let ?w0 = "sleep (int wait) w"
  obtain r w1 where one: "system_composer (counted client) hcap dcap q hits ?w0 = (r, w1)" by fastforce
  obtain bs where many: "run_calls (system_composer (counted client) hcap dcap) cs w1 = (bs, w2)"
    and bill: "bill = (hour_of (clock ?w0), int (fst (env w1)) - int (fst (env ?w0))) # bs"
    using Cons.prems one by (auto simp: c Let_def split: prod.splits)
  note requests = system_composer_requests [OF one]
  show ?case
    using Cons.IH [OF many] requests(1) requests(2) [of h] requests(3) [of h]
    by (cases "h = hour_of (clock ?w0)") (auto simp: bill billed_def)
qed

text \<open>C11. The bill is bounded: over any sequence of calls to the system's composer, spread over any
  stretch of time and whatever the model API answers, at most \<open>hourly_cap\<close> requests (less what the
  hour's counter already held) reach the API in any one hour. The requests are counted at the API.\<close>

theorem hourly_bill_bounded:
  "billed h (fst (run_calls (system_composer (counted client) hcap dcap) cs w))
     \<le> max 0 (hcap - count_at h (llm_budget (db w)))"
proof -
  obtain bill w2 where run: "run_calls (system_composer (counted client) hcap dcap) cs w = (bill, w2)" by fastforce
  from run_calls_requests [OF run, of h] show ?thesis unfolding run fst_conv by linarith
qed

end
