(* ===== verification/Investigate.thy ===== *)
theory Investigate
  imports Recurrence Budget
begin

section \<open>Gathering an incident's evidence (\<^verbatim>\<open>freshet/autopilot/investigate.py\<close>)\<close>

text \<open>
  Everything a brief, a progress update or a postmortem says is looked up by the incident's key:
  its updates (one per event, chunks joined in order), the runbook of the service, the cause its
  updates state, an impact line, and a narrative from the composer. Only recurrence is a search.
  A composer that is out of budget stops the gathering; any other failure of it costs the
  narrative only. Ties that the SQL leaves open (equal timestamps) are in table order here.

  The lemmas: an update is made of rows of this incident only and respects the cutoff, gathering
  changes nothing but the budget, and which exceptions can leave it.
\<close>

record update = cited +
  u_service :: string
  u_type :: string

type_synonym 'e composer = "string \<Rightarrow> update list \<Rightarrow> ('e world, string) call"

text \<open>\<^verbatim>\<open>min(column)\<close> of a group of rows, in the database's collation.\<close>

fun least_by :: "('a \<Rightarrow> real) \<Rightarrow> 'a \<Rightarrow> 'a list \<Rightarrow> 'a" where
  "least_by key x [] = x"
| "least_by key x (y # ys) = least_by key (if key y < key x then y else x) ys"

definition min_text :: "search_engine \<Rightarrow> string list \<Rightarrow> string" where
  "min_text eng xs = (case xs of [] \<Rightarrow> [] | x # ys \<Rightarrow> least_by (collation eng) x ys)"

definition update_of_rows :: "search_engine \<Rightarrow> string \<Rightarrow> vector_row list \<Rightarrow> update" where
  "update_of_rows eng e rs =
     \<lparr>event_id = e, ts = Max (set (map v_ts rs)),
      body_text = join '' '' (map v_text (sort_key chunk_index rs)),
      source = min_text eng (map v_source rs),
      u_service = min_text eng (map v_service rs), u_type = min_text eng (map v_type rs)\<rparr>"

definition incident_rows :: "string \<Rightarrow> time option \<Rightarrow> database \<Rightarrow> vector_row list" where
  "incident_rows i as_of d =
     filter (\<lambda>r. v_incident r = Some i \<and> (case as_of of None \<Rightarrow> True | Some t \<Rightarrow> v_ts r \<le> t)) (vector_records d)"

definition fetch_incident_updates :: "search_engine \<Rightarrow> string \<Rightarrow> time option \<Rightarrow> database \<Rightarrow> update list" where
  "fetch_incident_updates eng i as_of d =
     (let rs = incident_rows i as_of d
      in newest_first (map (\<lambda>e. update_of_rows eng e (filter (\<lambda>r. v_event r = e) rs)) (remdups (map v_event rs))))"

definition NO_RUNBOOK :: "string list" where
  "NO_RUNBOOK = [''none'', ''none found'', ''no runbook found'', ''n/a'']"

definition fetch_runbook :: "string \<Rightarrow> database \<Rightarrow> string option" where
  "fetch_runbook service d =
     (case sort_key v_ts (filter (\<lambda>r. v_service r = service \<and> v_type r = ''runbook'') (vector_records d)) of
        [] \<Rightarrow> None
      | r # _ \<Rightarrow> if v_text r = [] then None
                 else if lower (strip (v_text r)) \<in> set NO_RUNBOOK then None
                 else Some (strip (v_text r)))"

definition services_of :: "string \<Rightarrow> database \<Rightarrow> string list" where
  "services_of i d = map snd (filter (\<lambda>s. fst s = i) (incident_services d))"

definition impact_for :: "string \<Rightarrow> string \<Rightarrow> update list \<Rightarrow> database \<Rightarrow> string" where
  "impact_for i service us d =
     (let row = row_of inc_id i (incidents d);
          services = services_of i d
      in estimate_impact (if services = [] then [service] else services)
           (map_option opened_at row) (Option.bind row resolved_at) (map body_text us))"

definition MAX_NARRATIVE_UPDATES :: nat where
  "MAX_NARRATIVE_UPDATES = 20"

definition summarise :: "'e composer option \<Rightarrow> string \<Rightarrow> update list \<Rightarrow> ('e world, string option) call" where
  "summarise composer question us w =
     (case composer of
        None \<Rightarrow> (Inl ValueError, w)
      | Some compose \<Rightarrow>
          if us = [] then (Inr None, w)
          else case compose question (take MAX_NARRATIVE_UPDATES us) w of
                 (Inr answer, w1) \<Rightarrow> (Inr (Some answer), w1)
               | (Inl BudgetExhausted, w1) \<Rightarrow> (Inl BudgetExhausted, w1)
               | (Inl e, w1) \<Rightarrow> (Inr None, w1))"

fun earliest_of :: "update \<Rightarrow> update list \<Rightarrow> update" where
  "earliest_of u [] = u"
| "earliest_of u (v # vs) = earliest_of (if ts v < ts u then v else u) vs"

definition recurrence_for ::
  "search_engine \<Rightarrow> 'e embedder \<Rightarrow> string \<Rightarrow> string \<Rightarrow> update list \<Rightarrow> ('e world, string option) call" where
  "recurrence_for eng emb service i own w =
     (case own of
        [] \<Rightarrow> (Inl ValueError, w)
      | u # us \<Rightarrow>
          let earliest = earliest_of u us
          in case find_recurrences eng emb service i (body_text earliest) (Some (ts earliest)) MAX_RECURRENCES w of
               (Inl e, w1) \<Rightarrow> (Inl e, w1)
             | (Inr ps, w1) \<Rightarrow> (Inr (recurrence_line ps), w1))"

text \<open>The findings before the narrative, and the whole of \<^verbatim>\<open>_gather\<close>.\<close>

definition keyed_findings ::
  "string \<Rightarrow> string \<Rightarrow> string option \<Rightarrow> update list \<Rightarrow> database \<Rightarrow> findings" where
  "keyed_findings service status meta_text own d =
     (let stated = cause_from_updates own in
      \<lparr>f_service = service, f_status = status, cause_text = map_option fst stated,
       cause_cite = map_option snd stated, fix_text = None, fix_cite = None,
       runbook = fetch_runbook service d, narrative = None, meta = meta_text, impact = None,
       updates = update_lines own, recurrence = None\<rparr>)"

definition gather ::
  "search_engine \<Rightarrow> string \<Rightarrow> string \<Rightarrow> string \<Rightarrow> string \<Rightarrow> 'e composer option \<Rightarrow> 'e embedder option
    \<Rightarrow> string option \<Rightarrow> time option \<Rightarrow> ('e world, findings) call" where
  "gather eng service i status question composer emb meta_text as_of w =
     (let own = fetch_incident_updates eng i as_of (db w);
          f = keyed_findings service status meta_text own (db w)
      in case summarise composer question own w of
           (Inl e, w1) \<Rightarrow> (Inl e, w1)
         | (Inr text, w1) \<Rightarrow>
             let f1 = f\<lparr>narrative := text, impact := Some (impact_for i service own (db w1))\<rparr>
             in (case emb of
                   None \<Rightarrow> (Inr f1, w1)
                 | Some m \<Rightarrow>
                     if own = [] then (Inr f1, w1)
                     else (case recurrence_for eng m service i own w1 of
                             (Inl e, w2) \<Rightarrow> (Inl e, w2)
                           | (Inr line, w2) \<Rightarrow> (Inr (f1\<lparr>recurrence := line\<rparr>), w2))))"

definition FINDINGS_QUESTION :: string where
  "FINDINGS_QUESTION = ''Summarise the incident described by these provider updates in two sentences. '' @
     ''Name the affected product, region, and current state exactly as supported by the updates. '' @
     ''Treat the provider label as metadata; do not reject the evidence because the product name '' @
     ''differs from that label. Do not add meta-commentary about missing fields such as region '' @
     ''unless it materially changes the incident summary.''"

definition POSTMORTEM_QUESTION :: string where
  "POSTMORTEM_QUESTION = ''The incident lifecycle state is resolved. Summarise the resolved '' @
     ''incident described by these provider updates in two sentences. Name the affected product and '' @
     ''state exactly as supported by the updates, and do not invent resolution details. If the updates '' @
     ''do not describe what completed, say that the incident was marked resolved without additional '' @
     ''provider detail. Do not repeat the same citation for the same claim.''"

definition findings_cutoff :: "string \<Rightarrow> string \<Rightarrow> database \<Rightarrow> time option" where
  "findings_cutoff i status d =
     (case row_of inc_id i (incidents d) of
        None \<Rightarrow> None
      | Some r \<Rightarrow>
          if status = ''open'' \<and> brief_as_of r \<noteq> None then brief_as_of r
          else if resolved_at r \<noteq> None then Some (opened_at r) else None)"

definition gather_findings ::
  "search_engine \<Rightarrow> string \<Rightarrow> string \<Rightarrow> string \<Rightarrow> 'e composer option \<Rightarrow> 'e embedder option
    \<Rightarrow> ('e world, findings) call" where
  "gather_findings eng service i status composer emb w =
     gather eng service i status FINDINGS_QUESTION composer emb None (findings_cutoff i status (db w)) w"

definition format_duration :: "time option \<Rightarrow> time option \<Rightarrow> string option" where
  "format_duration opened resolved =
     (case (opened, resolved) of
        (Some a, Some b) \<Rightarrow>
          let d = b - a; secs = (if 0 \<le> d then d div 1000000 else - ((- d) div 1000000))
          in if secs < 0 then None
             else if secs < 60 then Some (show_int secs @ ''s'')
             else let mins = secs div 60
                  in if mins < 60 then Some (show_int mins @ ''m'')
                     else Some (show_int (mins div 60) @ ''h '' @ show_int (mins mod 60) @ ''m'')
      | _ \<Rightarrow> None)"

definition postmortem_meta :: "string \<Rightarrow> database \<Rightarrow> string" where
  "postmortem_meta i d =
     (let row = row_of inc_id i (incidents d);
          summary = (if truthy (Option.bind row resolution_summary)
                     then str_of (Option.bind row resolution_summary) else ''resolved'')
      in case format_duration (map_option opened_at row) (Option.bind row resolved_at) of
           None \<Rightarrow> summary
         | Some duration \<Rightarrow> ''Duration '' @ duration @ '' '' @ middle_dot @ '' '' @ summary)"

definition gather_postmortem ::
  "search_engine \<Rightarrow> string \<Rightarrow> string \<Rightarrow> 'e composer option \<Rightarrow> 'e embedder option \<Rightarrow> ('e world, findings) call" where
  "gather_postmortem eng service i composer emb w =
     gather eng service i ''resolved'' POSTMORTEM_QUESTION composer emb (Some (postmortem_meta i (db w))) None w"

subsection \<open>The evidence is the incident's own\<close>

lemma update_ts: "rs \<noteq> [] \<Longrightarrow> ts (update_of_rows eng e rs) \<in> set (map v_ts rs)"
  using Max_in [of "set (map v_ts rs)"] by (simp add: update_of_rows_def)

lemma update_event [simp]: "event_id (update_of_rows eng e rs) = e"
  by (simp add: update_of_rows_def)

lemma newest_first_set [simp]: "set (newest_first us) = set us"
  by (simp add: newest_first_def)

lemma newest_first_distinct: "distinct (map f (newest_first us)) = distinct (map f us)"
  by (simp add: newest_first_def distinct_map)

lemma fetch_update:
  assumes "u \<in> set (fetch_incident_updates eng i as_of d)"
  shows "ts u \<in> v_ts ` {r \<in> set (incident_rows i as_of d). v_event r = event_id u}"
proof -
  from assms obtain e where e: "e \<in> v_event ` set (incident_rows i as_of d)"
    and u: "u = update_of_rows eng e (filter (\<lambda>r. v_event r = e) (incident_rows i as_of d))"
    by (auto simp: fetch_incident_updates_def Let_def)
  then have "filter (\<lambda>r. v_event r = e) (incident_rows i as_of d) \<noteq> []" by (auto simp: filter_empty_conv)
  from update_ts [OF this, of eng e] u show ?thesis by auto
qed

text \<open>C30. The evidence of an incident is exactly its own: one update per event indexed under the incident
  (up to the cutoff), newest first, nothing after the cutoff, and the result is a function of the
  incident's rows alone, so another incident's updates cannot leak into a brief.\<close>

theorem evidence_is_the_incidents_own:
  "distinct (map event_id (fetch_incident_updates eng i as_of d))
   \<and> event_id ` set (fetch_incident_updates eng i as_of d) = v_event ` set (incident_rows i as_of d)
   \<and> sorted (map (\<lambda>u. - ts u) (fetch_incident_updates eng i as_of d))
   \<and> list_all (\<lambda>u. case as_of of None \<Rightarrow> True | Some t \<Rightarrow> ts u \<le> t) (fetch_incident_updates eng i as_of d)
   \<and> fetch_incident_updates eng i as_of d =
       fetch_incident_updates eng i None (empty_database\<lparr>vector_records := incident_rows i as_of d\<rparr>)"
proof (intro conjI)
  show "distinct (map event_id (fetch_incident_updates eng i as_of d))"
    by (simp add: fetch_incident_updates_def Let_def newest_first_distinct comp_def)
  show "event_id ` set (fetch_incident_updates eng i as_of d) = v_event ` set (incident_rows i as_of d)"
    by (force simp: fetch_incident_updates_def Let_def)
  show "sorted (map (\<lambda>u. - ts u) (fetch_incident_updates eng i as_of d))"
    by (simp add: fetch_incident_updates_def Let_def newest_first_def)
  show "list_all (\<lambda>u. case as_of of None \<Rightarrow> True | Some t \<Rightarrow> ts u \<le> t) (fetch_incident_updates eng i as_of d)"
    by (auto simp: list_all_iff incident_rows_def dest!: fetch_update split: option.split)
  have "filter (\<lambda>r. v_incident r = Some i) (incident_rows i as_of d) = incident_rows i as_of d"
    by (simp add: incident_rows_def conj_commute cong: filter_cong)
  then show "fetch_incident_updates eng i as_of d =
       fetch_incident_updates eng i None (empty_database\<lparr>vector_records := incident_rows i as_of d\<rparr>)"
    by (simp add: fetch_incident_updates_def incident_rows_def [of i None])
qed

subsection \<open>Gathering only spends\<close>

locale incident_narrator = narrator compose for compose :: "string \<Rightarrow> update list \<Rightarrow> ('e world, string) call"
begin

lemma summarise_frame:
  "summarise (Some compose) q us w = (r, w') \<Longrightarrow> same_but_budget (db w) (db w') \<and> clock w \<le> clock w'"
  by (auto simp: summarise_def split: if_splits prod.splits sum.splits exn.splits dest: composeD)

lemma recurrence_for_frame:
  "recurrence_for eng emb service i own w = (r, w') \<Longrightarrow> db w' = db w \<and> clock w \<le> clock w'"
  by (auto simp: recurrence_for_def find_recurrences_def Let_def split: list.splits prod.splits sum.splits if_splits
      dest: hybrid_search_frame)

lemma gather_frame:
  assumes "gather eng service i status q (Some compose) emb m as_of w = (r, w')"
  shows "same_but_budget (db w) (db w') \<and> clock w \<le> clock w'"
proof -
  let ?own = "fetch_incident_updates eng i as_of (db w)"
  obtain r1 w1 where s: "summarise (Some compose) q ?own w = (r1, w1)" by fastforce
  note f1 = summarise_frame [OF s]
  have "w' = w1 \<or> (\<exists>e r2. recurrence_for eng e service i ?own w1 = (r2, w'))"
    using assms s by (auto simp: gather_def Let_def split: sum.splits option.splits if_splits prod.splits)
  then show ?thesis
    using f1 recurrence_for_frame by (metis order_trans)
qed

lemma gather_findings_frame:
  "gather_findings eng service i status (Some compose) emb w = (r, w') \<Longrightarrow>
     same_but_budget (db w) (db w') \<and> clock w \<le> clock w'"
  by (simp add: gather_findings_def gather_frame)

lemma gather_postmortem_frame:
  "gather_postmortem eng service i (Some compose) emb w = (r, w') \<Longrightarrow>
     same_but_budget (db w) (db w') \<and> clock w \<le> clock w'"
  by (simp add: gather_postmortem_def gather_frame)

end

interpretation system_incident_narrator: incident_narrator "system_composer client hcap dcap" for client hcap dcap
  by unfold_locales

subsection \<open>What can stop a gathering\<close>

lemma summarise_raises:
  "fst (summarise (Some compose) q us w) = Inl e \<Longrightarrow> e = BudgetExhausted"
  by (auto simp: summarise_def split: if_splits prod.splits sum.splits exn.splits)

text \<open>Generation never breaks an alert: without a recurrence search, whatever the model API raises,
  gathering the findings succeeds, except that an exhausted budget propagates so the caller can
  retry later.\<close>

theorem gather_fails_only_on_budget:
  assumes "fst (gather_findings eng service i status (Some compose) None w) = Inl e"
  shows "e = BudgetExhausted"
proof -
  let ?own = "fetch_incident_updates eng i (findings_cutoff i status (db w)) (db w)"
  have "fst (summarise (Some compose) FINDINGS_QUESTION ?own w) = Inl e"
    using assms by (simp add: gather_findings_def gather_def Let_def split: sum.splits prod.splits)
  then show ?thesis by (rule summarise_raises)
qed

theorem gather_fails_only_on_budget_witness:
  "let w = start_world past_outage 0 () in
   fst (gather_findings toy_engine ''api'' ''old'' ''open''
     (Some (system_composer (\<lambda>m e. (Inl TimeoutError, 0, e)) 0 0)) None w) = Inl BudgetExhausted
   \<and> (BudgetExhausted :: exn) = BudgetExhausted"
proof -
  have "fst (gather_findings toy_engine ''api'' ''old'' ''open''
     (Some (system_composer (\<lambda>m e. (Inl TimeoutError, 0, e)) 0 0)) None (start_world past_outage 0 ())) = Inl BudgetExhausted"
    by (simp add: gather_findings_def gather_def summarise_def system_composer_def budgeted_compose_def spend_def
        fetch_incident_updates_def incident_rows_def past_outage_def findings_cutoff_def newest_first_def
        empty_database_def table_simps Let_def)
  from gather_fails_only_on_budget [OF this] this show ?thesis by (simp add: Let_def)
qed

end
