(* ===== verification/Sinks.thy ===== *)
theory Sinks
  imports Brief Interfaces
begin

section \<open>Sinks (\<^verbatim>\<open>freshet/autopilot/sinks/\<close>)\<close>

text \<open>
  Where a brief goes: the terminal, or Slack through \<^verbatim>\<open>chat.postMessage\<close> with a bounded retry
  loop. The Slack client is a service; a response is the channel and the message timestamp it
  carries. A sink is a record of its delivery call and of the channel it last posted to. Emoji
  are their UTF-8 bytes. The theorem bounds the attempts and their back-off, and says that a
  delivery that returns was accepted by the client.
\<close>

definition MAX_ATTEMPTS :: nat where
  "MAX_ATTEMPTS = 3"

definition RETRY_BASE_S :: nat where
  "RETRY_BASE_S = 2"

subsection \<open>Markdown to mrkdwn\<close>

definition star :: char where
  "star = CHR 0x2A"

definition MD_BOLD :: re where
  "MD_BOLD = seq [ch star, ch star, Grp 1 (some_lazy any_char), ch star, ch star]"

definition blank :: re where
  "blank = one_of [CHR '' '', CHR 0x09]"

definition hash_mark :: re where
  "hash_mark = ch CHR 0x23"

definition MD_HEADING :: re where
  "MD_HEADING = seq [LineStart, upto_times 3 blank, hash_mark, upto_times 5 hash_mark, some blank,
     Grp 1 (many_lazy dot), many blank, many hash_mark, many blank, LineEnd]"

definition starred :: "string \<Rightarrow> groups \<Rightarrow> string" where
  "starred m g = [star] @ (case group 1 g of None \<Rightarrow> [] | Some s \<Rightarrow> s) @ [star]"

definition to_mrkdwn :: "string \<Rightarrow> string" where
  "to_mrkdwn s = sub MD_BOLD starred (sub MD_HEADING starred s)"

subsection \<open>Block Kit\<close>

definition red_circle :: string where
  "red_circle = [CHR 0xF0, CHR 0x9F, CHR 0x94, CHR 0xB4]"

definition orange_circle :: string where
  "orange_circle = [CHR 0xF0, CHR 0x9F, CHR 0x9F, CHR 0xA0]"

definition green_circle :: string where
  "green_circle = [CHR 0xF0, CHR 0x9F, CHR 0x9F, CHR 0xA2]"

definition EMOJI :: "(string \<times> string) list" where
  "EMOJI = [(''open'', red_circle), (''investigating'', red_circle), (''identified'', red_circle),
     (''monitoring'', orange_circle), (''in_progress'', orange_circle), (''in progress'', orange_circle),
     (''resolved'', green_circle), (''postmortem'', green_circle)]"

definition emoji :: "string \<Rightarrow> string" where
  "emoji status = (case map_of EMOJI (lower status) of None \<Rightarrow> red_circle | Some e \<Rightarrow> e)"

datatype block = Header string | Section string | Context string

definition tick :: string where
  "tick = [CHR 0x60]"

definition slack_body :: "findings \<Rightarrow> string" where
  "slack_body f =
     (if truthy (narrative f) then str_of (narrative f)
      else (if truthy (cause_text f)
            then ''*Cause:* '' @ str_of (cause_text f) @ '' '' @ tick @ str_of (cause_cite f) @ tick
            else ''*Cause:* not identified from retrieved evidence'')
        @ newline
        @ (if truthy (fix_text f)
           then ''*Resolution:* '' @ str_of (fix_text f) @ '' '' @ tick @ str_of (fix_cite f) @ tick
           else ''*Resolution:* not identified from retrieved evidence''))"

definition slack_blocks :: "findings \<Rightarrow> block list" where
  "slack_blocks f =
     (let status = (if f_status f = ''in_progress'' then ''in progress'' else f_status f);
          parts = (if truthy (meta f) then [str_of (meta f)] else [])
            @ (if truthy (impact f) then [str_of (impact f)] else [])
            @ (if truthy (runbook f) then [''Runbook: '' @ str_of (runbook f)] else [])
      in [Header (emoji (f_status f) @ '' '' @ f_service f @ '' '' @ em_dash @ '' '' @ status),
          Section (to_mrkdwn (slack_body f))]
         @ (if parts \<noteq> [] then [Context (join newline parts)] else []))"

subsection \<open>Delivery\<close>

record post_request =
  req_channel :: string
  req_text :: string
  req_blocks :: "block list"
  req_thread :: "string option"

record post_response =
  resp_channel :: "string option"
  resp_ts :: "string option"

record slack_config =
  slack_token :: string
  slack_channel :: string
  dry_run :: bool
  sdk_installed :: bool

fun post_attempts ::
  "('e, post_request, post_response option) service \<Rightarrow> post_request \<Rightarrow> nat \<Rightarrow> nat \<Rightarrow> ('e world, string option) call" where
  "post_attempts client req 0 attempt w = (Inl AssertionError, w)"
| "post_attempts client req (Suc n) attempt w =
     (let retry = (\<lambda>e w1. if attempt = MAX_ATTEMPTS then (Inl e, w1)
            else post_attempts client req n (Suc attempt) (sleep (seconds (int (RETRY_BASE_S * attempt))) w1))
      in case call_service client req w of
           (Inl e, w1) \<Rightarrow> retry e w1
         | (Inr None, w1) \<Rightarrow> (Inr None, w1)
         | (Inr (Some resp), w1) \<Rightarrow>
             let w2 = w1\<lparr>sink_channel := (if truthy (resp_channel resp) then resp_channel resp else sink_channel w1)\<rparr>
             in (case resp_ts resp of
                   Some t \<Rightarrow> (Inr (Some t), w2)
                 | None \<Rightarrow> retry KeyError w2))"

definition slack_deliver ::
  "slack_config \<Rightarrow> ('e, post_request, post_response option) service \<Rightarrow> findings \<Rightarrow> string option
    \<Rightarrow> ('e world, string option) call" where
  "slack_deliver cfg client f thread w =
     (if dry_run cfg then (Inr None, w\<lparr>printed := printed w @ [render_brief f]\<rparr>)
      else if \<not> sdk_installed cfg then (Inl ImportError, w)
      else post_attempts client
             \<lparr>req_channel = slack_channel cfg, req_text = render_brief f, req_blocks = slack_blocks f,
              req_thread = thread\<rparr> MAX_ATTEMPTS 1 w)"

definition stdout_deliver :: "findings \<Rightarrow> string option \<Rightarrow> ('e world, string option) call" where
  "stdout_deliver f thread w =
     (Inr None, w\<lparr>printed := printed w @ [render_brief f]
        @ (if truthy thread then [''(reply to '' @ str_of thread @ '')''] else [])\<rparr>)"

text \<open>What the consumer uses of a sink: \<^verbatim>\<open>deliver\<close> and \<^verbatim>\<open>getattr(sink, "last_channel_id", None)\<close>.\<close>

record 'e sink =
  deliver :: "findings \<Rightarrow> string option \<Rightarrow> ('e world, string option) call"
  last_channel_id :: "'e world \<Rightarrow> string option"

definition stdout_sink :: "'e sink" where
  "stdout_sink = \<lparr>deliver = stdout_deliver, last_channel_id = (\<lambda>w. None)\<rparr>"

definition slack_sink :: "slack_config \<Rightarrow> ('e, post_request, post_response option) service \<Rightarrow> 'e sink" where
  "slack_sink cfg client = \<lparr>deliver = slack_deliver cfg client, last_channel_id = sink_channel\<rparr>"

definition make_sink ::
  "string \<Rightarrow> string option \<Rightarrow> string option \<Rightarrow> bool \<Rightarrow> ('e, post_request, post_response option) service \<Rightarrow> 'e sink res" where
  "make_sink kind token channel sdk client =
     (if kind = ''stdout'' then Inr stdout_sink
      else if kind = ''slack'' then
        (if \<not> truthy token \<or> \<not> truthy channel then Inl RuntimeError
         else Inr (slack_sink \<lparr>slack_token = str_of token, slack_channel = str_of channel,
                    dry_run = False, sdk_installed = sdk\<rparr> client))
      else if kind = ''slack-dry-run'' then
        Inr (slack_sink \<lparr>slack_token = (case token of None \<Rightarrow> [] | Some t \<Rightarrow> t),
               slack_channel = (if truthy channel then str_of channel else ''#dry-run''),
               dry_run = True, sdk_installed = sdk\<rparr> client)
      else Inl ValueError)"

subsection \<open>Sinks are messengers\<close>

lemma post_attempts_frame:
  "post_attempts client req n a w = (r, w') \<Longrightarrow> db w' = db w \<and> clock w \<le> clock w'"
proof (induction n arbitrary: a w)
  case (Suc n)
  obtain r1 w1 where c: "call_service client req w = (r1, w1)" by fastforce
  note f = call_serviceD [OF c]
  have step: "db w' = db w \<and> clock w \<le> clock w'"
    if v: "db v = db w1 \<and> clock v = clock w1" and run: "(if a = MAX_ATTEMPTS then (Inl e, v)
      else post_attempts client req n (Suc a) (sleep (seconds (int (RETRY_BASE_S * a))) v)) = (r, w')" for v e
    using v run f Suc.IH [of "Suc a" "sleep (seconds (int (RETRY_BASE_S * a))) v"]
    by (auto simp: RETRY_BASE_S_def split: if_splits)
  show ?case
  proof (cases r1)
    case (Inl e)
    with Suc.prems(1) c step [of w1 e] show ?thesis by (simp add: Let_def)
  next
    case (Inr resp)
    show ?thesis
    proof (cases resp)
      case None
      with Inr Suc.prems(1) c f show ?thesis by auto
    next
      case (Some p)
      let ?v = "w1\<lparr>sink_channel := (if truthy (resp_channel p) then resp_channel p else sink_channel w1)\<rparr>"
      show ?thesis
      proof (cases "resp_ts p")
        case None
        with Some Inr Suc.prems(1) c step [of ?v KeyError] show ?thesis by (simp add: Let_def)
      next
        fix t assume "resp_ts p = Some t"
        with Some Inr Suc.prems(1) c f show ?thesis by (auto simp: Let_def)
      qed
    qed
  qed
qed simp

lemma slack_deliver_frame:
  "db (snd (slack_deliver cfg client f thread w)) = db w \<and> clock w \<le> clock (snd (slack_deliver cfg client f thread w))"
proof -
  obtain r w' where run: "slack_deliver cfg client f thread w = (r, w')" by fastforce
  then have "db w' = db w \<and> clock w \<le> clock w'"
    by (auto simp: slack_deliver_def split: if_splits dest: post_attempts_frame)
  with run show ?thesis by simp
qed

interpretation slack: messenger "slack_deliver cfg client" for cfg client
  by unfold_locales (simp_all add: slack_deliver_frame)

interpretation stdout: messenger stdout_deliver
  by unfold_locales (simp_all add: stdout_deliver_def)

subsection \<open>Bounded retries\<close>

lemma post_attempts_calls:
  assumes "post_attempts (counted client) req n a w = (r, w')" and "a + n = Suc MAX_ATTEMPTS" and "0 < n"
  shows "fst (env w) < fst (env w') \<and> fst (env w') \<le> fst (env w) + n
    \<and> (case r of Inr x \<Rightarrow> True
       | Inl e \<Rightarrow> fst (env w') = fst (env w) + n \<and> clock w + seconds (2 * (\<Sum>k = a..<MAX_ATTEMPTS. int k)) \<le> clock w')"
  using assms
proof (induction n arbitrary: a w)
  case (Suc n)
  obtain r1 w1 where c: "call_service (counted client) req w = (r1, w1)" by fastforce
  note f = call_counted [OF c]
  let ?goal = "fst (env w) < fst (env w') \<and> fst (env w') \<le> fst (env w) + Suc n
    \<and> (case r of Inr x \<Rightarrow> True | Inl e \<Rightarrow> fst (env w') = fst (env w) + Suc n
         \<and> clock w + seconds (2 * (\<Sum>k = a..<MAX_ATTEMPTS. int k)) \<le> clock w')"
  have step: ?goal
    if v: "env v = env w1 \<and> clock v = clock w1" and run: "(if a = MAX_ATTEMPTS then (Inl e, v)
      else post_attempts (counted client) req n (Suc a) (sleep (seconds (int (RETRY_BASE_S * a))) v)) = (r, w')" for v e
  proof (cases "a = MAX_ATTEMPTS")
    case True
    with run v f Suc.prems(2) show ?thesis by auto
  next
    case False
    let ?v = "sleep (seconds (int (RETRY_BASE_S * a))) v"
    from False Suc.prems(2) have "0 < n" "a < MAX_ATTEMPTS" by auto
    with Suc.IH [of "Suc a" ?v] run False Suc.prems(2)
    have IH: "fst (env ?v) < fst (env w') \<and> fst (env w') \<le> fst (env ?v) + n
      \<and> (case r of Inr x \<Rightarrow> True | Inl e \<Rightarrow> fst (env w') = fst (env ?v) + n
           \<and> clock ?v + seconds (2 * (\<Sum>k = Suc a..<MAX_ATTEMPTS. int k)) \<le> clock w')" by simp
    have "(\<Sum>k = a..<MAX_ATTEMPTS. int k) = int a + (\<Sum>k = Suc a..<MAX_ATTEMPTS. int k)"
      using \<open>a < MAX_ATTEMPTS\<close> by (rule sum.atLeast_Suc_lessThan)
    with IH f v show ?thesis by (auto simp: RETRY_BASE_S_def split: sum.splits)
  qed
  show ?case
  proof (cases r1)
    case (Inl e)
    with Suc.prems(1) c step [of w1 e] show ?thesis by (simp add: Let_def)
  next
    case (Inr resp)
    show ?thesis
    proof (cases resp)
      case None
      with Inr Suc.prems(1) c f show ?thesis by auto
    next
      case (Some p)
      let ?v = "w1\<lparr>sink_channel := (if truthy (resp_channel p) then resp_channel p else sink_channel w1)\<rparr>"
      show ?thesis
      proof (cases "resp_ts p")
        case None
        with Some Inr Suc.prems(1) c step [of ?v KeyError] show ?thesis by (simp add: Let_def)
      next
        fix t assume "resp_ts p = Some t"
        with Some Inr Suc.prems(1) c f show ?thesis by (auto simp: Let_def)
      qed
    qed
  qed
qed simp

text \<open>Posting is bounded: a delivery calls the Slack API at least once and at most three times, and it
  raises only after three failed calls with the back-off of two and then four seconds between them.\<close>

theorem slack_retries_are_bounded:
  assumes "slack_deliver cfg (counted client) f thread w = (r, w')" and "\<not> dry_run cfg" and "sdk_installed cfg"
  shows "fst (env w) + 1 \<le> fst (env w') \<and> fst (env w') \<le> fst (env w) + 3
    \<and> (case r of Inr x \<Rightarrow> True | Inl e \<Rightarrow> fst (env w') = fst (env w) + 3 \<and> clock w + seconds 6 \<le> clock w')"
proof -
  from assms obtain req where run: "post_attempts (counted client) req MAX_ATTEMPTS 1 w = (r, w')"
    by (simp add: slack_deliver_def)
  have "(\<Sum>k = 1..<MAX_ATTEMPTS. int k) = 3" by (simp add: MAX_ATTEMPTS_def eval_nat_numeral)
  with post_attempts_calls [OF run] show ?thesis by (cases r) (auto simp: MAX_ATTEMPTS_def)
qed

definition quiet_findings :: findings where
  "quiet_findings = \<lparr>f_service = ''api'', f_status = ''open'', cause_text = None, cause_cite = None, fix_text = None,
     fix_cite = None, runbook = None, narrative = None, meta = None, impact = None, updates = [], recurrence = None\<rparr>"

theorem slack_retries_are_bounded_witness:
  "\<exists>w'. slack_deliver \<lparr>slack_token = ''t'', slack_channel = ''c'', dry_run = False, sdk_installed = True\<rparr>
       (counted (\<lambda>q e. (Inl TimeoutError, 0, e))) quiet_findings None (start_world empty_database 0 (0, ()))
     = (Inl TimeoutError, w') \<and> fst (env w') = 3 \<and> seconds 6 \<le> clock w'"
proof -
  let ?cfg = "\<lparr>slack_token = ''t'', slack_channel = ''c'', dry_run = False, sdk_installed = True\<rparr>"
  let ?client = "\<lambda>q e. (Inl TimeoutError, 0, e)"
  let ?w = "start_world empty_database 0 (0, ())"
  obtain w' where w': "slack_deliver ?cfg (counted ?client) quiet_findings None ?w = (Inl TimeoutError, w')"
    by (simp add: slack_deliver_def MAX_ATTEMPTS_def numeral_3_eq_3 call_service_def counted_def Let_def)
  with slack_retries_are_bounded [OF this] show ?thesis by auto
qed

end
