(* ===== verification/Lifecycle.thy ===== *)
theory Lifecycle
  imports Prelude
begin

section \<open>Lifecycle events (\<^verbatim>\<open>freshet/pipeline/lifecycle.py\<close>)\<close>

text \<open>
  A JSON value as \<^verbatim>\<open>json.loads\<close> returns it (an object keeps one value per key) and the model the
  autopilot reads. The text-level parser and printer are the standard library's; the functions
  here work on parsed values. \<open>event_of_json\<close> accepts the legacy field name \<^verbatim>\<open>status\<close>, refuses
  anything else, and inverts \<open>json_of_event\<close>.
\<close>

datatype json =
    JNull
  | JBool bool
  | JInt int
  | JReal real
  | JStr string
  | JArr "json list"
  | JObj "(string \<times> json) list"

definition LIFECYCLE_TOPIC :: string where
  "LIFECYCLE_TOPIC = ''incident.lifecycle''"

record lifecycle_event =
  le_type :: string
  le_incident :: string
  le_service :: string
  le_ts :: string
  le_title :: string

text \<open>Truthiness, \<^verbatim>\<open>d.pop\<close> and \<^verbatim>\<open>d[k] = v\<close>.\<close>

fun falsy :: "json \<Rightarrow> bool" where
  "falsy JNull = True"
| "falsy (JBool b) = (\<not> b)"
| "falsy (JInt n) = (n = 0)"
| "falsy (JReal x) = (x = 0)"
| "falsy (JStr s) = (s = [])"
| "falsy (JArr xs) = (xs = [])"
| "falsy (JObj d) = (d = [])"

definition pop_key :: "string \<Rightarrow> (string \<times> json) list \<Rightarrow> (string \<times> json) list" where
  "pop_key k d = filter (\<lambda>kv. fst kv \<noteq> k) d"

definition set_key :: "string \<Rightarrow> json \<Rightarrow> (string \<times> json) list \<Rightarrow> (string \<times> json) list" where
  "set_key k v d = upsert fst (k, v) (\<lambda>kv. (fst kv, v)) d"

text \<open>\<^verbatim>\<open>model_validate\<close>: the four required fields and the title must be strings.\<close>

definition str_field :: "string \<Rightarrow> (string \<times> json) list \<Rightarrow> string res" where
  "str_field k d = (case map_of d k of Some (JStr s) \<Rightarrow> Inr s | _ \<Rightarrow> Inl ValueError)"

definition validate_event :: "(string \<times> json) list \<Rightarrow> lifecycle_event res" where
  "validate_event d =
     (case (str_field ''type'' d, str_field ''incident_id'' d, str_field ''service'' d, str_field ''ts'' d,
            str_field ''title'' d) of
        (Inr ty, Inr i, Inr s, Inr t, Inr title) \<Rightarrow>
          Inr \<lparr>le_type = ty, le_incident = i, le_service = s, le_ts = t, le_title = title\<rparr>
      | _ \<Rightarrow> Inl ValueError)"

definition rename_status :: "(string \<times> json) list \<Rightarrow> (string \<times> json) list" where
  "rename_status d =
     (case (map_of d ''type'', map_of d ''status'') of
        (None, Some v) \<Rightarrow> set_key ''type'' v (pop_key ''status'' d)
      | _ \<Rightarrow> d)"

definition default_title :: "(string \<times> json) list \<Rightarrow> (string \<times> json) list" where
  "default_title d =
     set_key ''title'' (case map_of d ''title'' of
        None \<Rightarrow> JStr [] | Some v \<Rightarrow> if falsy v then JStr [] else v) d"

text \<open>\<^verbatim>\<open>from_json\<close> after \<^verbatim>\<open>json.loads\<close>; a value that is no object fails where the code first touches it.\<close>

definition event_of_json :: "json \<Rightarrow> lifecycle_event res" where
  "event_of_json v =
     (case v of
        JObj d \<Rightarrow>
          let d1 = rename_status d
          in if map_of d1 ''type'' = None then Inl KeyError else validate_event (default_title d1)
      | JArr xs \<Rightarrow>
          if JStr ''type'' \<in> set xs then Inl AttributeError
          else if JStr ''status'' \<in> set xs then Inl TypeError else Inl KeyError
      | JStr s \<Rightarrow>
          if contains ''type'' s \<or> contains ''status'' s then Inl AttributeError else Inl KeyError
      | _ \<Rightarrow> Inl TypeError)"

definition json_of_event :: "lifecycle_event \<Rightarrow> json" where
  "json_of_event ev = JObj
     [(''type'', JStr (le_type ev)), (''incident_id'', JStr (le_incident ev)), (''service'', JStr (le_service ev)),
      (''ts'', JStr (le_ts ev)), (''title'', JStr (le_title ev))]"

text \<open>A published lifecycle event is read back as it was written, and so is the same message with the
  legacy field name \<^verbatim>\<open>status\<close> in place of \<^verbatim>\<open>type\<close>, or with no title at all.\<close>

theorem event_roundtrip:
  "event_of_json (json_of_event ev) = Inr ev
   \<and> event_of_json (JObj [(''incident_id'', JStr (le_incident ev)), (''service'', JStr (le_service ev)),
        (''ts'', JStr (le_ts ev)), (''title'', JStr (le_title ev)), (''status'', JStr (le_type ev))]) = Inr ev
   \<and> event_of_json (JObj [(''type'', JStr (le_type ev)), (''incident_id'', JStr (le_incident ev)),
        (''service'', JStr (le_service ev)), (''ts'', JStr (le_ts ev))]) = Inr (ev\<lparr>le_title := []\<rparr>)"
  by (simp add: event_of_json_def json_of_event_def rename_status_def default_title_def validate_event_def
      str_field_def set_key_def pop_key_def Let_def)

end
