(* ===== verification/Iso.thy ===== *)
theory Iso
  imports Civil
begin

section \<open>ISO timestamps (\<^verbatim>\<open>datetime.fromisoformat\<close>, \<^verbatim>\<open>datetime.isoformat\<close>)\<close>

text \<open>
  The program passes timestamps around as ISO 8601 text. \<open>fromisoformat\<close> reads the calendar-date
  forms Python accepts (basic and extended, any one-character separator, a fraction of any
  length cut to microseconds, \<open>Z\<close> or a numeric offset) into local time and offset; \<^verbatim>\<open>None\<close> is a
  \<^verbatim>\<open>ValueError\<close>. Week dates are not read. \<open>isoformat\<close> writes a UTC instant.
\<close>

definition all_digits :: "string \<Rightarrow> bool" where
  "all_digits s = list_all is_digit s"

definition take_digits :: "nat \<Rightarrow> string \<Rightarrow> (int \<times> string) option" where
  "take_digits n s =
     (if length s < n \<or> \<not> all_digits (take n s) then None else Some (int_of_digits (take n s), drop n s))"

text \<open>A date: its ordinal, and the rest of the text.\<close>

definition iso_date :: "string \<Rightarrow> (int \<times> string) option" where
  "iso_date s =
     (case take_digits 4 s of
        None \<Rightarrow> None
      | Some (y, r) \<Rightarrow>
          let extended = (case r of c # _ \<Rightarrow> c = CHR ''-'' | [] \<Rightarrow> False)
          in (case take_digits 2 (if extended then tl r else r) of
                None \<Rightarrow> None
              | Some (m, r2) \<Rightarrow>
                  if extended \<and> (r2 = [] \<or> hd r2 \<noteq> CHR ''-'') then None
                  else (case take_digits 2 (if extended then tl r2 else r2) of
                          None \<Rightarrow> None
                        | Some (d, r3) \<Rightarrow>
                            if valid_date y m d then Some (to_ordinal y m d, r3) else None)))"

text \<open>\<^verbatim>\<open>HH[[:]MM[[:]SS[.ffffff]]]\<close> in microseconds.\<close>

definition iso_fraction :: "string \<Rightarrow> int option" where
  "iso_fraction s =
     (case s of
        [] \<Rightarrow> Some 0
      | c # f \<Rightarrow>
          if c \<in> {CHR ''.'', CHR '',''} \<and> f \<noteq> [] \<and> all_digits f
          then Some (int_of_digits (take 6 (f @ replicate 6 CHR ''0''))) else None)"

definition iso_clock :: "string \<Rightarrow> time option" where
  "iso_clock s =
     (case take_digits 2 s of
        None \<Rightarrow> None
      | Some (h, []) \<Rightarrow> if h \<le> 23 then Some (hours h) else None
      | Some (h, r) \<Rightarrow>
          let extended = (hd r = CHR '':'')
          in (case take_digits 2 (if extended then tl r else r) of
                None \<Rightarrow> None
              | Some (m, []) \<Rightarrow> if h \<le> 23 \<and> m \<le> 59 then Some (hours h + minutes m) else None
              | Some (m, r2) \<Rightarrow>
                  if extended \<and> hd r2 \<noteq> CHR '':'' then None
                  else (case take_digits 2 (if extended then tl r2 else r2) of
                          None \<Rightarrow> None
                        | Some (sec, r3) \<Rightarrow>
                            (case iso_fraction r3 of
                               None \<Rightarrow> None
                             | Some f \<Rightarrow>
                                 if h \<le> 23 \<and> m \<le> 59 \<and> sec \<le> 59
                                 then Some (hours h + minutes m + seconds sec + f) else None))))"

definition is_offset_sign :: "char \<Rightarrow> bool" where
  "is_offset_sign c \<longleftrightarrow> c \<in> {CHR ''+'', CHR ''-'', CHR ''Z''}"

definition iso_offset :: "string \<Rightarrow> time option option" where
  "iso_offset s =
     (case s of
        [] \<Rightarrow> Some None
      | c # r \<Rightarrow>
          if c = CHR ''Z'' then (if r = [] then Some (Some 0) else None)
          else (case iso_clock r of
                  None \<Rightarrow> None
                | Some d \<Rightarrow> Some (Some (if c = CHR ''-'' then - d else d))))"

definition fromisoformat :: "string \<Rightarrow> (time \<times> time option) option" where
  "fromisoformat s =
     (case iso_date s of
        None \<Rightarrow> None
      | Some (n, []) \<Rightarrow> Some (days (n - EPOCH_ORDINAL), None)
      | Some (n, c # r) \<Rightarrow>
          (case iso_clock (takeWhile (\<lambda>c. \<not> is_offset_sign c) r) of
             None \<Rightarrow> None
           | Some t \<Rightarrow>
               (case iso_offset (dropWhile (\<lambda>c. \<not> is_offset_sign c) r) of
                  None \<Rightarrow> None
                | Some off \<Rightarrow> Some (days (n - EPOCH_ORDINAL) + t, off))))"

text \<open>\<^verbatim>\<open>s.replace("Z", "+00:00")\<close>, as every reader of a timestamp does first.\<close>

definition replace_z :: "string \<Rightarrow> string" where
  "replace_z s = concat (map (\<lambda>c. if c = CHR ''Z'' then ''+00:00'' else [c]) s)"

text \<open>An aware value is an instant; a naive one is read as UTC.\<close>

definition as_utc :: "time \<times> time option \<Rightarrow> time" where
  "as_utc p = (case snd p of None \<Rightarrow> fst p | Some off \<Rightarrow> fst p - off)"

definition pad6 :: "int \<Rightarrow> string" where
  "pad6 n = two (n div 10000) @ two (n div 100 mod 100) @ two (n mod 100)"

definition isoformat :: "time \<Rightarrow> string" where
  "isoformat t =
     (case clock_of t of (h, m, s) \<Rightarrow>
        fmt_date t @ ''T'' @ two h @ '':'' @ two m @ '':'' @ two s
        @ (let us = t mod 1000000 in if us = 0 then [] else ''.'' @ pad6 us) @ ''+00:00'')"

lemma iso_examples:
  "map_option as_utc (fromisoformat ''2024-03-01T12:30:00+00:00'') = Some 1709296200000000"
  "map_option as_utc (fromisoformat ''20240301T143000.5+0200'') = Some 1709296200500000"
  "map_option as_utc (fromisoformat ''2024-03-01 12:30'') = Some 1709296200000000"
  "fromisoformat ''2024-02-30T00:00:00Z'' = None"
  "isoformat 1709296200500000 = ''2024-03-01T12:30:00.500000+00:00''"
  by code_simp+

end
