(* ===== verification/Workers.thy ===== *)
theory Workers
  imports Interfaces
begin

section \<open>Several workers over one delivery slot\<close>

text \<open>
  The consumer may run in several processes against one database. A worker claims an incident,
  gathers and posts (which takes time, under its lease), then records the delivery or, when the
  post failed, releases the claim; it may die at any point. A post may also reach the channel while the
  call that made it raises: the worker still thinks it has posted nothing. \<open>worker_step\<close> interleaves these
  steps of any number of workers with the passage of time and with updates by other components that leave
  the slot's two columns alone. The steps are the statements of the three delivery paths in
  \<^verbatim>\<open>freshet/autopilot/consumer.py\<close>: claim, deliver, mark, release.

  \<open>posts\<close> lists what the channel shows, \<open>unrecorded\<close> the posts among them that no row will ever record: those
  of a worker that died before its mark, and those the code took for failures. Delivery is at least
  once: these are the posts that may be repeated. A run is timely when no worker is still busy after its
  lease has run out. The invariant \<open>slot_inv\<close> gives: on a timely run an incident is posted at most once more
  than it has unrecorded posts.
\<close>

datatype wstate = Idle | Holding string time | Posted string time

record slot_sys =
  rows :: "incident list"
  now_at :: time
  worker :: "nat \<Rightarrow> wstate"
  posts :: "string list"
  unrecorded :: "string list"

definition start_sys :: "incident list \<Rightarrow> time \<Rightarrow> slot_sys" where
  "start_sys t now = \<lparr>rows = t, now_at = now, worker = (\<lambda>_. Idle), posts = [], unrecorded = []\<rparr>"

definition same_slot ::
  "(incident \<Rightarrow> time option) \<Rightarrow> (incident \<Rightarrow> time option) \<Rightarrow> incident list \<Rightarrow> incident list \<Rightarrow> bool" where
  "same_slot held delivered t t' \<longleftrightarrow> (keyed inc_id t \<longrightarrow> keyed inc_id t')
     \<and> (\<forall>i r. row_of inc_id i t = Some r \<longrightarrow>
          (\<exists>r'. row_of inc_id i t' = Some r' \<and> held r' = held r \<and> delivered r' = delivered r))"

inductive worker_step ::
  "(time \<Rightarrow> string \<Rightarrow> incident list \<Rightarrow> bool \<times> incident list) \<Rightarrow>
   (string \<Rightarrow> incident list \<Rightarrow> incident list) \<Rightarrow>
   (time \<Rightarrow> string \<Rightarrow> incident list \<Rightarrow> incident list) \<Rightarrow>
   (incident \<Rightarrow> time option) \<Rightarrow> (incident \<Rightarrow> time option) \<Rightarrow> slot_sys \<Rightarrow> slot_sys \<Rightarrow> bool"
  for claim release mark held delivered where
  pass_time: "now_at s < t \<Longrightarrow> worker_step claim release mark held delivered s (s\<lparr>now_at := t\<rparr>)"
| claim_it: "worker s w = Idle \<Longrightarrow> claim (now_at s) i (rows s) = (True, t) \<Longrightarrow>
     worker_step claim release mark held delivered s
       (s\<lparr>rows := t, worker := (worker s)(w := Holding i (now_at s))\<rparr>)"
| post_it: "worker s w = Holding i t \<Longrightarrow>
     worker_step claim release mark held delivered s
       (s\<lparr>worker := (worker s)(w := Posted i t), posts := i # posts s\<rparr>)"
| post_unseen: "worker s w = Holding i t \<Longrightarrow>
     worker_step claim release mark held delivered s (s\<lparr>posts := i # posts s, unrecorded := i # unrecorded s\<rparr>)"
| post_failed: "worker s w = Holding i t \<Longrightarrow>
     worker_step claim release mark held delivered s
       (s\<lparr>rows := release i (rows s), worker := (worker s)(w := Idle)\<rparr>)"
| mark_it: "worker s w = Posted i t \<Longrightarrow>
     worker_step claim release mark held delivered s
       (s\<lparr>rows := mark (now_at s) i (rows s), worker := (worker s)(w := Idle)\<rparr>)"
| die_early: "worker s w = Holding i t \<Longrightarrow>
     worker_step claim release mark held delivered s (s\<lparr>worker := (worker s)(w := Idle)\<rparr>)"
| die_late: "worker s w = Posted i t \<Longrightarrow>
     worker_step claim release mark held delivered s
       (s\<lparr>worker := (worker s)(w := Idle), unrecorded := i # unrecorded s\<rparr>)"
| others: "same_slot held delivered (rows s) t \<Longrightarrow>
     worker_step claim release mark held delivered s (s\<lparr>rows := t\<rparr>)"

definition timely :: "slot_sys \<Rightarrow> bool" where
  "timely s \<longleftrightarrow> (\<forall>w i t. worker s w = Holding i t \<or> worker s w = Posted i t \<longrightarrow>
     now_at s \<le> t + minutes LEASE_MINUTES)"

inductive timely_run ::
  "(time \<Rightarrow> string \<Rightarrow> incident list \<Rightarrow> bool \<times> incident list) \<Rightarrow>
   (string \<Rightarrow> incident list \<Rightarrow> incident list) \<Rightarrow>
   (time \<Rightarrow> string \<Rightarrow> incident list \<Rightarrow> incident list) \<Rightarrow>
   (incident \<Rightarrow> time option) \<Rightarrow> (incident \<Rightarrow> time option) \<Rightarrow> slot_sys \<Rightarrow> slot_sys \<Rightarrow> bool"
  for claim release mark held delivered where
  run_done: "timely_run claim release mark held delivered s s"
| run_step: "timely_run claim release mark held delivered s u \<Longrightarrow>
     worker_step claim release mark held delivered u v \<Longrightarrow> timely v \<Longrightarrow>
     timely_run claim release mark held delivered s v"

subsection \<open>The invariant\<close>

definition busy_at :: "wstate \<Rightarrow> (string \<times> time) option" where
  "busy_at p = (case p of Idle \<Rightarrow> None | Holding i t \<Rightarrow> Some (i, t) | Posted i t \<Rightarrow> Some (i, t))"

lemma busy_at_simps [simp]:
  "busy_at Idle = None" "busy_at (Holding i t) = Some (i, t)" "busy_at (Posted i t) = Some (i, t)"
  by (simp_all add: busy_at_def)

definition posted_by :: "wstate \<Rightarrow> string \<Rightarrow> bool" where
  "posted_by p i \<longleftrightarrow> (case p of Posted j t \<Rightarrow> j = i | _ \<Rightarrow> False)"

lemma posted_by_simps [simp]:
  "posted_by Idle i = False" "posted_by (Holding j t) i = False" "posted_by (Posted j t) i = (j = i)"
  by (simp_all add: posted_by_def)

text \<open>What the workers and the row know of a post: a worker is about to mark it, or the row is marked.\<close>

definition recorded ::
  "(incident \<Rightarrow> time option) \<Rightarrow> slot_sys \<Rightarrow> string \<Rightarrow> bool" where
  "recorded delivered s i \<longleftrightarrow> (\<exists>w. posted_by (worker s w) i)
     \<or> (\<exists>r. row_of inc_id i (rows s) = Some r \<and> delivered r \<noteq> None)"

definition slot_inv ::
  "(incident \<Rightarrow> time option) \<Rightarrow> (incident \<Rightarrow> time option) \<Rightarrow> slot_sys \<Rightarrow> bool" where
  "slot_inv held delivered s \<longleftrightarrow> keyed inc_id (rows s)
     \<and> (\<forall>w i t. busy_at (worker s w) = Some (i, t) \<longrightarrow>
          (\<exists>r. row_of inc_id i (rows s) = Some r \<and> held r = Some t \<and> delivered r = None))
     \<and> (\<forall>w w' i t t'. busy_at (worker s w) = Some (i, t) \<longrightarrow> busy_at (worker s w') = Some (i, t') \<longrightarrow> w = w')
     \<and> (\<forall>i. count_list (posts s) i \<le> count_list (unrecorded s) i + of_bool (recorded delivered s i))"

text \<open>What a run promises of the channel: an incident is shown again only after a post of it that was never
  recorded, and not at all when there was none.\<close>

definition repeats_only_unrecorded :: "slot_sys \<Rightarrow> bool" where
  "repeats_only_unrecorded s \<longleftrightarrow> (\<forall>i. count_list (posts s) i \<le> Suc (count_list (unrecorded s) i))
     \<and> (unrecorded s = [] \<longrightarrow> distinct (posts s))"

lemma distinct_count: "(\<And>x. count_list xs x \<le> 1) \<Longrightarrow> distinct xs"
proof (induction xs)
  case (Cons x xs)
  have "count_list xs y \<le> 1" for y using Cons.prems [of y] by (simp split: if_splits)
  moreover from Cons.prems [of x] have "x \<notin> set xs" by (simp add: count_list_0_iff)
  ultimately show ?case using Cons.IH by simp
qed simp

lemma slot_inv_repeats: "slot_inv held delivered s \<Longrightarrow> repeats_only_unrecorded s"
proof -
  assume "slot_inv held delivered s"
  then have c: "count_list (posts s) i \<le> count_list (unrecorded s) i + of_bool (recorded delivered s i)" for i
    by (simp add: slot_inv_def)
  have "count_list (posts s) i \<le> Suc (count_list (unrecorded s) i)" for i
    using c [of i] by (cases "recorded delivered s i") auto
  then show ?thesis by (auto simp: repeats_only_unrecorded_def intro!: distinct_count)
qed

lemma slot_inv_start: "keyed inc_id t \<Longrightarrow> slot_inv held delivered (start_sys t now)"
  by (simp add: slot_inv_def start_sys_def)

lemma timely_busy: "timely s \<Longrightarrow> busy_at (worker s w) = Some (i, t) \<Longrightarrow> now_at s \<le> t + minutes LEASE_MINUTES"
  by (cases "worker s w") (auto simp: timely_def)

text \<open>Facts about one row that survive a change of the table.\<close>

lemma slot_invD:
  assumes "slot_inv held delivered s"
  shows "keyed inc_id (rows s)"
    and "busy_at (worker s w) = Some (i, t) \<Longrightarrow>
      \<exists>r. row_of inc_id i (rows s) = Some r \<and> held r = Some t \<and> delivered r = None"
    and "busy_at (worker s w) = Some (i, t) \<Longrightarrow> busy_at (worker s w') = Some (i, t') \<Longrightarrow> w = w'"
    and "count_list (posts s) i \<le> count_list (unrecorded s) i + of_bool (recorded delivered s i)"
  using assms unfolding slot_inv_def by blast+

lemma slot_invI:
  assumes "keyed inc_id (rows s)"
    and "\<And>w i t. busy_at (worker s w) = Some (i, t) \<Longrightarrow>
      \<exists>r. row_of inc_id i (rows s) = Some r \<and> held r = Some t \<and> delivered r = None"
    and "\<And>w w' i t t'. busy_at (worker s w) = Some (i, t) \<Longrightarrow> busy_at (worker s w') = Some (i, t') \<Longrightarrow> w = w'"
    and "\<And>i. count_list (posts s) i \<le> count_list (unrecorded s) i + of_bool (recorded delivered s i)"
  shows "slot_inv held delivered s"
  using assms unfolding slot_inv_def by blast

text \<open>A worker that still holds its claim: nothing of its incident is recorded.\<close>

lemma holding_unrecorded:
  assumes "slot_inv held delivered s" and "worker s w = Holding i t"
  shows "\<not> recorded delivered s i"
proof
  note D = slot_invD [OF assms(1)]
  have b: "busy_at (worker s w) = Some (i, t)" using assms(2) by simp
  assume "recorded delivered s i"
  then obtain v where v: "posted_by (worker s v) i" using D(2) [OF b] by (auto simp: recorded_def)
  then obtain t' where "busy_at (worker s v) = Some (i, t')" by (cases "worker s v") auto
  with D(3) [OF b] have "v = w" by simp
  with v assms(2) show False by simp
qed

text \<open>Leaving the slot: the worker turns idle, the table keeps the rows of the others.\<close>

lemma slot_inv_leave:
  assumes inv: "slot_inv held delivered s" and b: "busy_at (worker s w) = Some (i, t)"
    and keyed: "keyed inc_id t'" and other: "\<And>j. j \<noteq> i \<Longrightarrow> row_of inc_id j t' = row_of inc_id j (rows s)"
    and here: "count_list (posts s) i \<le> count_list u i + of_bool (\<exists>r. row_of inc_id i t' = Some r \<and> delivered r \<noteq> None)"
    and u: "\<And>j. j \<noteq> i \<Longrightarrow> count_list u j = count_list (unrecorded s) j"
  shows "slot_inv held delivered (s\<lparr>rows := t', worker := (worker s)(w := Idle), unrecorded := u\<rparr>)"
    (is "slot_inv held delivered ?v")
proof (rule slot_invI)
  note D = slot_invD [OF inv]
  show "keyed inc_id (rows ?v)" using keyed by simp
  show "\<exists>r. row_of inc_id j (rows ?v) = Some r \<and> held r = Some t0 \<and> delivered r = None"
    if "busy_at (worker ?v v) = Some (j, t0)" for v j t0
  proof -
    have v: "busy_at (worker s v) = Some (j, t0)" "v \<noteq> w" using that by (auto split: if_splits)
    then have "j \<noteq> i" using D(3) [OF b, of v t0] by auto
    then show ?thesis using D(2) [OF v(1)] other by simp
  qed
  show "v = v'" if "busy_at (worker ?v v) = Some (j, t0)" "busy_at (worker ?v v') = Some (j, t1)" for v v' j t0 t1
    using that D(3) [of v j t0 v' t1] by (simp split: if_splits)
  show "count_list (posts ?v) j \<le> count_list (unrecorded ?v) j + of_bool (recorded delivered ?v j)" for j
  proof (cases "j = i")
    case True
    have "(\<exists>r. row_of inc_id i t' = Some r \<and> delivered r \<noteq> None) \<Longrightarrow> recorded delivered ?v i"
      by (simp add: recorded_def)
    with here True show ?thesis
      by (cases "recorded delivered ?v i") (auto simp: of_bool_def split: if_splits)
  next
    case False
    have "posted_by (worker s v) j \<Longrightarrow> v \<noteq> w" for v using b False by (cases "worker s v") auto
    then have "recorded delivered s j \<Longrightarrow> recorded delivered ?v j"
      using other [OF False] by (auto simp: recorded_def)
    with D(4) [of j] u [OF False] show ?thesis
      by (cases "recorded delivered s j") (auto simp: of_bool_def split: if_splits)
  qed
qed

context lease_slot begin

lemma inv_claim:
  assumes inv: "slot_inv held delivered s" and tm: "timely s"
    and idle: "worker s w = Idle" and cl: "claim (now_at s) i (rows s) = (True, t)"
  shows "slot_inv held delivered (s\<lparr>rows := t, worker := (worker s)(w := Holding i (now_at s))\<rparr>)"
    (is "slot_inv held delivered ?u")
proof -
  note D = slot_invD [OF inv]
  have ok: "fst (claim (now_at s) i (rows s))" and t: "t = snd (claim (now_at s) i (rows s))"
    using cl by simp_all
  obtain r where r: "row_of inc_id i (rows s) = Some r" "delivered r = None" "lease_free (now_at s) (held r)"
    using claim_obtains [OF ok D(1)] by metis
  obtain r' where r': "row_of inc_id i t = Some r'" "held r' = Some (now_at s)" "delivered r' = None"
    using claim_row [OF ok D(1) r(1)] r(2) t by auto
  have free: "\<not> busy_at (worker s v) = Some (i, t0)" for v t0
    using D(2) [of v i t0] r timely_busy [OF tm, of v i t0] lease_held by fastforce
  have other: "j \<noteq> i \<Longrightarrow> row_of inc_id j t = row_of inc_id j (rows s)" for j
    using claim_other t by simp
  have keyed: "keyed inc_id t" using claim_keyed [OF D(1)] t by simp
  have rows_ok: "\<exists>q. row_of inc_id j t = Some q \<and> held q = Some t0 \<and> delivered q = None"
    if "busy_at (worker ?u v) = Some (j, t0)" for v j t0
    using that D(2) [of v j t0] free [of v t0] other [of j] r'
    by (cases "v = w"; cases "j = i") auto
  have kept: "recorded delivered s j \<Longrightarrow> recorded delivered ?u j" for j
  proof -
    assume "recorded delivered s j"
    moreover have "posted_by (worker s v) j \<Longrightarrow> j \<noteq> i" for v
      using free [of v] by (cases "worker s v") auto
    ultimately have "j \<noteq> i" using r(1,2) by (auto simp: recorded_def)
    moreover have "posted_by (worker s v) j \<Longrightarrow> v \<noteq> w" for v using idle by auto
    ultimately show ?thesis using \<open>recorded delivered s j\<close> other [of j] by (auto simp: recorded_def)
  qed
  show ?thesis
  proof (rule slot_invI)
    show "keyed inc_id (rows ?u)" using keyed by simp
    show "\<exists>q. row_of inc_id j (rows ?u) = Some q \<and> held q = Some t0 \<and> delivered q = None"
      if "busy_at (worker ?u v) = Some (j, t0)" for v j t0
      using rows_ok [OF that] by simp
    show "v = v'" if "busy_at (worker ?u v) = Some (j, t0)" "busy_at (worker ?u v') = Some (j, t1)" for v v' j t0 t1
      using that free [of v t0] free [of v' t1] D(3) [of v j t0 v' t1] by (auto split: if_splits)
    show "count_list (posts ?u) j \<le> count_list (unrecorded ?u) j + of_bool (recorded delivered ?u j)" for j
      using D(4) [of j] kept [of j] by (cases "recorded delivered s j") (auto simp: of_bool_def split: if_splits)
  qed
qed

lemma inv_post:
  assumes inv: "slot_inv held delivered s" and h: "worker s w = Holding i t"
  shows "slot_inv held delivered (s\<lparr>worker := (worker s)(w := Posted i t), posts := i # posts s\<rparr>)"
    (is "slot_inv held delivered ?u")
proof -
  note D = slot_invD [OF inv]
  have same: "busy_at (worker ?u v) = busy_at (worker s v)" for v
    using h by simp
  have "posted_by (worker ?u w) i" by simp
  then have here: "recorded delivered ?u i" unfolding recorded_def by blast
  have "posted_by (worker s v) j \<Longrightarrow> v \<noteq> w" for v j using h by auto
  then have kept: "recorded delivered s j \<Longrightarrow> recorded delivered ?u j" for j
    by (auto simp: recorded_def)
  show ?thesis
  proof (rule slot_invI, unfold same)
    show "count_list (posts ?u) j \<le> count_list (unrecorded ?u) j + of_bool (recorded delivered ?u j)" for j
      using D(4) [of j] here holding_unrecorded [OF inv h] kept [of j]
      by (cases "recorded delivered s j"; cases "j = i") (auto simp: of_bool_def split: if_splits)
    show "\<exists>q. row_of inc_id j (rows ?u) = Some q \<and> held q = Some t0 \<and> delivered q = None"
      if "busy_at (worker s v) = Some (j, t0)" for v j t0
      using D(2) [OF that] by simp
  qed (simp_all add: D(1) D(3))
qed

lemma inv_post_unseen:
  "slot_inv held delivered s \<Longrightarrow> slot_inv held delivered (s\<lparr>posts := i # posts s, unrecorded := i # unrecorded s\<rparr>)"
  by (simp add: slot_inv_def recorded_def)

lemma inv_release:
  assumes inv: "slot_inv held delivered s" and h: "worker s w = Holding i t"
  shows "slot_inv held delivered (s\<lparr>rows := release i (rows s), worker := (worker s)(w := Idle)\<rparr>)"
proof -
  note D = slot_invD [OF inv]
  have b: "busy_at (worker s w) = Some (i, t)" using h by simp
  have "count_list (posts s) i \<le> count_list (unrecorded s) i"
    using D(4) [of i] holding_unrecorded [OF inv h] by simp
  then have "count_list (posts s) i \<le> count_list (unrecorded s) i
      + of_bool (\<exists>r. row_of inc_id i (release i (rows s)) = Some r \<and> delivered r \<noteq> None)" by simp
  from slot_inv_leave [OF inv b release_keyed [OF D(1)] release_other this] show ?thesis by simp
qed

lemma inv_mark:
  assumes inv: "slot_inv held delivered s" and h: "worker s w = Posted i t"
  shows "slot_inv held delivered (s\<lparr>rows := mark now i (rows s), worker := (worker s)(w := Idle)\<rparr>)"
proof -
  note D = slot_invD [OF inv]
  have b: "busy_at (worker s w) = Some (i, t)" using h by simp
  obtain r where r: "row_of inc_id i (rows s) = Some r" using D(2) [OF b] by blast
  obtain r' where r': "row_of inc_id i (mark now i (rows s)) = Some r'" "delivered r' = Some now"
    using mark_row [OF r] by blast
  have "count_list (posts s) i \<le> count_list (unrecorded s) i
      + of_bool (\<exists>r. row_of inc_id i (mark now i (rows s)) = Some r \<and> delivered r \<noteq> None)"
    using D(4) [of i] r' by (auto simp: of_bool_def split: if_splits)
  from slot_inv_leave [OF inv b mark_keyed [OF D(1)] mark_other this] show ?thesis by simp
qed

lemma inv_die_early:
  assumes inv: "slot_inv held delivered s" and h: "worker s w = Holding i t"
  shows "slot_inv held delivered (s\<lparr>worker := (worker s)(w := Idle)\<rparr>)"
proof -
  note D = slot_invD [OF inv]
  have b: "busy_at (worker s w) = Some (i, t)" using h by simp
  have "count_list (posts s) i \<le> count_list (unrecorded s) i"
    using D(4) [of i] holding_unrecorded [OF inv h] by simp
  then have "count_list (posts s) i \<le> count_list (unrecorded s) i
      + of_bool (\<exists>r. row_of inc_id i (rows s) = Some r \<and> delivered r \<noteq> None)" by simp
  from slot_inv_leave [OF inv b D(1) refl this] show ?thesis by simp
qed

lemma inv_die_late:
  assumes inv: "slot_inv held delivered s" and h: "worker s w = Posted i t"
  shows "slot_inv held delivered (s\<lparr>worker := (worker s)(w := Idle), unrecorded := i # unrecorded s\<rparr>)"
proof -
  note D = slot_invD [OF inv]
  have b: "busy_at (worker s w) = Some (i, t)" using h by simp
  have "count_list (posts s) i \<le> count_list (i # unrecorded s) i
      + of_bool (\<exists>r. row_of inc_id i (rows s) = Some r \<and> delivered r \<noteq> None)"
    using D(4) [of i] by (auto simp: of_bool_def split: if_splits)
  from slot_inv_leave [OF inv b D(1) refl this] show ?thesis by simp
qed

lemma inv_others:
  assumes inv: "slot_inv held delivered s" and f: "same_slot held delivered (rows s) t"
  shows "slot_inv held delivered (s\<lparr>rows := t\<rparr>)"
proof -
  note D = slot_invD [OF inv]
  have keyed: "keyed inc_id t" using f D(1) by (simp add: same_slot_def)
  have row: "\<exists>r'. row_of inc_id i t = Some r' \<and> held r' = held r \<and> delivered r' = delivered r"
    if "row_of inc_id i (rows s) = Some r" for i r
    using f that by (auto simp: same_slot_def)
  have rows_ok: "\<exists>q. row_of inc_id j t = Some q \<and> held q = Some t0 \<and> delivered q = None"
    if "busy_at (worker s v) = Some (j, t0)" for v j t0
    using D(2) [OF that] row by fastforce
  have kept: "recorded delivered s j \<Longrightarrow> recorded delivered (s\<lparr>rows := t\<rparr>) j" for j
    using row [of j] by (fastforce simp: recorded_def)
  show ?thesis
  proof (rule slot_invI)
    show "count_list (posts (s\<lparr>rows := t\<rparr>)) j \<le> count_list (unrecorded (s\<lparr>rows := t\<rparr>)) j
        + of_bool (recorded delivered (s\<lparr>rows := t\<rparr>) j)" for j
      using D(4) [of j] kept [of j] by (cases "recorded delivered s j") (auto simp: of_bool_def split: if_splits)
  qed (use keyed rows_ok D(3) in \<open>simp_all, blast?\<close>)
qed

lemma inv_pass_time: "slot_inv held delivered s \<Longrightarrow> slot_inv held delivered (s\<lparr>now_at := t\<rparr>)"
  by (simp add: slot_inv_def recorded_def)

lemma inv_step:
  assumes "worker_step claim release mark held delivered s u"
    and "slot_inv held delivered s" and "timely s"
  shows "slot_inv held delivered u"
  using assms
  by cases (auto intro: inv_pass_time inv_claim inv_post inv_post_unseen inv_release inv_mark inv_die_early
      inv_die_late inv_others)

lemma inv_run:
  assumes "timely_run claim release mark held delivered s u"
    and "slot_inv held delivered s" and "timely s"
  shows "slot_inv held delivered u \<and> timely u"
  using assms by induction (auto intro: inv_step)

text \<open>On a timely run only an unrecorded post is ever repeated.\<close>

lemma posted_once:
  assumes "timely_run claim release mark held delivered (start_sys t now) u" and "keyed inc_id t"
  shows "repeats_only_unrecorded u"
proof -
  have "timely (start_sys t now)" by (simp add: timely_def start_sys_def)
  with inv_run [OF assms(1) slot_inv_start [OF assms(2)]] show ?thesis by (blast intro: slot_inv_repeats)
qed

end

end
