(* ===== verification/Consumer.thy ===== *)
theory Consumer
  imports Investigate Sinks Lifecycle Iso Workers
begin

section \<open>The autopilot consumer (\<^verbatim>\<open>freshet/autopilot/consumer.py\<close>)\<close>

text \<open>
  The statements on the \<^verbatim>\<open>incidents\<close> row, the handler of one lifecycle message, the drains that
  deliver what is due, and the idle-tick throttle. A delivery is always claim, gather, deliver,
  then mark on success or release on failure. The database is the state shared by all workers; a
  call here is one worker's sequence of statements, with the time its service calls take, while
  the interleaving of several workers is in \<open>Workers\<close>.
\<close>

definition DRAIN_INTERVAL_S :: real where
  "DRAIN_INTERVAL_S = 5"

definition MAX_BRIEF_AGE_S :: real where
  "MAX_BRIEF_AGE_S = 24 * 3600"

definition DRAIN_LIMIT :: nat where
  "DRAIN_LIMIT = 10"

definition INDEX_TIMEOUT :: time where
  "INDEX_TIMEOUT = seconds 10"

subsection \<open>Statements on the incident row\<close>

definition update_returning :: "('r \<Rightarrow> bool) \<Rightarrow> ('r \<Rightarrow> 'r) \<Rightarrow> 'r list \<Rightarrow> 'r option \<times> 'r list" where
  "update_returning p f t = (map_option f (find p t), update_rows p f t)"

definition claim_with ::
  "(time \<Rightarrow> incident \<Rightarrow> bool) \<Rightarrow> (time \<Rightarrow> incident \<Rightarrow> incident) \<Rightarrow> time \<Rightarrow> string \<Rightarrow> incident list \<Rightarrow> bool \<times> incident list" where
  "claim_with p f now i t =
     (case update_returning (\<lambda>r. inc_id r = i \<and> p now r) (f now) t of (r, t') \<Rightarrow> (r \<noteq> None, t'))"

definition set_incident :: "string \<Rightarrow> (incident \<Rightarrow> incident) \<Rightarrow> incident list \<Rightarrow> incident list" where
  "set_incident i f t = update_rows (\<lambda>r. inc_id r = i) f t"

definition brief_free :: "time \<Rightarrow> incident \<Rightarrow> bool" where
  "brief_free now r \<longleftrightarrow> brief_delivered_at r = None \<and> lease_free now (briefed_at r)"

definition postmortem_free :: "time \<Rightarrow> incident \<Rightarrow> bool" where
  "postmortem_free now r \<longleftrightarrow> postmortem_delivered_at r = None \<and> brief_delivered_at r \<noteq> None
     \<and> lease_free now (postmortem_at r)"

definition progress_free :: "time \<Rightarrow> incident \<Rightarrow> bool" where
  "progress_free now r \<longleftrightarrow> progress_delivered_at r = None \<and> brief_delivered_at r \<noteq> None
     \<and> lease_free now (progress_at r)"

definition claim_incident :: "time \<Rightarrow> string \<Rightarrow> incident list \<Rightarrow> bool \<times> incident list" where
  "claim_incident = claim_with brief_free (\<lambda>now r. r\<lparr>briefed_at := Some now\<rparr>)"

definition claim_postmortem :: "time \<Rightarrow> string \<Rightarrow> incident list \<Rightarrow> bool \<times> incident list" where
  "claim_postmortem = claim_with postmortem_free (\<lambda>now r. r\<lparr>postmortem_at := Some now\<rparr>)"

definition claim_progress :: "time \<Rightarrow> string \<Rightarrow> incident list \<Rightarrow> bool \<times> incident list" where
  "claim_progress = claim_with progress_free (\<lambda>now r. r\<lparr>progress_at := Some now\<rparr>)"

definition claim_deferred_postmortem :: "time \<Rightarrow> string \<Rightarrow> incident list \<Rightarrow> incident option \<times> incident list" where
  "claim_deferred_postmortem now i t =
     update_returning (\<lambda>r. inc_id r = i \<and> postmortem_needed r \<and> postmortem_free now r)
       (\<lambda>r. r\<lparr>postmortem_at := Some now\<rparr>) t"

definition claim_deferred_progress :: "time \<Rightarrow> string \<Rightarrow> incident list \<Rightarrow> incident option \<times> incident list" where
  "claim_deferred_progress now i t =
     update_returning (\<lambda>r. inc_id r = i \<and> progress_needed r \<and> progress_free now r)
       (\<lambda>r. r\<lparr>progress_at := Some now\<rparr>) t"

definition release_incident :: "string \<Rightarrow> incident list \<Rightarrow> incident list" where
  "release_incident i = set_incident i (\<lambda>r. r\<lparr>briefed_at := None\<rparr>)"

definition release_postmortem :: "string \<Rightarrow> incident list \<Rightarrow> incident list" where
  "release_postmortem i = set_incident i (\<lambda>r. r\<lparr>postmortem_at := None\<rparr>)"

definition release_progress :: "string \<Rightarrow> incident list \<Rightarrow> incident list" where
  "release_progress i = set_incident i (\<lambda>r. r\<lparr>progress_at := None\<rparr>)"

definition mark_brief_delivered ::
  "string option \<Rightarrow> string option \<Rightarrow> time \<Rightarrow> string \<Rightarrow> incident list \<Rightarrow> incident list" where
  "mark_brief_delivered ts_new channel now i =
     set_incident i (\<lambda>r. r\<lparr>brief_delivered_at := Some now, brief_due_at := None,
       slack_ts := coalesce ts_new (slack_ts r), slack_channel_id := coalesce channel (slack_channel_id r)\<rparr>)"

definition mark_postmortem_delivered :: "time \<Rightarrow> string \<Rightarrow> incident list \<Rightarrow> incident list" where
  "mark_postmortem_delivered now i =
     set_incident i (\<lambda>r. r\<lparr>postmortem_delivered_at := Some now, postmortem_needed := False\<rparr>)"

definition mark_progress_delivered :: "time \<Rightarrow> string \<Rightarrow> incident list \<Rightarrow> incident list" where
  "mark_progress_delivered now i =
     set_incident i (\<lambda>r. r\<lparr>progress_delivered_at := Some now, progress_needed := False\<rparr>)"

definition schedule_brief :: "time \<Rightarrow> time \<Rightarrow> string \<Rightarrow> incident list \<Rightarrow> incident list" where
  "schedule_brief window now i =
     update_rows (\<lambda>r. inc_id r = i \<and> brief_delivered_at r = None \<and> brief_due_at r = None)
       (\<lambda>r. r\<lparr>brief_due_at := Some (now + window)\<rparr>)"

definition defer_postmortem :: "string \<Rightarrow> incident list \<Rightarrow> incident list" where
  "defer_postmortem i =
     update_rows (\<lambda>r. inc_id r = i \<and> postmortem_delivered_at r = None) (\<lambda>r. r\<lparr>postmortem_needed := True\<rparr>)"

definition defer_progress :: "string \<Rightarrow> incident list \<Rightarrow> incident list" where
  "defer_progress i =
     update_rows (\<lambda>r. inc_id r = i \<and> progress_delivered_at r = None) (\<lambda>r. r\<lparr>progress_needed := True\<rparr>)"

definition mark_resolved :: "time \<Rightarrow> string \<Rightarrow> incident list \<Rightarrow> incident list" where
  "mark_resolved t i = set_incident i (\<lambda>r. r\<lparr>resolved_at := coalesce (resolved_at r) (Some t)\<rparr>)"

definition due_now :: "time \<Rightarrow> incident \<Rightarrow> bool" where
  "due_now now r \<longleftrightarrow> (case brief_due_at r of None \<Rightarrow> False | Some t \<Rightarrow> t \<le> now) \<and> brief_delivered_at r = None"

definition service_or_blank :: "incident \<Rightarrow> string" where
  "service_or_blank r = (case primary_service r of None \<Rightarrow> [] | Some s \<Rightarrow> s)"

definition due_incidents :: "nat \<Rightarrow> time \<Rightarrow> incident list \<Rightarrow> (string \<times> string) list" where
  "due_incidents limit now t =
     map (\<lambda>r. (inc_id r, service_or_blank r)) (take limit (sort_key (the \<circ> brief_due_at) (filter (due_now now) t)))"

definition followup_pending :: "time \<Rightarrow> incident \<Rightarrow> bool" where
  "followup_pending now r \<longleftrightarrow>
     (progress_needed r \<and> progress_free now r) \<or> (postmortem_needed r \<and> postmortem_free now r)"

definition pending_followups :: "search_engine \<Rightarrow> nat \<Rightarrow> time \<Rightarrow> incident list \<Rightarrow> string list" where
  "pending_followups eng limit now t =
     map inc_id (take limit (sort_key (the \<circ> brief_delivered_at)
       (sort_key (collation eng \<circ> inc_id) (filter (followup_pending now) t))))"

subsection \<open>One worker's calls\<close>

definition on_incidents :: "(incident list \<Rightarrow> incident list) \<Rightarrow> 'e world \<Rightarrow> 'e world" where
  "on_incidents f w = w\<lparr>db := (db w)\<lparr>incidents := f (incidents (db w))\<rparr>\<rparr>"

record 'e autopilot =
  ap_engine :: search_engine
  ap_composer :: "'e composer option"
  ap_embedder :: "'e embedder option"
  ap_sink :: "'e sink"

definition indexed_count :: "string \<Rightarrow> database \<Rightarrow> nat" where
  "indexed_count i d = length (filter (\<lambda>r. v_incident r = Some i) (vector_records d))"

function wait_until :: "string \<Rightarrow> time \<Rightarrow> 'e world \<Rightarrow> nat \<times> 'e world" where
  "wait_until i deadline w =
     (let n = indexed_count i (db w)
      in if n \<noteq> 0 \<or> deadline \<le> clock w then (n, w) else wait_until i deadline (sleep 500000 w))"
  by pat_completeness auto
termination
  by (relation "measure (\<lambda>(i, deadline, w). nat (deadline - clock w))") auto

declare wait_until.simps [simp del]

definition wait_for_index :: "string \<Rightarrow> time \<Rightarrow> 'e world \<Rightarrow> nat \<times> 'e world" where
  "wait_for_index i timeout w = wait_until i (clock w + timeout) w"

text \<open>Gather, deliver, then mark; a failure releases the claim and is raised again.\<close>

definition attempt ::
  "('e world, findings) call \<Rightarrow> (findings \<Rightarrow> ('e world, string option) call) \<Rightarrow>
   (incident list \<Rightarrow> incident list) \<Rightarrow> (string option \<Rightarrow> 'e world \<Rightarrow> 'e world) \<Rightarrow> ('e world, string option) call" where
  "attempt gathering post release mark w =
     (case gathering w of
        (Inl e, w1) \<Rightarrow> (Inl e, on_incidents release w1)
      | (Inr f, w1) \<Rightarrow>
          (case post f w1 of
             (Inl e, w2) \<Rightarrow> (Inl e, on_incidents release w2)
           | (Inr t, w2) \<Rightarrow> (Inr t, mark t w2)))"

definition slack_ts_of :: "string \<Rightarrow> database \<Rightarrow> string option" where
  "slack_ts_of i d = Option.bind (row_of inc_id i (incidents d)) slack_ts"

definition attempt_progress :: "'e autopilot \<Rightarrow> string \<Rightarrow> string \<Rightarrow> string option \<Rightarrow> ('e world, string option) call" where
  "attempt_progress ap service i thread =
     attempt (gather_findings (ap_engine ap) service i ''in_progress'' (ap_composer ap) None)
       (\<lambda>f. deliver (ap_sink ap) f thread) (release_progress i)
       (\<lambda>t w. on_incidents (mark_progress_delivered (clock w) i) w)"

definition attempt_postmortem :: "'e autopilot \<Rightarrow> string \<Rightarrow> string \<Rightarrow> string option \<Rightarrow> ('e world, string option) call" where
  "attempt_postmortem ap service i thread =
     attempt (gather_postmortem (ap_engine ap) service i (ap_composer ap) None)
       (\<lambda>f. deliver (ap_sink ap) f thread) (release_postmortem i)
       (\<lambda>t w. on_incidents (mark_postmortem_delivered (clock w) i) w)"

definition attempt_brief :: "'e autopilot \<Rightarrow> string \<Rightarrow> string \<Rightarrow> ('e world, string option) call" where
  "attempt_brief ap service i =
     attempt (gather_findings (ap_engine ap) service i ''open'' (ap_composer ap) (ap_embedder ap))
       (\<lambda>f. deliver (ap_sink ap) f None) (release_incident i)
       (\<lambda>t w. on_incidents (mark_brief_delivered t (last_channel_id (ap_sink ap) w) (clock w) i) w)"

definition unit_of :: "'a res \<times> 's \<Rightarrow> unit res \<times> 's" where
  "unit_of p = (case p of (Inl e, s) \<Rightarrow> (Inl e, s) | (Inr a, s) \<Rightarrow> (Inr (), s))"

text \<open>\<^verbatim>\<open>_event_ts\<close>: the event's time, read as UTC when naive, the present when unreadable.\<close>

definition event_ts :: "time \<Rightarrow> lifecycle_event \<Rightarrow> time" where
  "event_ts now ev = (case fromisoformat (replace_z (le_ts ev)) of None \<Rightarrow> now | Some p \<Rightarrow> as_utc p)"

definition predates_opening :: "time \<Rightarrow> lifecycle_event \<Rightarrow> database \<Rightarrow> bool" where
  "predates_opening now ev d =
     (case row_of inc_id (le_incident ev) (incidents d) of
        None \<Rightarrow> False | Some r \<Rightarrow> event_ts now ev < opened_at r)"

definition ensure_and_schedule :: "time \<Rightarrow> lifecycle_event \<Rightarrow> 'e world \<Rightarrow> 'e world" where
  "ensure_and_schedule window ev w =
     on_incidents (schedule_brief window (clock w) (le_incident ev))
       (w\<lparr>db := ensure_incident (Some (le_incident ev)) (le_service ev) (event_ts (clock w) ev) (le_title ev) (db w)\<rparr>)"

definition handle_opened :: "time \<Rightarrow> lifecycle_event \<Rightarrow> ('e world, unit) call" where
  "handle_opened window ev w =
     (if MAX_BRIEF_AGE_S < total_seconds (clock w - event_ts (clock w) ev) then (Inr (), w)
      else (Inr (), ensure_and_schedule window ev w))"

definition handle_in_progress :: "'e autopilot \<Rightarrow> time \<Rightarrow> lifecycle_event \<Rightarrow> ('e world, unit) call" where
  "handle_in_progress ap window ev w =
     (let i = le_incident ev in
      if predates_opening (clock w) ev (db w) then (Inr (), w)
      else let w1 = on_incidents (defer_progress i) (ensure_and_schedule window ev w);
               (claimed, t) = claim_progress (clock w1) i (incidents (db w1))
           in if \<not> claimed then (Inr (), on_incidents (\<lambda>_. t) w1)
              else unit_of (attempt_progress ap (le_service ev) i (slack_ts_of i (db w1)) (on_incidents (\<lambda>_. t) w1)))"

definition handle_resolved :: "'e autopilot \<Rightarrow> lifecycle_event \<Rightarrow> ('e world, unit) call" where
  "handle_resolved ap ev w =
     (let i = le_incident ev in
      if predates_opening (clock w) ev (db w) then (Inr (), w)
      else let w1 = on_incidents (defer_postmortem i \<circ> mark_resolved (event_ts (clock w) ev) i) w;
               (claimed, t) = claim_postmortem (clock w1) i (incidents (db w1))
           in if \<not> claimed then (Inr (), on_incidents (\<lambda>_. t) w1)
              else unit_of (attempt_postmortem ap (le_service ev) i (slack_ts_of i (db w1)) (on_incidents (\<lambda>_. t) w1)))"

definition handle_event :: "'e autopilot \<Rightarrow> time \<Rightarrow> lifecycle_event \<Rightarrow> ('e world, unit) call" where
  "handle_event ap window ev w =
     (if le_type ev = ''opened'' then handle_opened window ev w
      else if le_type ev = ''in_progress'' then handle_in_progress ap window ev w
      else if le_type ev = ''resolved'' then handle_resolved ap ev w
      else (Inr (), w))"

definition handle_lifecycle :: "'e autopilot \<Rightarrow> time \<Rightarrow> json res \<Rightarrow> ('e world, unit) call" where
  "handle_lifecycle ap window raw w =
     (case raw of
        Inl e \<Rightarrow> (Inl e, w)
      | Inr v \<Rightarrow> (case event_of_json v of Inl e \<Rightarrow> (Inl e, w) | Inr ev \<Rightarrow> handle_event ap window ev w))"

subsection \<open>Draining\<close>

definition deliver_deferred_progress :: "'e autopilot \<Rightarrow> string \<Rightarrow> ('e world, bool) call" where
  "deliver_deferred_progress ap i w =
     (case claim_deferred_progress (clock w) i (incidents (db w)) of
        (None, t) \<Rightarrow> (Inr False, on_incidents (\<lambda>_. t) w)
      | (Some r, t) \<Rightarrow>
          (case attempt_progress ap (service_or_blank r) i (slack_ts r) (on_incidents (\<lambda>_. t) w) of
             (Inl e, w1) \<Rightarrow> (Inl e, w1)
           | (Inr x, w1) \<Rightarrow> (Inr True, w1)))"

definition deliver_deferred_postmortem :: "'e autopilot \<Rightarrow> string \<Rightarrow> ('e world, bool) call" where
  "deliver_deferred_postmortem ap i w =
     (case claim_deferred_postmortem (clock w) i (incidents (db w)) of
        (None, t) \<Rightarrow> (Inr False, on_incidents (\<lambda>_. t) w)
      | (Some r, t) \<Rightarrow>
          (case attempt_postmortem ap (service_or_blank r) i (slack_ts r) (on_incidents (\<lambda>_. t) w) of
             (Inl e, w1) \<Rightarrow> (Inl e, w1)
           | (Inr x, w1) \<Rightarrow> (Inr True, w1)))"

definition add_count :: "nat \<Rightarrow> nat res \<times> 's \<Rightarrow> nat res \<times> 's" where
  "add_count n p = (case p of (Inl e, s) \<Rightarrow> (Inl e, s) | (Inr k, s) \<Rightarrow> (Inr (n + k), s))"

fun drain_followups :: "'e autopilot \<Rightarrow> string list \<Rightarrow> ('e world, nat) call" where
  "drain_followups ap [] w = (Inr 0, w)"
| "drain_followups ap (i # is) w =
     (case deliver_deferred_progress ap i w of
        (Inl BudgetExhausted, w1) \<Rightarrow> (Inr 0, w1)
      | (Inl e, w1) \<Rightarrow> (Inl e, w1)
      | (Inr a, w1) \<Rightarrow>
          (case deliver_deferred_postmortem ap i w1 of
             (Inl BudgetExhausted, w2) \<Rightarrow> (Inr (of_bool a), w2)
           | (Inl e, w2) \<Rightarrow> (Inl e, w2)
           | (Inr b, w2) \<Rightarrow> add_count (of_bool a + of_bool b) (drain_followups ap is w2)))"

definition drain_pending_followups :: "'e autopilot \<Rightarrow> nat \<Rightarrow> ('e world, nat) call" where
  "drain_pending_followups ap limit w =
     drain_followups ap (pending_followups (ap_engine ap) limit (clock w) (incidents (db w))) w"

fun drain_briefs :: "'e autopilot \<Rightarrow> time \<Rightarrow> (string \<times> string) list \<Rightarrow> ('e world, nat) call" where
  "drain_briefs ap timeout [] w = (Inr 0, w)"
| "drain_briefs ap timeout ((i, service) # due) w =
     (case claim_incident (clock w) i (incidents (db w)) of
        (False, t) \<Rightarrow> drain_briefs ap timeout due (on_incidents (\<lambda>_. t) w)
      | (True, t) \<Rightarrow>
          (case attempt_brief ap service i (snd (wait_for_index i timeout (on_incidents (\<lambda>_. t) w))) of
             (Inl BudgetExhausted, w1) \<Rightarrow> (Inr 0, w1)
           | (Inl e, w1) \<Rightarrow> (Inl e, w1)
           | (Inr x, w1) \<Rightarrow> add_count 1 (drain_briefs ap timeout due w1)))"

definition drain_due_briefs :: "'e autopilot \<Rightarrow> nat \<Rightarrow> time \<Rightarrow> ('e world, nat) call" where
  "drain_due_briefs ap limit timeout w =
     (case drain_briefs ap timeout (due_incidents limit (clock w) (incidents (db w))) w of
        (Inl e, w1) \<Rightarrow> (Inl e, w1)
      | (Inr n, w1) \<Rightarrow>
          (case drain_pending_followups ap limit w1 of
             (Inl e, w2) \<Rightarrow> (Inl e, w2)
           | (Inr k, w2) \<Rightarrow> (Inr n, w2)))"

definition handle_and_drain :: "'e autopilot \<Rightarrow> time \<Rightarrow> json res \<Rightarrow> ('e world, nat) call" where
  "handle_and_drain ap window raw w =
     (case handle_lifecycle ap window raw w of
        (Inl e, w1) \<Rightarrow> (Inl e, w1)
      | (Inr u, w1) \<Rightarrow> drain_due_briefs ap DRAIN_LIMIT INDEX_TIMEOUT w1)"

text \<open>\<^verbatim>\<open>DrainThrottle.__call__\<close>.\<close>

definition throttled_drain :: "'e autopilot \<Rightarrow> clock_throttle \<Rightarrow> 'e world \<Rightarrow> nat res \<times> clock_throttle \<times> 'e world" where
  "throttled_drain ap th w =
     (if \<not> throttle_due th (total_seconds (clock w)) then (Inr 0, th, w)
      else case drain_due_briefs ap DRAIN_LIMIT INDEX_TIMEOUT w of
             (r, w1) \<Rightarrow> (r, throttle_arm th (total_seconds (clock w)), w1))"

subsection \<open>The delivery slots honour the lease contract\<close>

lemma find_keyed:
  assumes "keyed inc_id t"
  shows "find (\<lambda>r. inc_id r = i \<and> p r) t = (case row_of inc_id i t of None \<Rightarrow> None | Some r \<Rightarrow> if p r then Some r else None)"
  using assms
proof (induction t)
  case (Cons x xs)
  then have k: "keyed inc_id xs" "inc_id x \<notin> inc_id ` set xs" by (simp_all add: keyed_def)
  then have "inc_id x = i \<Longrightarrow> row_of inc_id i xs = None" by (simp add: row_of_None_iff)
  with Cons.IH [OF k(1)] show ?case by (simp add: table_simps)
qed (simp add: table_simps)

lemma keyed_unique: "keyed inc_id t \<Longrightarrow> row_of inc_id i t = Some s \<Longrightarrow> r \<in> set t \<Longrightarrow> inc_id r = i \<Longrightarrow> r = s"
  by (metis option.inject row_of_Some_iff)

lemma claim_with_facts:
  assumes "\<And>r. inc_id (f now r) = inc_id r"
  shows "fst (claim_with p f now i t) \<longleftrightarrow> find (\<lambda>r. inc_id r = i \<and> p now r) t \<noteq> None"
    and "row_of inc_id j (snd (claim_with p f now i t)) =
      map_option (\<lambda>r. if inc_id r = i \<and> p now r then f now r else r) (row_of inc_id j t)"
    and "keyed inc_id (snd (claim_with p f now i t)) = keyed inc_id t"
  using assms by (simp_all add: claim_with_def update_returning_def row_of_update_rows keyed_update_rows)

lemma set_incident_facts:
  assumes "\<And>r. inc_id (f r) = inc_id r"
  shows "row_of inc_id j (set_incident i f t) = map_option (\<lambda>r. if inc_id r = i then f r else r) (row_of inc_id j t)"
    and "keyed inc_id (set_incident i f t) = keyed inc_id t"
  using assms by (simp_all add: set_incident_def row_of_update_rows keyed_update_rows)

lemma row_slot:
  assumes f: "\<And>now r. inc_id (f now r) = inc_id r \<and> held (f now r) = Some now \<and> delivered (f now r) = delivered r
      \<and> ready (f now r) = ready r"
    and g: "\<And>r. inc_id (g r) = inc_id r \<and> held (g r) = None \<and> delivered (g r) = delivered r \<and> ready (g r) = ready r"
    and m: "\<And>now r. inc_id (m now r) = inc_id r \<and> held (m now r) = held r \<and> delivered (m now r) = Some now"
    and p: "\<And>now r. p now r \<longleftrightarrow> delivered r = None \<and> ready r \<and> lease_free now (held r)"
  shows "lease_slot (claim_with p f) (\<lambda>i. set_incident i g) (\<lambda>now i. set_incident i (m now)) held delivered ready"
proof
  fix t :: "incident list" and now i
  assume k: "keyed inc_id t"
  show "fst (claim_with p f now i t) \<longleftrightarrow>
      (\<exists>r. row_of inc_id i t = Some r \<and> delivered r = None \<and> ready r \<and> lease_free now (held r))"
    using f p by (simp add: claim_with_facts find_keyed [OF k] split: option.split)
next
  fix now i r and t :: "incident list"
  assume "fst (claim_with p f now i t)" and k: "keyed inc_id t" and r: "row_of inc_id i t = Some r"
  then have "p now r" using f by (simp add: claim_with_facts find_keyed [OF k] split: if_splits)
  then show "\<exists>r'. row_of inc_id i (snd (claim_with p f now i t)) = Some r' \<and> held r' = Some now
      \<and> delivered r' = delivered r \<and> ready r' = ready r"
    using f r row_of_SomeD [OF r] by (simp add: claim_with_facts)
next
  fix j i :: string and now and t :: "incident list"
  assume "j \<noteq> i"
  then show "row_of inc_id j (snd (claim_with p f now i t)) = row_of inc_id j t"
    and "row_of inc_id j (set_incident i g t) = row_of inc_id j t"
    and "row_of inc_id j (set_incident i (m now) t) = row_of inc_id j t"
    using f g m row_of_SomeD [of inc_id j t]
    by (auto simp: claim_with_facts set_incident_facts map_option_case split: option.split)
next
  fix i r now and t :: "incident list"
  assume r: "row_of inc_id i t = Some r"
  show "\<exists>r'. row_of inc_id i (set_incident i g t) = Some r' \<and> held r' = None \<and> delivered r' = delivered r \<and> ready r' = ready r"
    and "\<exists>r'. row_of inc_id i (set_incident i (m now) t) = Some r' \<and> held r' = held r \<and> delivered r' = Some now"
    using g m row_of_SomeD [OF r] r by (simp_all add: set_incident_facts)
qed (use f g m in \<open>simp_all add: claim_with_facts set_incident_facts\<close>)

lemma release_set: "release_incident = (\<lambda>i. set_incident i (\<lambda>r. r\<lparr>briefed_at := None\<rparr>))"
  "release_postmortem = (\<lambda>i. set_incident i (\<lambda>r. r\<lparr>postmortem_at := None\<rparr>))"
  "release_progress = (\<lambda>i. set_incident i (\<lambda>r. r\<lparr>progress_at := None\<rparr>))"
  by (auto simp: release_incident_def release_postmortem_def release_progress_def)

interpretation brief_slot: lease_slot claim_incident release_incident "mark_brief_delivered ts_new channel"
    briefed_at brief_delivered_at "\<lambda>r. True" for ts_new channel
  unfolding claim_incident_def release_set mark_brief_delivered_def
  by (rule row_slot) (auto simp: brief_free_def)

interpretation progress_slot: lease_slot claim_progress release_progress mark_progress_delivered
    progress_at progress_delivered_at "\<lambda>r. brief_delivered_at r \<noteq> None"
  unfolding claim_progress_def release_set mark_progress_delivered_def
  by (rule row_slot) (auto simp: progress_free_def)

interpretation postmortem_slot: lease_slot claim_postmortem release_postmortem mark_postmortem_delivered
    postmortem_at postmortem_delivered_at "\<lambda>r. brief_delivered_at r \<noteq> None"
  unfolding claim_postmortem_def release_set mark_postmortem_delivered_def
  by (rule row_slot) (auto simp: postmortem_free_def)

text \<open>A deferred claim is the direct claim of the same slot, with the owed flag on top.\<close>

lemma deferred_progress_is_claim:
  assumes "claim_deferred_progress now i t = (Some r, t')" and "keyed inc_id t"
  shows "claim_progress now i t = (True, t') \<and> row_of inc_id i t' = Some r"
proof -
  from assms obtain s where s: "row_of inc_id i t = Some s" "progress_needed s \<and> progress_free now s"
    and r: "r = s\<lparr>progress_at := Some now\<rparr>"
    by (auto simp: claim_deferred_progress_def update_returning_def find_keyed split: option.splits if_splits)
  have "update_rows (\<lambda>r. inc_id r = i \<and> progress_needed r \<and> progress_free now r) (\<lambda>r. r\<lparr>progress_at := Some now\<rparr>) t
      = update_rows (\<lambda>r. inc_id r = i \<and> progress_free now r) (\<lambda>r. r\<lparr>progress_at := Some now\<rparr>) t"
    using s assms(2) by (auto simp: update_rows_def dest: keyed_unique)
  then show ?thesis
    using s assms by (auto simp: claim_deferred_progress_def claim_progress_def claim_with_def update_returning_def
        find_keyed row_of_update_rows dest: row_of_SomeD)
qed

lemma deferred_postmortem_is_claim:
  assumes "claim_deferred_postmortem now i t = (Some r, t')" and "keyed inc_id t"
  shows "claim_postmortem now i t = (True, t') \<and> row_of inc_id i t' = Some r"
proof -
  from assms obtain s where s: "row_of inc_id i t = Some s" "postmortem_needed s \<and> postmortem_free now s"
    and r: "r = s\<lparr>postmortem_at := Some now\<rparr>"
    by (auto simp: claim_deferred_postmortem_def update_returning_def find_keyed split: option.splits if_splits)
  have "update_rows (\<lambda>r. inc_id r = i \<and> postmortem_needed r \<and> postmortem_free now r) (\<lambda>r. r\<lparr>postmortem_at := Some now\<rparr>) t
      = update_rows (\<lambda>r. inc_id r = i \<and> postmortem_free now r) (\<lambda>r. r\<lparr>postmortem_at := Some now\<rparr>) t"
    using s assms(2) by (auto simp: update_rows_def dest: keyed_unique)
  then show ?thesis
    using s assms by (auto simp: claim_deferred_postmortem_def claim_postmortem_def claim_with_def update_returning_def
        find_keyed row_of_update_rows dest: row_of_SomeD)
qed

end
