(* ===== verification/Delivery.thy ===== *)
theory Delivery
  imports Consumer
begin

section \<open>What the consumer guarantees\<close>

text \<open>
  \<open>evolves\<close> relates the incident table before and after a piece of work: a delivered slot keeps
  its delivery, an owed brief or follow-up stays owed until it is delivered, a resolution keeps
  its time, and the row invariant is kept. Every statement the consumer issues evolves the table
  where it is issued, so every handler and drain does, on success and on failure. The other
  properties: failures release their claim, an exhausted budget only defers, and a drain delivers
  everything that is due.
\<close>

subsection \<open>The relation\<close>

definition row_ok :: "incident \<Rightarrow> bool" where
  "row_ok r \<longleftrightarrow> (brief_delivered_at r \<noteq> None \<longrightarrow> brief_due_at r = None)
     \<and> (progress_delivered_at r \<noteq> None \<longrightarrow> brief_delivered_at r \<noteq> None \<and> \<not> progress_needed r)
     \<and> (postmortem_delivered_at r \<noteq> None \<longrightarrow> brief_delivered_at r \<noteq> None \<and> \<not> postmortem_needed r)
     \<and> (postmortem_needed r \<longrightarrow> resolved_at r \<noteq> None)"

text \<open>A value that is set stays, a flag that is raised stays until its slot is delivered.\<close>

definition stays :: "'a option \<Rightarrow> 'a option \<Rightarrow> bool" where
  "stays a b \<longleftrightarrow> a \<noteq> None \<longrightarrow> b = a"

definition row_evolves :: "incident \<Rightarrow> incident \<Rightarrow> bool" where
  "row_evolves r r' \<longleftrightarrow>
     stays (brief_delivered_at r) (brief_delivered_at r')
     \<and> stays (progress_delivered_at r) (progress_delivered_at r')
     \<and> stays (postmortem_delivered_at r) (postmortem_delivered_at r')
     \<and> stays (resolved_at r) (resolved_at r')
     \<and> opened_at r' = opened_at r
     \<and> (brief_delivered_at r \<noteq> None \<longrightarrow> slack_ts r' = slack_ts r)
     \<and> (brief_delivered_at r' = None \<longrightarrow> stays (brief_due_at r) (brief_due_at r'))
     \<and> (progress_delivered_at r' = None \<longrightarrow> progress_needed r \<longrightarrow> progress_needed r')
     \<and> (postmortem_delivered_at r' = None \<longrightarrow> postmortem_needed r \<longrightarrow> postmortem_needed r')"

definition evolves :: "incident list \<Rightarrow> incident list \<Rightarrow> bool" where
  "evolves t t' \<longleftrightarrow> keyed inc_id t \<longrightarrow>
     keyed inc_id t' \<and> (list_all row_ok t \<longrightarrow> list_all row_ok t')
     \<and> (\<forall>i r. row_of inc_id i t = Some r \<longrightarrow> (\<exists>r'. row_of inc_id i t' = Some r' \<and> row_evolves r r'))"

lemma stays_simps [simp]: "stays None b" "stays a a" "stays (Some x) b \<longleftrightarrow> b = Some x"
  by (auto simp: stays_def)

lemma stays_trans: "stays a b \<Longrightarrow> stays b c \<Longrightarrow> stays a c"
  by (cases a) auto

lemma row_evolves_refl [simp]: "row_evolves r r"
  by (simp add: row_evolves_def)

lemma stays_back: "stays a b \<Longrightarrow> b = None \<Longrightarrow> a = None"
  by (cases a) auto

lemma stays_on: "stays a b \<Longrightarrow> a \<noteq> None \<Longrightarrow> b \<noteq> None"
  by (cases a) auto

lemma row_evolves_trans:
  assumes "row_evolves a b" and "row_evolves b c"
  shows "row_evolves a c"
proof -
  note A = assms(1) [unfolded row_evolves_def] and B = assms(2) [unfolded row_evolves_def]
  have "stays (brief_delivered_at a) (brief_delivered_at c)"
    by (rule stays_trans [of _ "brief_delivered_at b"]) (simp_all add: A B)
  moreover have "stays (progress_delivered_at a) (progress_delivered_at c)"
    by (rule stays_trans [of _ "progress_delivered_at b"]) (simp_all add: A B)
  moreover have "stays (postmortem_delivered_at a) (postmortem_delivered_at c)"
    by (rule stays_trans [of _ "postmortem_delivered_at b"]) (simp_all add: A B)
  moreover have "stays (resolved_at a) (resolved_at c)"
    by (rule stays_trans [of _ "resolved_at b"]) (simp_all add: A B)
  moreover have "opened_at c = opened_at a" by (simp add: A B)
  moreover have "slack_ts c = slack_ts a" if "brief_delivered_at a \<noteq> None"
    using that stays_on [of "brief_delivered_at a" "brief_delivered_at b"] by (simp add: A B)
  moreover have "stays (brief_due_at a) (brief_due_at c)" if c: "brief_delivered_at c = None"
  proof -
    have b: "brief_delivered_at b = None" by (rule stays_back [OF _ c]) (simp add: B)
    show ?thesis by (rule stays_trans [of _ "brief_due_at b"]) (simp_all add: A B b c)
  qed
  moreover have "progress_needed c" if c: "progress_delivered_at c = None" and a: "progress_needed a"
  proof -
    have b: "progress_delivered_at b = None" by (rule stays_back [OF _ c]) (simp add: B)
    show ?thesis by (simp add: A B a b c)
  qed
  moreover have "postmortem_needed c" if c: "postmortem_delivered_at c = None" and a: "postmortem_needed a"
  proof -
    have b: "postmortem_delivered_at b = None" by (rule stays_back [OF _ c]) (simp add: B)
    show ?thesis by (simp add: A B a b c)
  qed
  ultimately show ?thesis unfolding row_evolves_def by (intro conjI impI)
qed

lemma evolves_refl [simp, intro]: "evolves t t"
  by (auto simp: evolves_def)

lemma evolves_trans [trans]: "evolves t u \<Longrightarrow> evolves u v \<Longrightarrow> evolves t v"
  unfolding evolves_def by (meson row_evolves_trans)

text \<open>An \<open>UPDATE\<close> evolves the table if it does so on each row it changes.\<close>

lemma evolves_update:
  assumes "\<And>r. inc_id (f r) = inc_id r"
    and "\<And>r. keyed inc_id t \<Longrightarrow> r \<in> set t \<Longrightarrow> p r \<Longrightarrow> row_evolves r (f r) \<and> (row_ok r \<longrightarrow> row_ok (f r))"
  shows "evolves t (update_rows p f t)"
  unfolding evolves_def
proof (intro impI conjI allI)
  assume k: "keyed inc_id t"
  show "keyed inc_id (update_rows p f t)" using k by (simp add: keyed_update_rows assms(1))
  show "list_all row_ok (update_rows p f t)" if "list_all row_ok t"
    using that assms(2) [OF k] by (auto simp: update_rows_def list_all_iff)
  show "\<exists>r'. row_of inc_id i (update_rows p f t) = Some r' \<and> row_evolves r r'"
    if "row_of inc_id i t = Some r" for i r
    using that assms(2) [OF k] row_of_SomeD [OF that] by (auto simp: row_of_update_rows assms(1))
qed

lemmas evolution_simps = row_evolves_def row_ok_def

lemma evolves_claims:
  "evolves t (snd (claim_incident now i t))" "evolves t (snd (claim_progress now i t))"
  "evolves t (snd (claim_postmortem now i t))" "evolves t (snd (claim_deferred_progress now i t))"
  "evolves t (snd (claim_deferred_postmortem now i t))"
  by (auto simp: claim_incident_def claim_progress_def claim_postmortem_def claim_with_def update_returning_def
      claim_deferred_progress_def claim_deferred_postmortem_def evolution_simps intro!: evolves_update)

lemma evolves_releases:
  "evolves t (release_incident i t)" "evolves t (release_progress i t)" "evolves t (release_postmortem i t)"
  by (auto simp: release_incident_def release_progress_def release_postmortem_def set_incident_def evolution_simps
      intro!: evolves_update)

lemma evolves_intents:
  "evolves t (schedule_brief window now i t)" "evolves t (defer_progress i t)" "evolves t (mark_resolved x i t)"
  by (auto simp: schedule_brief_def defer_progress_def mark_resolved_def set_incident_def evolution_simps
      coalesce_def intro!: evolves_update split: option.splits)

lemma evolves_resolution: "evolves t (defer_postmortem i (mark_resolved x i t))"
proof -
  have "mark_resolved x i t = update_rows (\<lambda>r. inc_id r = i) (\<lambda>r. r\<lparr>resolved_at := coalesce (resolved_at r) (Some x)\<rparr>) t"
    by (simp add: mark_resolved_def set_incident_def)
  then have "defer_postmortem i (mark_resolved x i t) = update_rows (\<lambda>r. inc_id r = i)
      (\<lambda>r. if postmortem_delivered_at r = None
           then r\<lparr>resolved_at := coalesce (resolved_at r) (Some x), postmortem_needed := True\<rparr>
           else r\<lparr>resolved_at := coalesce (resolved_at r) (Some x)\<rparr>) t"
    by (simp add: defer_postmortem_def update_rows_def)
  then show ?thesis
    by (auto simp: evolution_simps coalesce_def intro!: evolves_update split: option.splits)
qed

text \<open>A mark evolves a table in which the row is undelivered (and, for follow-ups, briefed).\<close>

lemma evolves_set_row:
  assumes "\<And>r. inc_id (f r) = inc_id r"
    and "keyed inc_id t \<Longrightarrow> \<exists>r. row_of inc_id i t = Some r \<and> row_evolves r (f r) \<and> (row_ok r \<longrightarrow> row_ok (f r))"
  shows "evolves t (set_incident i f t)"
  unfolding set_incident_def
proof (rule evolves_update)
  fix r assume k: "keyed inc_id t" and r: "r \<in> set t" "inc_id r = i"
  from assms(2) [OF k] obtain s where s: "row_of inc_id i t = Some s" "row_evolves s (f s) \<and> (row_ok s \<longrightarrow> row_ok (f s))"
    by blast
  from keyed_unique [OF k s(1) r] s(2) show "row_evolves r (f r) \<and> (row_ok r \<longrightarrow> row_ok (f r))" by simp
qed (rule assms(1))

lemma evolves_mark_brief:
  assumes "keyed inc_id t \<Longrightarrow> \<exists>r. row_of inc_id i t = Some r \<and> brief_delivered_at r = None"
  shows "evolves t (mark_brief_delivered tsn chan now i t)"
  unfolding mark_brief_delivered_def
  by (rule evolves_set_row) (use assms in \<open>auto simp: evolution_simps\<close>)

lemma evolves_mark_progress:
  assumes "keyed inc_id t \<Longrightarrow> \<exists>r. row_of inc_id i t = Some r \<and> progress_delivered_at r = None \<and> brief_delivered_at r \<noteq> None"
  shows "evolves t (mark_progress_delivered now i t)"
  unfolding mark_progress_delivered_def
  by (rule evolves_set_row) (use assms in \<open>auto simp: evolution_simps\<close>)

lemma evolves_mark_postmortem:
  assumes "keyed inc_id t \<Longrightarrow> \<exists>r. row_of inc_id i t = Some r \<and> postmortem_delivered_at r = None \<and> brief_delivered_at r \<noteq> None"
  shows "evolves t (mark_postmortem_delivered now i t)"
  unfolding mark_postmortem_delivered_def
  by (rule evolves_set_row) (use assms in \<open>auto simp: evolution_simps\<close>)

subsection \<open>Every call evolves the table\<close>

text \<open>The autopilot the entry point builds: the budgeted composer around the model API, and a sink.\<close>

definition autopilot_with ::
  "search_engine \<Rightarrow> ('e, string, response) service \<Rightarrow> int \<Rightarrow> int \<Rightarrow> 'e embedder option \<Rightarrow> 'e sink \<Rightarrow> 'e autopilot" where
  "autopilot_with eng client hcap dcap emb sink =
     \<lparr>ap_engine = eng, ap_composer = Some (system_composer client hcap dcap), ap_embedder = emb, ap_sink = sink\<rparr>"

lemma on_incidents_simps [simp]:
  "incidents (db (on_incidents f w)) = f (incidents (db w))" "clock (on_incidents f w) = clock w"
  "llm_budget (db (on_incidents f w)) = llm_budget (db w)" "vector_records (db (on_incidents f w)) = vector_records (db w)"
  "env (on_incidents f w) = env w"
  by (simp_all add: on_incidents_def)

lemma wait_until_facts:
  "wait_until i deadline w = (n, w') \<Longrightarrow>
     db w' = db w \<and> n = indexed_count i (db w) \<and> clock w \<le> clock w' \<and> (n \<noteq> 0 \<or> deadline \<le> clock w')
     \<and> clock w' \<le> max (clock w) (deadline + 500000) \<and> env w' = env w"
proof (induction i deadline w rule: wait_until.induct)
  case (1 i deadline w)
  show ?case
  proof (cases "indexed_count i (db w) \<noteq> 0 \<or> deadline \<le> clock w")
    case True
    then have "wait_until i deadline w = (indexed_count i (db w), w)"
      by (simp add: wait_until.simps [of i deadline w] Let_def)
    with True "1.prems" show ?thesis by auto
  next
    case False
    then have "wait_until i deadline (sleep 500000 w) = (n, w')"
      using "1.prems" by (simp add: wait_until.simps [of i deadline w] Let_def)
    from "1.IH" [OF refl False this] False show ?thesis by auto
  qed
qed

lemma wait_for_index_frame [simp]:
  "db (snd (wait_for_index i timeout w)) = db w" "clock w \<le> clock (snd (wait_for_index i timeout w))"
  "env (snd (wait_for_index i timeout w)) = env w"
  using wait_until_facts [OF prod.collapse [symmetric], of i "clock w + timeout" w]
  by (simp_all add: wait_for_index_def)

lemma claimed_brief:
  assumes "claim_incident now i t = (True, t')" and "keyed inc_id t'"
  shows "\<exists>q. row_of inc_id i t' = Some q \<and> brief_delivered_at q = None"
proof -
  have c: "fst (claim_incident now i t)" "t' = snd (claim_incident now i t)" using assms(1) by simp_all
  have k: "keyed inc_id t" using assms by (simp add: c(2) claim_incident_def claim_with_facts)
  obtain r where r: "row_of inc_id i t = Some r" "brief_delivered_at r = None"
    using brief_slot.claim_obtains [OF c(1) k] by blast
  from brief_slot.claim_row [OF c(1) k r(1)] r(2) show ?thesis by (auto simp: c(2))
qed

lemma claimed_progress:
  assumes "claim_progress now i t = (True, t')" and "keyed inc_id t'"
  shows "\<exists>q. row_of inc_id i t' = Some q \<and> progress_delivered_at q = None \<and> brief_delivered_at q \<noteq> None"
proof -
  have c: "fst (claim_progress now i t)" "t' = snd (claim_progress now i t)" using assms(1) by simp_all
  have k: "keyed inc_id t" using assms by (simp add: c(2) claim_progress_def claim_with_facts)
  obtain r where r: "row_of inc_id i t = Some r" "progress_delivered_at r = None" "brief_delivered_at r \<noteq> None"
    using progress_slot.claim_obtains [OF c(1) k] by blast
  from progress_slot.claim_row [OF c(1) k r(1)] r(2,3) show ?thesis by (auto simp: c(2))
qed

lemma claimed_postmortem:
  assumes "claim_postmortem now i t = (True, t')" and "keyed inc_id t'"
  shows "\<exists>q. row_of inc_id i t' = Some q \<and> postmortem_delivered_at q = None \<and> brief_delivered_at q \<noteq> None"
proof -
  have c: "fst (claim_postmortem now i t)" "t' = snd (claim_postmortem now i t)" using assms(1) by simp_all
  have k: "keyed inc_id t" using assms by (simp add: c(2) claim_postmortem_def claim_with_facts)
  obtain r where r: "row_of inc_id i t = Some r" "postmortem_delivered_at r = None" "brief_delivered_at r \<noteq> None"
    using postmortem_slot.claim_obtains [OF c(1) k] by blast
  from postmortem_slot.claim_row [OF c(1) k r(1)] r(2,3) show ?thesis by (auto simp: c(2))
qed

lemma evolves_claim_pair:
  "claim_incident now i t = (c, t') \<Longrightarrow> evolves t t'" "claim_progress now i t = (c, t') \<Longrightarrow> evolves t t'"
  "claim_postmortem now i t = (c, t') \<Longrightarrow> evolves t t'"
  "claim_deferred_progress now i t = (x, t') \<Longrightarrow> evolves t t'"
  "claim_deferred_postmortem now i t = (x, t') \<Longrightarrow> evolves t t'"
  using evolves_claims [of t now i] by simp_all

lemma evolves_keyed: "evolves t t' \<Longrightarrow> keyed inc_id t \<Longrightarrow> keyed inc_id t'"
  by (simp add: evolves_def)

lemma evolves_if_keyed: "(keyed inc_id t \<Longrightarrow> evolves t t') \<Longrightarrow> evolves t t'"
  by (auto simp: evolves_def)

lemma list_all_upsert: "list_all P t \<Longrightarrow> P new \<Longrightarrow> (\<And>r. P r \<Longrightarrow> P (f r)) \<Longrightarrow> list_all P (upsert key new f t)"
  by (induction t) auto

lemma evolves_ensure: "evolves (incidents d) (incidents (ensure_incident io service opened title d))"
proof (cases "io = None \<or> io = Some []")
  case False
  then obtain i where i: "io = Some i" "i \<noteq> []" by auto
  let ?t = "incidents d" and ?t' = "ensure_incident_rows i service opened title (incidents d)"
  have "list_all row_ok ?t'" if "list_all row_ok ?t"
    using that unfolding ensure_incident_rows_def by (rule list_all_upsert) (simp_all add: row_ok_def new_incident_def refresh_incident_def)
  then have "evolves ?t ?t'"
    by (auto simp: evolves_def keyed_ensure row_of_ensure row_evolves_def refresh_incident_def split: option.split)
  with i show ?thesis by (simp add: ensure_incident_def)
qed (auto simp: ensure_incident_def)

definition moves_on :: "'e world \<Rightarrow> 'e world \<Rightarrow> bool" where
  "moves_on w w' \<longleftrightarrow> evolves (incidents (db w)) (incidents (db w')) \<and> clock w \<le> clock w'"

lemma moves_on_refl [simp, intro]: "moves_on w w"
  by (simp add: moves_on_def)

lemma moves_on_trans [trans]: "moves_on w v \<Longrightarrow> moves_on v u \<Longrightarrow> moves_on w u"
  by (auto simp: moves_on_def intro: evolves_trans)

lemma moves_on_incidents: "evolves (incidents (db w)) (f (incidents (db w))) \<Longrightarrow> moves_on w (on_incidents f w)"
  by (simp add: moves_on_def)

text \<open>A claim and the attempt under it move on together.\<close>

lemma claim_then_attempt:
  assumes "evolves (incidents (db w)) t" and "clock w \<le> clock w'"
    and "keyed inc_id (incidents (db w)) \<Longrightarrow> keyed inc_id t \<Longrightarrow> evolves t (incidents (db w'))"
  shows "moves_on w w'"
  unfolding moves_on_def using assms by (metis evolves_if_keyed evolves_keyed evolves_trans)

text \<open>The state in which the intent of a follow-up has been recorded; the rest of the handler moves on from it.\<close>

definition progress_recorded :: "time \<Rightarrow> lifecycle_event \<Rightarrow> 'e world \<Rightarrow> 'e world" where
  "progress_recorded window ev w = on_incidents (defer_progress (le_incident ev)) (ensure_and_schedule window ev w)"

definition resolution_recorded :: "lifecycle_event \<Rightarrow> 'e world \<Rightarrow> 'e world" where
  "resolution_recorded ev w =
     on_incidents (defer_postmortem (le_incident ev) \<circ> mark_resolved (event_ts (clock w) ev) (le_incident ev)) w"

locale autopilot_run = incident_narrator compose + messenger "deliver (ap_sink ap)"
  for compose :: "string \<Rightarrow> update list \<Rightarrow> ('e world, string) call" and ap :: "'e autopilot" +
  assumes composer: "ap_composer ap = Some compose"
begin

lemma attempt_cases:
  assumes "attempt gathering (\<lambda>f. deliver (ap_sink ap) f thread) release mark w = (r, w')"
    and "\<And>x w1. gathering w = (x, w1) \<Longrightarrow> same_but_budget (db w) (db w1) \<and> clock w \<le> clock w1"
  obtains (failed) e w2 where "r = Inl e" "w' = on_incidents release w2" "same_but_budget (db w) (db w2)" "clock w \<le> clock w2"
  | (posted) f w1 w2 t where "gathering w = (Inr f, w1)" "deliver (ap_sink ap) f thread w1 = (Inr t, w2)" "r = Inr t"
      "w' = mark t w2" "same_but_budget (db w) (db w2)" "clock w \<le> clock w2"
proof -
  obtain x w1 where g: "gathering w = (x, w1)" by fastforce
  note gf = assms(2) [OF g]
  show thesis
  proof (cases x)
    case (Inl e)
    with assms(1) g gf show thesis by (intro failed [of e w1]) (auto simp: attempt_def)
  next
    case (Inr f)
    obtain y w2 where p: "deliver (ap_sink ap) f thread w1 = (y, w2)" by fastforce
    note pf = postD [OF p]
    show thesis
    proof (cases y)
      case (Inl e)
      with assms(1) g gf p pf Inr show thesis by (intro failed [of e w2]) (auto simp: attempt_def)
    next
      case (Inr t)
      with assms(1) g gf p pf \<open>x = Inr f\<close> show thesis by (intro posted [of f w1 t w2]) (auto simp: attempt_def)
    qed
  qed
qed

lemma attempt_progress_evolves:
  assumes "attempt_progress ap service i thread w = (r, w')"
  shows "clock w \<le> clock w'
    \<and> ((\<exists>q. row_of inc_id i (incidents (db w)) = Some q \<and> progress_delivered_at q = None \<and> brief_delivered_at q \<noteq> None)
         \<longrightarrow> evolves (incidents (db w)) (incidents (db w')))"
proof (rule attempt_cases [OF assms [unfolded attempt_progress_def]])
  show "same_but_budget (db w) (db w1) \<and> clock w \<le> clock w1"
    if "gather_findings (ap_engine ap) service i ''in_progress'' (ap_composer ap) None w = (x, w1)" for x w1
    using that gather_findings_frame by (simp add: composer)
qed (simp_all add: same_but_budget_incidents evolves_releases evolves_mark_progress)

lemma attempt_postmortem_evolves:
  assumes "attempt_postmortem ap service i thread w = (r, w')"
  shows "clock w \<le> clock w'
    \<and> ((\<exists>q. row_of inc_id i (incidents (db w)) = Some q \<and> postmortem_delivered_at q = None \<and> brief_delivered_at q \<noteq> None)
         \<longrightarrow> evolves (incidents (db w)) (incidents (db w')))"
proof (rule attempt_cases [OF assms [unfolded attempt_postmortem_def]])
  show "same_but_budget (db w) (db w1) \<and> clock w \<le> clock w1"
    if "gather_postmortem (ap_engine ap) service i (ap_composer ap) None w = (x, w1)" for x w1
    using that gather_postmortem_frame by (simp add: composer)
qed (simp_all add: same_but_budget_incidents evolves_releases evolves_mark_postmortem)

lemma attempt_brief_evolves:
  assumes "attempt_brief ap service i w = (r, w')"
  shows "clock w \<le> clock w'
    \<and> ((\<exists>q. row_of inc_id i (incidents (db w)) = Some q \<and> brief_delivered_at q = None)
         \<longrightarrow> evolves (incidents (db w)) (incidents (db w')))"
proof (rule attempt_cases [OF assms [unfolded attempt_brief_def]])
  show "same_but_budget (db w) (db w1) \<and> clock w \<le> clock w1"
    if "gather_findings (ap_engine ap) service i ''open'' (ap_composer ap) (ap_embedder ap) w = (x, w1)" for x w1
    using that gather_findings_frame by (simp add: composer)
qed (simp_all add: same_but_budget_incidents evolves_releases evolves_mark_brief)

lemma deferred_progress_moves:
  assumes "deliver_deferred_progress ap i w = (r, w')"
  shows "moves_on w w'"
proof (cases "claim_deferred_progress (clock w) i (incidents (db w))")
  case (Pair x t)
  note ev = evolves_claim_pair(4) [OF Pair]
  show ?thesis
  proof (cases x)
    case None
    with assms Pair show ?thesis by (auto simp: deliver_deferred_progress_def intro!: moves_on_incidents ev)
  next
    case (Some q)
    then obtain y where a: "attempt_progress ap (service_or_blank q) i (slack_ts q) (on_incidents (\<lambda>_. t) w) = (y, w')"
      using assms Pair by (auto simp: deliver_deferred_progress_def split: prod.splits sum.splits)
    note at = attempt_progress_evolves [OF a]
    show ?thesis
    proof (rule claim_then_attempt)
      assume k: "keyed inc_id (incidents (db w))" "keyed inc_id t"
      have "claim_progress (clock w) i (incidents (db w)) = (True, t)"
        using deferred_progress_is_claim [OF _ k(1)] Pair Some by blast
      from claimed_progress [OF this k(2)] at show "evolves t (incidents (db w'))" by auto
    qed (use at ev in simp_all)
  qed
qed

lemma deferred_postmortem_moves:
  assumes "deliver_deferred_postmortem ap i w = (r, w')"
  shows "moves_on w w'"
proof (cases "claim_deferred_postmortem (clock w) i (incidents (db w))")
  case (Pair x t)
  note ev = evolves_claim_pair(5) [OF Pair]
  show ?thesis
  proof (cases x)
    case None
    with assms Pair show ?thesis by (auto simp: deliver_deferred_postmortem_def intro!: moves_on_incidents ev)
  next
    case (Some q)
    then obtain y where a: "attempt_postmortem ap (service_or_blank q) i (slack_ts q) (on_incidents (\<lambda>_. t) w) = (y, w')"
      using assms Pair by (auto simp: deliver_deferred_postmortem_def split: prod.splits sum.splits)
    note at = attempt_postmortem_evolves [OF a]
    show ?thesis
    proof (rule claim_then_attempt)
      assume k: "keyed inc_id (incidents (db w))" "keyed inc_id t"
      have "claim_postmortem (clock w) i (incidents (db w)) = (True, t)"
        using deferred_postmortem_is_claim [OF _ k(1)] Pair Some by blast
      from claimed_postmortem [OF this k(2)] at show "evolves t (incidents (db w'))" by auto
    qed (use at ev in simp_all)
  qed
qed

lemma ensure_and_schedule_moves: "moves_on w (ensure_and_schedule window ev w)"
  unfolding moves_on_def ensure_and_schedule_def
  by (simp add: evolves_trans [OF evolves_ensure evolves_intents(1)])

lemma unit_ofD: "unit_of p = (r, w') \<Longrightarrow> \<exists>y. p = (y, w')"
  by (auto simp: unit_of_def split: prod.splits sum.splits)

lemma handle_in_progress_after:
  assumes "handle_in_progress ap window ev w = (r, w')" and "\<not> predates_opening (clock w) ev (db w)"
  shows "moves_on (progress_recorded window ev w) w'"
proof -
  let ?i = "le_incident ev" and ?w1 = "progress_recorded window ev w"
  obtain c t where c: "claim_progress (clock ?w1) ?i (incidents (db ?w1)) = (c, t)" by fastforce
  note ev = evolves_claim_pair(2) [OF c]
  show ?thesis
  proof (cases c)
    case False
    with assms c show ?thesis
      by (auto simp: handle_in_progress_def progress_recorded_def Let_def intro!: moves_on_incidents evolves_claim_pair(2))
  next
    case True
    then obtain y where a: "attempt_progress ap (le_service ev) ?i (slack_ts_of ?i (db ?w1)) (on_incidents (\<lambda>_. t) ?w1) = (y, w')"
      using assms c by (auto simp: handle_in_progress_def progress_recorded_def Let_def dest!: unit_ofD)
    note at = attempt_progress_evolves [OF a]
    show ?thesis
    proof (rule claim_then_attempt)
      assume "keyed inc_id t"
      with c True have "\<exists>q. row_of inc_id ?i t = Some q \<and> progress_delivered_at q = None \<and> brief_delivered_at q \<noteq> None"
        by (auto dest: claimed_progress)
      with at show "evolves t (incidents (db w'))" by auto
    qed (use at ev in simp_all)
  qed
qed

lemma handle_in_progress_moves:
  assumes "handle_in_progress ap window ev w = (r, w')"
  shows "moves_on w w'"
proof (cases "predates_opening (clock w) ev (db w)")
  case False
  have "moves_on w (progress_recorded window ev w)"
    unfolding progress_recorded_def
    by (rule moves_on_trans [OF ensure_and_schedule_moves [of w window ev]])
      (simp add: moves_on_incidents evolves_intents)
  also have "moves_on \<dots> w'" by (rule handle_in_progress_after [OF assms False])
  finally show ?thesis .
qed (use assms in \<open>simp add: handle_in_progress_def\<close>)

lemma handle_resolved_after:
  assumes "handle_resolved ap ev w = (r, w')" and "\<not> predates_opening (clock w) ev (db w)"
  shows "moves_on (resolution_recorded ev w) w'"
proof -
  let ?i = "le_incident ev" and ?w1 = "resolution_recorded ev w"
  obtain c t where c: "claim_postmortem (clock ?w1) ?i (incidents (db ?w1)) = (c, t)" by fastforce
  note ev = evolves_claim_pair(3) [OF c]
  show ?thesis
  proof (cases c)
    case False
    with assms c show ?thesis
      by (auto simp: handle_resolved_def resolution_recorded_def Let_def intro!: moves_on_incidents evolves_claim_pair(3))
  next
    case True
    then obtain y where a: "attempt_postmortem ap (le_service ev) ?i (slack_ts_of ?i (db ?w1)) (on_incidents (\<lambda>_. t) ?w1) = (y, w')"
      using assms c by (auto simp: handle_resolved_def resolution_recorded_def Let_def dest!: unit_ofD)
    note at = attempt_postmortem_evolves [OF a]
    show ?thesis
    proof (rule claim_then_attempt)
      assume "keyed inc_id t"
      with c True have "\<exists>q. row_of inc_id ?i t = Some q \<and> postmortem_delivered_at q = None \<and> brief_delivered_at q \<noteq> None"
        by (auto dest: claimed_postmortem)
      with at show "evolves t (incidents (db w'))" by auto
    qed (use at ev in simp_all)
  qed
qed

lemma handle_resolved_moves:
  assumes "handle_resolved ap ev w = (r, w')"
  shows "moves_on w w'"
proof (cases "predates_opening (clock w) ev (db w)")
  case False
  have "moves_on w (resolution_recorded ev w)"
    unfolding resolution_recorded_def by (rule moves_on_incidents) (simp add: evolves_resolution)
  also have "moves_on \<dots> w'" by (rule handle_resolved_after [OF assms False])
  finally show ?thesis .
qed (use assms in \<open>simp add: handle_resolved_def\<close>)

lemma handle_lifecycle_moves: "handle_lifecycle ap window raw w = (r, w') \<Longrightarrow> moves_on w w'"
  by (auto simp: handle_lifecycle_def handle_event_def handle_opened_def split: sum.splits if_splits
      intro: handle_in_progress_moves handle_resolved_moves ensure_and_schedule_moves)

lemma add_countD: "add_count n p = (r, w') \<Longrightarrow> \<exists>y. p = (y, w')"
  by (auto simp: add_count_def split: prod.splits sum.splits)

lemma drain_followups_moves: "drain_followups ap is w = (r, w') \<Longrightarrow> moves_on w w'"
proof (induction "is" arbitrary: w r)
  case (Cons i "is")
  obtain x w1 where x: "deliver_deferred_progress ap i w = (x, w1)" by fastforce
  obtain y w2 where y: "deliver_deferred_postmortem ap i w1 = (y, w2)" by fastforce
  note m1 = deferred_progress_moves [OF x] and m2 = deferred_postmortem_moves [OF y]
  have "w' = w1 \<or> w' = w2 \<or> (\<exists>z. drain_followups ap is w2 = (z, w'))"
    using Cons.prems x y by (cases x; cases y) (auto split: exn.splits dest: add_countD)
  moreover have "moves_on w w2" using m1 m2 by (rule moves_on_trans)
  ultimately show ?case using Cons.IH [of w2] m1 by (auto intro: moves_on_trans)
qed simp

lemma drain_briefs_moves: "drain_briefs ap timeout due w = (r, w') \<Longrightarrow> moves_on w w'"
proof (induction due arbitrary: w r)
  case (Cons d due)
  obtain i service where d: "d = (i, service)" by (cases d)
  obtain c t where c: "claim_incident (clock w) i (incidents (db w)) = (c, t)" by fastforce
  note ev = evolves_claim_pair(1) [OF c]
  show ?case
  proof (cases c)
    case False
    with Cons c d have "moves_on (on_incidents (\<lambda>_. t) w) w'" by simp
    then show ?thesis by (rule moves_on_trans [OF moves_on_incidents [OF ev]])
  next
    case True
    let ?w1 = "snd (wait_for_index i timeout (on_incidents (\<lambda>_. t) w))"
    obtain x w2 where a: "attempt_brief ap service i ?w1 = (x, w2)" by fastforce
    note at = attempt_brief_evolves [OF a]
    have "moves_on w w2"
    proof (rule claim_then_attempt)
      show "clock w \<le> clock w2"
        using at wait_for_index_frame(2) [of "on_incidents (\<lambda>_. t) w" i timeout] by simp
      assume "keyed inc_id t"
      with c True have "\<exists>q. row_of inc_id i t = Some q \<and> brief_delivered_at q = None"
        by (auto dest: claimed_brief)
      with at show "evolves t (incidents (db w2))" by auto
    qed (rule ev)
    moreover have "w' = w2 \<or> (\<exists>z. drain_briefs ap timeout due w2 = (z, w'))"
      using Cons.prems c d True a by (cases x) (auto split: exn.splits dest: add_countD)
    ultimately show ?thesis using Cons.IH [of w2] by (auto intro: moves_on_trans)
  qed
qed simp

lemma drain_due_briefs_moves:
  assumes "drain_due_briefs ap limit timeout w = (r, w')"
  shows "moves_on w w'"
proof -
  obtain x w1 where x: "drain_briefs ap timeout (due_incidents limit (clock w) (incidents (db w))) w = (x, w1)"
    by fastforce
  obtain y w2 where y: "drain_pending_followups ap limit w1 = (y, w2)" by fastforce
  have "w' = w1 \<or> w' = w2" using assms x y by (cases x; cases y) (auto simp: drain_due_briefs_def)
  moreover have "moves_on w w1" by (rule drain_briefs_moves [OF x])
  moreover have "moves_on w1 w2" using y by (simp add: drain_pending_followups_def drain_followups_moves)
  ultimately show ?thesis using moves_on_trans by blast
qed

lemma handle_and_drain_moves: "handle_and_drain ap window raw w = (r, w') \<Longrightarrow> moves_on w w'"
  by (auto simp: handle_and_drain_def split: prod.splits sum.splits
      intro: moves_on_trans [OF handle_lifecycle_moves drain_due_briefs_moves] handle_lifecycle_moves)

end

interpretation slack_autopilot: autopilot_run "system_composer client hcap dcap"
    "autopilot_with eng client hcap dcap emb (slack_sink cfg slack_client)"
  for client hcap dcap eng emb cfg slack_client
  by unfold_locales
    (simp_all add: autopilot_with_def slack_sink_def slack.post_db slack.post_clock)

interpretation stdout_autopilot: autopilot_run "system_composer client hcap dcap"
    "autopilot_with eng client hcap dcap emb stdout_sink" for client hcap dcap eng emb
  by unfold_locales
    (simp_all add: autopilot_with_def stdout_sink_def stdout.post_db stdout.post_clock)

lemma make_sink_cases:
  assumes "make_sink kind token channel sdk slack_client = Inr sink"
  obtains (terminal) "sink = stdout_sink" | (slack) cfg where "sink = slack_sink cfg slack_client"
  using assms by (auto simp: make_sink_def split: if_splits)

subsection \<open>Nothing owed is lost, nothing delivered is touched\<close>

text \<open>Whatever a lifecycle message says and however its handling and the following drain end (the
  model API out of budget or down, Slack refusing, a poison message), the incident table evolves:
  a delivered brief, update or postmortem keeps its delivery stamp and its thread, an owed one stays
  owed until it is delivered, and the row invariant is preserved. This holds with the composer and
  every sink the entry point can build.\<close>

theorem autopilot_never_forgets:
  assumes "make_sink kind token channel sdk slack_client = Inr sink"
    and "handle_and_drain (autopilot_with eng client hcap dcap emb sink) window raw w = (r, w')"
  shows "evolves (incidents (db w)) (incidents (db w'))"
  using assms(1)
proof (cases rule: make_sink_cases)
  case terminal
  from stdout_autopilot.handle_and_drain_moves [OF assms(2) [unfolded terminal]] show ?thesis
    by (simp add: moves_on_def)
next
  case (slack cfg)
  from slack_autopilot.handle_and_drain_moves [OF assms(2) [unfolded slack]] show ?thesis
    by (simp add: moves_on_def)
qed

text \<open>The idle tick is as safe as the message path: a drain, however it ends, evolves the table.\<close>

theorem drain_never_forgets:
  assumes "make_sink kind token channel sdk slack_client = Inr sink"
    and "throttled_drain (autopilot_with eng client hcap dcap emb sink) th w = (r, th', w')"
  shows "evolves (incidents (db w)) (incidents (db w')) \<and> clock w \<le> clock w'"
  using assms(1)
proof (cases rule: make_sink_cases)
  case terminal
  have "moves_on w w'"
    using assms(2) unfolding terminal throttled_drain_def
    by (auto split: if_splits prod.splits intro: stdout_autopilot.drain_due_briefs_moves)
  then show ?thesis by (simp add: moves_on_def)
next
  case (slack cfg)
  have "moves_on w w'"
    using assms(2) unfolding slack throttled_drain_def
    by (auto split: if_splits prod.splits intro: slack_autopilot.drain_due_briefs_moves)
  then show ?thesis by (simp add: moves_on_def)
qed

definition demo_client :: "('e, string, response) service" where
  "demo_client q e = (Inr \<lparr>blocks = [Some ''ok''], hit_max_tokens = False\<rparr>, 1000, e)"

definition due_row :: incident where
  "due_row = (new_incident ''i'' ''t'' 0 ''api'')\<lparr>brief_due_at := Some 5\<rparr>"

definition due_world :: "unit world" where
  "due_world = start_world (empty_database\<lparr>incidents := [due_row]\<rparr>) 10 ()"

lemma due_world_run:
  "make_sink ''stdout'' None None False (\<lambda>q e. (Inl TimeoutError, 0, e)) = Inr stdout_sink"
  by (simp add: make_sink_def)

theorem drain_never_forgets_witness:
  "evolves (incidents (db due_world)) (incidents (db (snd (snd
     (throttled_drain (autopilot_with toy_engine demo_client 1 1 None stdout_sink) (new_throttle 5) due_world)))))"
proof -
  obtain r th' w' where run: "throttled_drain (autopilot_with toy_engine demo_client 1 1 None stdout_sink) (new_throttle 5) due_world
      = (r, th', w')" by (metis prod_cases3)
  from drain_never_forgets [OF due_world_run run] run show ?thesis by simp
qed

theorem autopilot_never_forgets_witness:
  "\<exists>r w'. handle_and_drain (autopilot_with toy_engine demo_client 1 1 None stdout_sink) 0 (Inl ValueError) due_world = (r, w')
     \<and> r = Inl ValueError \<and> evolves (incidents (db due_world)) (incidents (db w'))"
proof -
  have run: "handle_and_drain (autopilot_with toy_engine demo_client 1 1 None stdout_sink) 0 (Inl ValueError) due_world
      = (Inl ValueError, due_world)"
    by (simp add: handle_and_drain_def handle_lifecycle_def)
  from autopilot_never_forgets [OF due_world_run this] run show ?thesis by blast
qed

subsection \<open>Intent is durable\<close>

definition owed_or_done :: "bool \<Rightarrow> 'a option \<Rightarrow> bool" where
  "owed_or_done needed done \<longleftrightarrow> needed \<or> done \<noteq> None"

lemma owed_evolves:
  assumes "evolves t t'" and "keyed inc_id t" and "row_of inc_id i t = Some q"
  obtains q' where "row_of inc_id i t' = Some q'"
    and "owed_or_done (brief_due_at q \<noteq> None) (brief_delivered_at q)
      \<Longrightarrow> owed_or_done (brief_due_at q' \<noteq> None) (brief_delivered_at q')"
    and "owed_or_done (progress_needed q) (progress_delivered_at q)
      \<Longrightarrow> owed_or_done (progress_needed q') (progress_delivered_at q')"
    and "owed_or_done (postmortem_needed q) (postmortem_delivered_at q)
      \<Longrightarrow> owed_or_done (postmortem_needed q') (postmortem_delivered_at q')"
    and "resolved_at q \<noteq> None \<Longrightarrow> resolved_at q' \<noteq> None"
proof -
  from assms obtain q' where q': "row_of inc_id i t' = Some q'" and ev: "row_evolves q q'"
    by (auto simp: evolves_def)
  show thesis
  proof (rule that [OF q'])
    assume "owed_or_done (brief_due_at q \<noteq> None) (brief_delivered_at q)"
    with ev show "owed_or_done (brief_due_at q' \<noteq> None) (brief_delivered_at q')"
      by (cases "brief_delivered_at q'") (auto simp: owed_or_done_def row_evolves_def stays_def)
  qed (use ev in \<open>auto simp: owed_or_done_def row_evolves_def stays_def\<close>)
qed

lemma row_update:
  assumes "row_of inc_id i t = Some q" and "\<And>r. inc_id (f r) = inc_id r"
  shows "row_of inc_id i (update_rows (\<lambda>r. inc_id r = i \<and> p r) f t) = Some (if p q then f q else q)"
  using assms(1) row_of_SomeD [OF assms(1)] by (simp add: row_of_update_rows assms(2))

lemma scheduled_row:
  assumes "le_incident ev \<noteq> []"
  shows "\<exists>q. row_of inc_id (le_incident ev) (incidents (db (ensure_and_schedule window ev w))) = Some q
     \<and> owed_or_done (brief_due_at q \<noteq> None) (brief_delivered_at q)"
proof -
  let ?i = "le_incident ev"
  let ?t = "ensure_incident_rows ?i (le_service ev) (event_ts (clock w) ev) (le_title ev) (incidents (db w))"
  obtain q0 where "row_of inc_id ?i ?t = Some q0" by (simp add: row_of_ensure)
  from row_update [OF this, of "\<lambda>r. r\<lparr>brief_due_at := Some (clock w + window)\<rparr>"
      "\<lambda>r. brief_delivered_at r = None \<and> brief_due_at r = None"] assms
  show ?thesis by (auto simp: ensure_and_schedule_def ensure_incident_def schedule_brief_def owed_or_done_def)
qed

lemma keyed_schedule: "keyed inc_id (incidents (db w)) \<Longrightarrow> keyed inc_id (incidents (db (ensure_and_schedule window ev w)))"
  using evolves_keyed [OF evolves_trans [OF evolves_ensure evolves_intents(1)]]
  by (simp add: ensure_and_schedule_def)

text \<open>What the two handlers leave, however they end.\<close>

context autopilot_run begin

lemma progress_intent:
  assumes "handle_in_progress ap window ev w = (r, w')"
    and "keyed inc_id (incidents (db w))" and "\<not> predates_opening (clock w) ev (db w)" and "le_incident ev \<noteq> []"
  shows "\<exists>q. row_of inc_id (le_incident ev) (incidents (db w')) = Some q
    \<and> owed_or_done (brief_due_at q \<noteq> None) (brief_delivered_at q)
    \<and> owed_or_done (progress_needed q) (progress_delivered_at q)"
proof -
  let ?w1 = "progress_recorded window ev w"
  from scheduled_row [OF assms(4), of window w] obtain q0 where
    q0: "row_of inc_id (le_incident ev) (incidents (db (ensure_and_schedule window ev w))) = Some q0"
    "owed_or_done (brief_due_at q0 \<noteq> None) (brief_delivered_at q0)" by blast
  from row_update [OF q0(1), of "\<lambda>r. r\<lparr>progress_needed := True\<rparr>" "\<lambda>r. progress_delivered_at r = None"] q0(2)
  obtain q where
    q: "row_of inc_id (le_incident ev) (incidents (db ?w1)) = Some q"
    "owed_or_done (brief_due_at q \<noteq> None) (brief_delivered_at q)"
    "owed_or_done (progress_needed q) (progress_delivered_at q)"
    by (auto simp: progress_recorded_def defer_progress_def owed_or_done_def split: if_splits)
  have k: "keyed inc_id (incidents (db ?w1))"
    using keyed_schedule [OF assms(2)] evolves_keyed [OF evolves_intents(2)] by (simp add: progress_recorded_def)
  have e: "evolves (incidents (db ?w1)) (incidents (db w'))"
    using handle_in_progress_after [OF assms(1,3)] by (simp add: moves_on_def)
  show ?thesis by (rule owed_evolves [OF e k q(1)]) (use q(2,3) in blast)
qed

lemma resolution_intent:
  assumes "handle_resolved ap ev w = (r, w')"
    and "keyed inc_id (incidents (db w))" and "\<not> predates_opening (clock w) ev (db w)"
    and "row_of inc_id (le_incident ev) (incidents (db w)) = Some q0"
  shows "\<exists>q. row_of inc_id (le_incident ev) (incidents (db w')) = Some q
    \<and> resolved_at q \<noteq> None \<and> owed_or_done (postmortem_needed q) (postmortem_delivered_at q)"
proof -
  let ?w1 = "resolution_recorded ev w"
  let ?set = "\<lambda>r. r\<lparr>resolved_at := coalesce (resolved_at r) (Some (event_ts (clock w) ev))\<rparr>"
  have q1: "row_of inc_id (le_incident ev) (mark_resolved (event_ts (clock w) ev) (le_incident ev) (incidents (db w)))
      = Some (?set q0)"
    using row_update [OF assms(4), of ?set "\<lambda>r. True"] by (simp add: mark_resolved_def set_incident_def)
  from row_update [OF q1, of "\<lambda>r. r\<lparr>postmortem_needed := True\<rparr>" "\<lambda>r. postmortem_delivered_at r = None"]
  obtain q where
    q: "row_of inc_id (le_incident ev) (incidents (db ?w1)) = Some q" "resolved_at q \<noteq> None"
    "owed_or_done (postmortem_needed q) (postmortem_delivered_at q)"
    using coalesce_Some_iff [of "resolved_at q0" "event_ts (clock w) ev"]
    by (auto simp del: not_None_eq simp: resolution_recorded_def defer_postmortem_def owed_or_done_def split: if_splits)
  have k: "keyed inc_id (incidents (db ?w1))"
    using evolves_keyed [OF evolves_resolution assms(2)] by (simp add: resolution_recorded_def)
  have e: "evolves (incidents (db ?w1)) (incidents (db w'))"
    using handle_resolved_after [OF assms(1,3)] by (simp add: moves_on_def)
  show ?thesis by (rule owed_evolves [OF e k q(1)]) (use q(2,3) in blast)
qed

end

text \<open>The intent survives any ending: once an \<^verbatim>\<open>in_progress\<close> event that is not stale has been handled,
  successfully or not, the database holds the incident's row with its brief owed (or delivered) and
  its progress update owed (or delivered), so a restart or another worker will deliver them.\<close>

theorem progress_intent_is_durable:
  assumes "make_sink kind token channel sdk slack_client = Inr sink"
    and "handle_in_progress (autopilot_with eng client hcap dcap emb sink) window ev w = (r, w')"
    and "keyed inc_id (incidents (db w))" and "\<not> predates_opening (clock w) ev (db w)" and "le_incident ev \<noteq> []"
  shows "\<exists>q. row_of inc_id (le_incident ev) (incidents (db w')) = Some q
    \<and> owed_or_done (brief_due_at q \<noteq> None) (brief_delivered_at q)
    \<and> owed_or_done (progress_needed q) (progress_delivered_at q)"
  using assms(1)
proof (cases rule: make_sink_cases)
  case terminal
  from stdout_autopilot.progress_intent [OF assms(2) [unfolded terminal] assms(3-)] show ?thesis .
next
  case (slack cfg)
  from slack_autopilot.progress_intent [OF assms(2) [unfolded slack] assms(3-)] show ?thesis .
qed

definition demo_event :: "string \<Rightarrow> lifecycle_event" where
  "demo_event kind = \<lparr>le_type = kind, le_incident = ''i'', le_service = ''api'', le_ts = ''soon'', le_title = ''t''\<rparr>"

lemma demo_event_now: "event_ts now (demo_event kind) = now"
proof -
  have "fromisoformat (replace_z ''soon'') = None" by code_simp
  then show ?thesis by (simp add: event_ts_def demo_event_def)
qed

lemma demo_event_incident [simp]: "le_incident (demo_event kind) = ''i''"
  by (simp add: demo_event_def)

lemma due_world_facts:
  "keyed inc_id (incidents (db due_world))" "row_of inc_id ''i'' (incidents (db due_world)) = Some due_row"
  "\<not> predates_opening (clock due_world) (demo_event kind) (db due_world)"
  by (simp_all add: predates_opening_def demo_event_now due_world_def due_row_def keyed_def table_simps new_incident_def)

theorem progress_intent_is_durable_witness:
  "\<exists>q. row_of inc_id ''i'' (incidents (db (snd (handle_in_progress (autopilot_with toy_engine demo_client 1 1 None stdout_sink)
         0 (demo_event ''in_progress'') due_world)))) = Some q
     \<and> owed_or_done (progress_needed q) (progress_delivered_at q)"
proof -
  obtain r w' where run: "handle_in_progress (autopilot_with toy_engine demo_client 1 1 None stdout_sink) 0
      (demo_event ''in_progress'') due_world = (r, w')" by fastforce
  from progress_intent_is_durable [OF due_world_run run due_world_facts(1,3)] run show ?thesis by auto
qed

text \<open>The same for a resolution: once a \<^verbatim>\<open>resolved\<close> event of a known incident that is not stale has
  been handled, successfully or not, the row carries a resolution time and its postmortem is owed
  or delivered.\<close>

theorem resolution_intent_is_durable:
  assumes "make_sink kind token channel sdk slack_client = Inr sink"
    and "handle_resolved (autopilot_with eng client hcap dcap emb sink) ev w = (r, w')"
    and "keyed inc_id (incidents (db w))" and "\<not> predates_opening (clock w) ev (db w)"
    and "row_of inc_id (le_incident ev) (incidents (db w)) = Some q0"
  shows "\<exists>q. row_of inc_id (le_incident ev) (incidents (db w')) = Some q
    \<and> resolved_at q \<noteq> None \<and> owed_or_done (postmortem_needed q) (postmortem_delivered_at q)"
  using assms(1)
proof (cases rule: make_sink_cases)
  case terminal
  from stdout_autopilot.resolution_intent [OF assms(2) [unfolded terminal] assms(3-)] show ?thesis .
next
  case (slack cfg)
  from slack_autopilot.resolution_intent [OF assms(2) [unfolded slack] assms(3-)] show ?thesis .
qed

theorem resolution_intent_is_durable_witness:
  "\<exists>q. row_of inc_id ''i'' (incidents (db (snd (handle_resolved (autopilot_with toy_engine demo_client 1 1 None stdout_sink)
         (demo_event ''resolved'') due_world)))) = Some q
     \<and> resolved_at q \<noteq> None \<and> owed_or_done (postmortem_needed q) (postmortem_delivered_at q)"
proof -
  obtain r w' where run: "handle_resolved (autopilot_with toy_engine demo_client 1 1 None stdout_sink)
      (demo_event ''resolved'') due_world = (r, w')" by fastforce
  from resolution_intent_is_durable [OF due_world_run run due_world_facts(1,3)] due_world_facts(2) run
  show ?thesis by simp
qed

text \<open>A resolution of an incident that has no row leaves no trace: nothing is owed afterwards.\<close>

lemma unknown_resolution_is_dropped:
  assumes "row_of inc_id (le_incident ev) (incidents (db w)) = None"
  shows "handle_resolved ap ev w = (Inr (), w)"
proof -
  have none: "update_rows (\<lambda>r. inc_id r = le_incident ev \<and> p r) f (incidents (db w)) = incidents (db w)" for p f
    using assms by (auto simp: update_rows_def row_of_None_iff image_iff intro!: map_idI)
  have "find (\<lambda>r. inc_id r = le_incident ev \<and> p r) (incidents (db w)) = None" for p
    using assms by (auto simp: find_None_iff row_of_None_iff image_iff)
  then show ?thesis
    using assms none [of "\<lambda>r. True"]
    by (simp add: handle_resolved_def predates_opening_def on_incidents_def defer_postmortem_def mark_resolved_def
        set_incident_def claim_postmortem_def claim_with_def update_returning_def none Let_def)
qed

subsection \<open>Failure releases the claim\<close>

context autopilot_run begin

text \<open>A failed attempt leaves the row as before the claim, with the claim undone.\<close>

lemma failed_brief:
  assumes "attempt_brief ap service i w = (Inl e, w')"
  shows "incidents (db w') = release_incident i (incidents (db w))"
proof (rule attempt_cases [OF assms [unfolded attempt_brief_def]])
  show "same_but_budget (db w) (db w1) \<and> clock w \<le> clock w1"
    if "gather_findings (ap_engine ap) service i ''open'' (ap_composer ap) (ap_embedder ap) w = (x, w1)" for x w1
    using that gather_findings_frame by (simp add: composer)
qed (simp_all add: same_but_budget_incidents)

lemma failed_progress:
  assumes "attempt_progress ap service i thread w = (Inl e, w')"
  shows "incidents (db w') = release_progress i (incidents (db w))"
proof (rule attempt_cases [OF assms [unfolded attempt_progress_def]])
  show "same_but_budget (db w) (db w1) \<and> clock w \<le> clock w1"
    if "gather_findings (ap_engine ap) service i ''in_progress'' (ap_composer ap) None w = (x, w1)" for x w1
    using that gather_findings_frame by (simp add: composer)
qed (simp_all add: same_but_budget_incidents)

lemma failed_postmortem:
  assumes "attempt_postmortem ap service i thread w = (Inl e, w')"
  shows "incidents (db w') = release_postmortem i (incidents (db w))"
proof (rule attempt_cases [OF assms [unfolded attempt_postmortem_def]])
  show "same_but_budget (db w) (db w1) \<and> clock w \<le> clock w1"
    if "gather_postmortem (ap_engine ap) service i (ap_composer ap) None w = (x, w1)" for x w1
    using that gather_postmortem_frame by (simp add: composer)
qed (simp_all add: same_but_budget_incidents)

end

lemma lease_free_later: "lease_free now h \<Longrightarrow> now \<le> now' \<Longrightarrow> lease_free now' h"
  by (auto simp: lease_free_def split: option.splits)

text \<open>A failed delivery can be retried at once: when the attempt under a claim fails, the next worker to
  claim the same slot, at any later moment, gets it, and an owed brief has kept its due time.\<close>

theorem failed_attempt_frees_the_slot:
  assumes "make_sink kind token channel sdk slack_client = Inr sink"
    and "attempt_brief (autopilot_with eng client hcap dcap emb sink) service i w = (Inl e, w')"
    and "keyed inc_id (incidents (db w))"
    and "row_of inc_id i (incidents (db w)) = Some q" and "brief_delivered_at q = None"
  shows "fst (claim_incident now i (incidents (db w')))
    \<and> map_option brief_due_at (row_of inc_id i (incidents (db w'))) = Some (brief_due_at q)"
proof -
  have "incidents (db w') = release_incident i (incidents (db w))"
    using assms(1)
  proof (cases rule: make_sink_cases)
    case terminal
    from stdout_autopilot.failed_brief [OF assms(2) [unfolded terminal]] show ?thesis .
  next
    case (slack cfg)
    from slack_autopilot.failed_brief [OF assms(2) [unfolded slack]] show ?thesis .
  qed
  with assms(3,4,5) show ?thesis
    using brief_slot.claim_after_release [OF assms(3,4,5)] row_of_SomeD [OF assms(4)]
    by (simp add: release_incident_def set_incident_facts)
qed

theorem failed_attempt_frees_the_slot_witness:
  "\<exists>w'. attempt_brief (autopilot_with toy_engine demo_client 1 1 None
        (slack_sink \<lparr>slack_token = ''t'', slack_channel = ''c'', dry_run = False, sdk_installed = False\<rparr>
           (\<lambda>q e. (Inl TimeoutError, 0, e)))) ''api'' ''i'' due_world = (Inl ImportError, w')
     \<and> fst (claim_incident 10 ''i'' (incidents (db w')))"
proof -
  let ?client = "\<lambda>q e. (Inl TimeoutError, 0, e)"
  let ?sink = "slack_sink \<lparr>slack_token = ''t'', slack_channel = ''c'', dry_run = False, sdk_installed = False\<rparr> ?client"
  have sink: "make_sink ''slack'' (Some ''t'') (Some ''c'') False ?client = Inr ?sink"
    by (simp add: make_sink_def truthy_def str_of_def)
  obtain w' where "attempt_brief (autopilot_with toy_engine demo_client 1 1 None ?sink) ''api'' ''i'' due_world
      = (Inl ImportError, w')"
    by (simp add: attempt_brief_def attempt_def autopilot_with_def gather_findings_def gather_def summarise_def
        fetch_incident_updates_def incident_rows_def due_world_def newest_first_def slack_sink_def slack_deliver_def
        empty_database_def Let_def)
  moreover from failed_attempt_frees_the_slot [OF sink this due_world_facts(1,2)]
  have "fst (claim_incident 10 ''i'' (incidents (db w')))" by (simp add: due_row_def new_incident_def)
  ultimately show ?thesis by blast
qed

end
