(* ===== verification/Concurrency.thy ===== *)
theory Concurrency
  imports Delivery
begin

section \<open>Several consumers over one database\<close>

text \<open>
  The delivery code of \<open>Consumer\<close>, run by any number of workers: each delivery of the code is a
  sequence of the steps of \<open>Workers\<close> that shows in the channel exactly what those steps post, the lease
  excludes a second claim, and on timely runs an incident's brief, progress update or postmortem is posted
  again only after a post that was never recorded. The limit of the protocol is shown too: a worker slower
  than its lease posts a duplicate.

  What the channel shows is kept by the Slack client itself: \<open>watched\<close> wraps any client and counts the messages
  that landed and the calls the code had to take for failures. The model API and the embedding model live
  \<open>beside\<close> those counters.
\<close>

subsection \<open>The lease\<close>

text \<open>While a lease runs nobody else gets the slot: after a successful claim of the brief, progress or
  postmortem slot, any claim of the same slot up to fifteen minutes later fails; once the fifteen
  minutes are over, the slot of a dead worker can be claimed again.\<close>

theorem lease_excludes_then_expires:
  assumes "keyed inc_id t"
  shows "(now' \<le> now + minutes 15 \<longrightarrow>
      \<not> (fst (claim_incident now i t) \<and> fst (claim_incident now' i (snd (claim_incident now i t))))
      \<and> \<not> (fst (claim_progress now i t) \<and> fst (claim_progress now' i (snd (claim_progress now i t))))
      \<and> \<not> (fst (claim_postmortem now i t) \<and> fst (claim_postmortem now' i (snd (claim_postmortem now i t)))))
    \<and> (now + minutes 15 < now' \<longrightarrow>
      (fst (claim_incident now i t) \<longrightarrow> fst (claim_incident now' i (snd (claim_incident now i t))))
      \<and> (fst (claim_progress now i t) \<longrightarrow> fst (claim_progress now' i (snd (claim_progress now i t))))
      \<and> (fst (claim_postmortem now i t) \<longrightarrow> fst (claim_postmortem now' i (snd (claim_postmortem now i t)))))"
  using brief_slot.no_second_claim [OF _ assms] progress_slot.no_second_claim [OF _ assms]
    postmortem_slot.no_second_claim [OF _ assms] brief_slot.claim_after_expiry [OF _ assms]
    progress_slot.claim_after_expiry [OF _ assms] postmortem_slot.claim_after_expiry [OF _ assms]
  by (auto simp: LEASE_MINUTES_def)

theorem lease_excludes_then_expires_witness:
  "fst (claim_incident 0 ''i'' [due_row]) \<and> \<not> fst (claim_incident (minutes 15) ''i'' (snd (claim_incident 0 ''i'' [due_row])))
   \<and> fst (claim_incident (minutes 15 + 1) ''i'' (snd (claim_incident 0 ''i'' [due_row])))"
proof -
  have "keyed inc_id [due_row]" by (simp add: keyed_def)
  moreover have "fst (claim_incident 0 ''i'' [due_row])"
    by (simp add: claim_incident_def claim_with_def update_returning_def brief_free_def due_row_def new_incident_def)
  ultimately show ?thesis
    using lease_excludes_then_expires [of "[due_row]" "minutes 15" 0 "''i''"]
      lease_excludes_then_expires [of "[due_row]" "minutes 15 + 1" 0 "''i''"] by simp
qed

subsection \<open>The code takes the protocol's steps\<close>

text \<open>One worker's delivery as protocol steps: claim, time passes, then release, or post and mark.\<close>

definition by_worker :: "nat \<Rightarrow> wstate \<Rightarrow> slot_sys \<Rightarrow> slot_sys" where
  "by_worker k p s = s\<lparr>worker := (worker s)(k := p)\<rparr>"

lemma steps_pass_time:
  "now_at s \<le> t \<Longrightarrow> (worker_step claim release mark held delivered)\<^sup>*\<^sup>* s (s\<lparr>now_at := t\<rparr>)"
proof (cases "now_at s < t")
  case True
  then show ?thesis by (intro r_into_rtranclp worker_step.pass_time)
next
  case False
  assume "now_at s \<le> t"
  with False have "s\<lparr>now_at := t\<rparr> = s" by simp
  then show ?thesis by simp
qed

lemma steps_chain:
  "S a b \<Longrightarrow> S\<^sup>*\<^sup>* b c \<Longrightarrow> S c d \<Longrightarrow> S\<^sup>*\<^sup>* a d"
  by (rule converse_rtranclp_into_rtranclp [OF _ rtranclp.rtrancl_into_rtrancl])

lemma steps_unseen:
  assumes "worker s k = Holding i t"
  shows "(worker_step claim release mark held delivered)\<^sup>*\<^sup>* s
    (s\<lparr>posts := replicate n i @ posts s, unrecorded := replicate n i @ unrecorded s\<rparr>)"
proof (induction n)
  case (Suc n)
  let ?u = "s\<lparr>posts := replicate n i @ posts s, unrecorded := replicate n i @ unrecorded s\<rparr>"
  have "worker_step claim release mark held delivered ?u (?u\<lparr>posts := i # posts ?u, unrecorded := i # unrecorded ?u\<rparr>)"
    using assms by (intro worker_step.post_unseen [where w = k and t = t]) simp
  with Suc show ?case by (simp add: rtranclp.rtrancl_into_rtrancl)
qed simp

text \<open>One worker from its claim to the moment before it knows whether its post succeeded, \<open>n\<close> posts of it unseen.\<close>

lemma steps_working:
  assumes "worker s k = Idle" and "claim (now_at s) i (rows s) = (True, t)" and "now_at s \<le> now'"
  shows "(worker_step claim release mark held delivered)\<^sup>*\<^sup>* s
    (s\<lparr>rows := t, worker := (worker s)(k := Holding i (now_at s)), now_at := now',
       posts := replicate n i @ posts s, unrecorded := replicate n i @ unrecorded s\<rparr>)"
proof -
  let ?S = "worker_step claim release mark held delivered"
  let ?s1 = "s\<lparr>rows := t, worker := (worker s)(k := Holding i (now_at s))\<rparr>"
  let ?s2 = "?s1\<lparr>now_at := now'\<rparr>"
  have "?S s ?s1" using worker_step.claim_it [of s k claim i t release mark held delivered] assms(1,2) by blast
  moreover have "?S\<^sup>*\<^sup>* ?s1 ?s2" using assms(3) by (intro steps_pass_time) simp
  moreover have "?S\<^sup>*\<^sup>* ?s2 (?s2\<lparr>posts := replicate n i @ posts ?s2, unrecorded := replicate n i @ unrecorded ?s2\<rparr>)"
    by (rule steps_unseen [where k = k and t = "now_at s"]) simp
  ultimately have "?S\<^sup>*\<^sup>* s (?s2\<lparr>posts := replicate n i @ posts ?s2, unrecorded := replicate n i @ unrecorded ?s2\<rparr>)"
    by (meson converse_rtranclp_into_rtranclp rtranclp_trans)
  then show ?thesis by simp
qed

lemma steps_failed:
  assumes "worker s k = Idle" and "claim (now_at s) i (rows s) = (True, t)" and "now_at s \<le> now'"
  shows "(worker_step claim release mark held delivered)\<^sup>*\<^sup>* s
    (s\<lparr>rows := release i t, now_at := now', posts := replicate n i @ posts s,
       unrecorded := replicate n i @ unrecorded s\<rparr>)"
proof -
  let ?S = "worker_step claim release mark held delivered"
  let ?u = "s\<lparr>rows := t, worker := (worker s)(k := Holding i (now_at s)), now_at := now',
       posts := replicate n i @ posts s, unrecorded := replicate n i @ unrecorded s\<rparr>"
  let ?v = "?u\<lparr>rows := release i (rows ?u), worker := (worker ?u)(k := Idle)\<rparr>"
  have "?S\<^sup>*\<^sup>* s ?u" by (rule steps_working [where claim = claim and s = s, OF assms])
  moreover have "?S ?u ?v" by (rule worker_step.post_failed) simp
  ultimately have "?S\<^sup>*\<^sup>* s ?v" by (rule rtranclp.rtrancl_into_rtrancl)
  moreover have "?v = s\<lparr>rows := release i t, now_at := now', posts := replicate n i @ posts s,
       unrecorded := replicate n i @ unrecorded s\<rparr>" using assms(1) by (simp add: fun_upd_idem)
  ultimately show ?thesis by simp
qed

lemma steps_posted:
  assumes "worker s k = Idle" and "claim (now_at s) i (rows s) = (True, t)" and "now_at s \<le> now'"
  shows "(worker_step claim release mark held delivered)\<^sup>*\<^sup>* s
    (s\<lparr>rows := mark now' i t, now_at := now', posts := i # replicate n i @ posts s,
       unrecorded := replicate n i @ unrecorded s\<rparr>)"
proof -
  let ?S = "worker_step claim release mark held delivered"
  let ?u = "s\<lparr>rows := t, worker := (worker s)(k := Holding i (now_at s)), now_at := now',
       posts := replicate n i @ posts s, unrecorded := replicate n i @ unrecorded s\<rparr>"
  let ?v = "?u\<lparr>worker := (worker ?u)(k := Posted i (now_at s)), posts := i # posts ?u\<rparr>"
  let ?x = "?v\<lparr>rows := mark (now_at ?v) i (rows ?v), worker := (worker ?v)(k := Idle)\<rparr>"
  have "?S\<^sup>*\<^sup>* s ?u" by (rule steps_working [where claim = claim and s = s, OF assms])
  moreover have "?S ?u ?v" by (rule worker_step.post_it) simp
  ultimately have "?S\<^sup>*\<^sup>* s ?v" by (rule rtranclp.rtrancl_into_rtrancl)
  moreover have "?S ?v ?x" by (rule worker_step.mark_it) simp
  ultimately have "?S\<^sup>*\<^sup>* s ?x" by (rule rtranclp.rtrancl_into_rtrancl)
  moreover have "?x = s\<lparr>rows := mark now' i t, now_at := now', posts := i # replicate n i @ posts s,
       unrecorded := replicate n i @ unrecorded s\<rparr>" using assms(1) by (simp add: fun_upd_idem)
  ultimately show ?thesis by simp
qed

subsection \<open>What the channel shows\<close>

text \<open>The answers after which the code stops posting: anything but a raise or a response without its timestamp.\<close>

definition accepted :: "post_response option res \<Rightarrow> bool" where
  "accepted r = (case r of Inl e \<Rightarrow> False | Inr None \<Rightarrow> True | Inr (Some p) \<Rightarrow> resp_ts p \<noteq> None)"

text \<open>A Slack client with two counters: the messages in the channel and the calls that looked like failures. Such a
  call may have landed all the same, as \<open>landed\<close> tells from the state of the service.\<close>

definition watched ::
  "('e \<Rightarrow> bool) \<Rightarrow> ('e, post_request, post_response option) service
     \<Rightarrow> ((nat \<times> nat) \<times> 'e, post_request, post_response option) service" where
  "watched landed client q s =
     (case client q (snd s) of (r, d, e) \<Rightarrow>
        (r, d, ((fst (fst s) + of_bool (accepted r \<or> landed e), snd (fst s) + of_bool (\<not> accepted r)), e)))"

text \<open>A service that leaves those counters alone.\<close>

definition beside :: "('e, 'q, 'a) service \<Rightarrow> ('c \<times> 'e, 'q, 'a) service" where
  "beside srv q s = (case srv q (snd s) of (r, d, e) \<Rightarrow> (r, d, (fst s, e)))"

definition embedder_beside :: "'e embedder \<Rightarrow> ('c \<times> 'e) embedder" where
  "embedder_beside m = \<lparr>emb_name = emb_name m, emb_floor = emb_floor m, emb_floor_centered = emb_floor_centered m,
     encode_texts = beside (encode_texts m), encode_query = beside (encode_query m)\<rparr>"

definition shown :: "((nat \<times> nat) \<times> 'e) world \<Rightarrow> nat" where
  "shown w = fst (fst (env w))"

definition faults :: "((nat \<times> nat) \<times> 'e) world \<Rightarrow> nat" where
  "faults w = snd (fst (env w))"

lemma seen_simps [simp]:
  "shown (on_incidents f w) = shown w" "faults (on_incidents f w) = faults w"
  "shown (sleep d w) = shown w" "faults (sleep d w) = faults w"
  "shown (w\<lparr>sink_channel := c\<rparr>) = shown w" "faults (w\<lparr>sink_channel := c\<rparr>) = faults w"
  by (simp_all add: shown_def faults_def)

lemma call_beside: "call_service (beside srv) q w = (r, w1) \<Longrightarrow> fst (env w1) = fst (env w)"
  by (auto simp: call_service_def beside_def split: prod.splits)

lemma call_watched:
  assumes "call_service (watched landed client) q w = (r, w1)"
  shows "\<exists>n \<le> of_bool (\<not> accepted r). shown w1 = shown w + n + of_bool (accepted r)
    \<and> faults w1 = faults w + of_bool (\<not> accepted r)"
  using assms
  by (cases "client q (snd (env w))")
    (auto simp: call_service_def watched_def shown_def faults_def intro: exI [of _ "0 :: nat"] exI [of _ "1 :: nat"])

text \<open>The retry loop: one message when it returns, and at most one more for every failed call.\<close>

definition posts_seen :: "'a res \<Rightarrow> ((nat \<times> nat) \<times> 'e) world \<Rightarrow> ((nat \<times> nat) \<times> 'e) world \<Rightarrow> bool" where
  "posts_seen r w w' \<longleftrightarrow> (\<exists>n. faults w + n \<le> faults w' \<and> shown w' = shown w + n + of_bool (\<not> isl r))"

lemma posts_seen_retry:
  "\<exists>n \<le> 1. shown v = shown w + n \<and> faults v = Suc (faults w) \<Longrightarrow> posts_seen r v w' \<Longrightarrow> posts_seen r w w'"
proof -
  assume "\<exists>n \<le> 1. shown v = shown w + n \<and> faults v = Suc (faults w)" and "posts_seen r v w'"
  then obtain n m where "n \<le> 1" "shown v = shown w + n" "faults v = Suc (faults w)"
    "faults v + m \<le> faults w'" "shown w' = shown v + m + of_bool (\<not> isl r)" unfolding posts_seen_def by blast
  then show ?thesis unfolding posts_seen_def by (intro exI [of _ "n + m"]) simp
qed

lemma post_attempts_seen:
  "post_attempts (watched landed client) req n a w = (r, w') \<Longrightarrow> posts_seen r w w'"
proof (induction n arbitrary: a w)
  case 0
  then show ?case by (auto simp: posts_seen_def)
next
  case (Suc n)
  obtain r1 w1 where c: "call_service (watched landed client) req w = (r1, w1)" by fastforce
  note seen = call_watched [OF c]
  have step: "posts_seen r w w'"
    if v: "shown v = shown w1 \<and> faults v = faults w1" and bad: "\<not> accepted r1"
      and run: "(if a = MAX_ATTEMPTS then (Inl e, v)
        else post_attempts (watched landed client) req n (Suc a) (sleep (seconds (int (RETRY_BASE_S * a))) v)) = (r, w')" for v e
  proof -
    have "posts_seen r v w'"
    proof (cases "a = MAX_ATTEMPTS")
      case True
      with run show ?thesis by (auto simp: posts_seen_def)
    next
      case False
      with run Suc.IH [of "Suc a" "sleep (seconds (int (RETRY_BASE_S * a))) v"] show ?thesis
        by (simp add: posts_seen_def)
    qed
    then show ?thesis by (rule posts_seen_retry [rotated]) (use seen v bad in auto)
  qed
  show ?case
  proof (cases r1)
    case (Inl e)
    with Suc.prems(1) c step [of w1 e] show ?thesis by (simp add: Let_def accepted_def)
  next
    case (Inr resp)
    show ?thesis
    proof (cases resp)
      case None
      with Inr Suc.prems(1) c seen show ?thesis by (auto simp: posts_seen_def accepted_def)
    next
      case (Some p)
      let ?v = "w1\<lparr>sink_channel := (if truthy (resp_channel p) then resp_channel p else sink_channel w1)\<rparr>"
      show ?thesis
      proof (cases "resp_ts p")
        case None
        with Some Inr Suc.prems(1) c step [of ?v KeyError] show ?thesis by (simp add: Let_def accepted_def)
      next
        fix t assume "resp_ts p = Some t"
        with Some Inr Suc.prems(1) c seen show ?thesis by (auto simp: Let_def posts_seen_def accepted_def)
      qed
    qed
  qed
qed

lemma slack_deliver_seen:
  "slack_deliver cfg (watched landed client) f thread w = (r, w') \<Longrightarrow> \<not> dry_run cfg \<Longrightarrow> posts_seen r w w'"
  by (auto simp: slack_deliver_def posts_seen_def [of "Inl ImportError"] split: if_splits dest: post_attempts_seen)

subsection \<open>The code takes those steps\<close>

text \<open>The system a worker's world is: the incident table, its clock, and who has posted what.\<close>

definition sees :: "slot_sys \<Rightarrow> nat \<Rightarrow> 'e world \<Rightarrow> bool" where
  "sees s k w \<longleftrightarrow> rows s = incidents (db w) \<and> now_at s = clock w \<and> worker s k = Idle"

definition after_delivery :: "slot_sys \<Rightarrow> 'e world \<Rightarrow> string \<Rightarrow> bool \<Rightarrow> nat \<Rightarrow> slot_sys" where
  "after_delivery s w' i sent n = s\<lparr>rows := incidents (db w'), now_at := clock w',
     posts := replicate (of_bool sent) i @ replicate n i @ posts s, unrecorded := replicate n i @ unrecorded s\<rparr>"

text \<open>
  A delivery from \<open>w\<close> to \<open>w'\<close> follows the protocol when the channel has gained a message for each delivery
  reported and \<open>n\<close> more, no more than there were failed calls, and the protocol has steps to the table it
  left that post just those. Delivered, the row says when; otherwise the lease is given back, or
  there never was one and then the channel and the services were not touched.
\<close>

definition follows_protocol ::
  "(slot_sys \<Rightarrow> slot_sys \<Rightarrow> bool) \<Rightarrow> (incident \<Rightarrow> time option) \<Rightarrow> (incident \<Rightarrow> time option) \<Rightarrow> slot_sys \<Rightarrow> string
     \<Rightarrow> bool \<Rightarrow> ((nat \<times> nat) \<times> 'e) world \<Rightarrow> ((nat \<times> nat) \<times> 'e) world \<Rightarrow> bool" where
  "follows_protocol step held delivered s i sent w w' \<longleftrightarrow>
     (\<exists>n. faults w + n \<le> faults w' \<and> shown w' = shown w + n + of_bool sent
        \<and> step\<^sup>*\<^sup>* s (after_delivery s w' i sent n))
     \<and> (if sent then \<exists>q. row_of inc_id i (incidents (db w')) = Some q \<and> delivered q = Some (clock w')
        else (\<exists>q. row_of inc_id i (incidents (db w')) = Some q \<and> held q = None \<and> delivered q = None)
          \<or> (incidents (db w') = incidents (db w) \<and> env w' = env w))"

lemma unclaimed_follows:
  assumes "sees s k w" and "incidents (db w') = incidents (db w)" and "env w' = env w" and "clock w' = clock w"
  shows "follows_protocol step held delivered s i False w w'"
proof -
  have "after_delivery s w' i False 0 = s" using assms by (simp add: after_delivery_def sees_def)
  with assms(2,3) show ?thesis by (auto simp: follows_protocol_def faults_def shown_def intro!: exI [of _ 0])
qed

lemma same_slot_refl [simp]: "same_slot held delivered t t"
  by (simp add: same_slot_def)

lemma claim_failed_same:
  "find (\<lambda>r. inc_id r = i \<and> p r) t = None \<Longrightarrow> update_rows (\<lambda>r. inc_id r = i \<and> p r) f t = t"
  by (auto simp: update_rows_def find_None_iff intro!: map_idI)

text \<open>An autopilot whose posts are watched, its composer and embedder beside them.\<close>

locale watched_run = autopilot_run compose ap
  for compose :: "string \<Rightarrow> update list \<Rightarrow> (((nat \<times> nat) \<times> 'e) world, string) call" and ap :: "((nat \<times> nat) \<times> 'e) autopilot" +
  assumes compose_quiet: "fst (env (snd (compose q x w))) = fst (env w)"
    and embedder_quiet: "ap_embedder ap = Some m \<Longrightarrow> call_service (encode_query m) qs v = (a, v') \<Longrightarrow> fst (env v') = fst (env v)"
    and post_seen: "deliver (ap_sink ap) f thread w = (r, w') \<Longrightarrow> posts_seen r w w'"
begin

lemma summarise_quiet: "summarise (Some compose) q us w = (r, w') \<Longrightarrow> fst (env w') = fst (env w)"
  using compose_quiet [of q "take MAX_NARRATIVE_UPDATES us" w]
  by (auto simp: summarise_def split: if_splits prod.splits sum.splits exn.splits)

lemma search_quiet:
  "ap_embedder ap = Some m \<Longrightarrow> hybrid_search eng m q k srv since flr ex w = (r, w') \<Longrightarrow> fst (env w') = fst (env w)"
  by (auto simp: hybrid_search_def Let_def split: prod.splits sum.splits list.splits if_splits
      dest!: embedder_quiet) (metis get_centroid_frame(3) snd_conv)+

lemma gather_quiet:
  assumes "gather eng service i status q (Some compose) emb m as_of w = (r, w')" and "emb = None \<or> emb = ap_embedder ap"
  shows "fst (env w') = fst (env w)"
proof -
  let ?own = "fetch_incident_updates eng i as_of (db w)"
  obtain r1 w1 where s: "summarise (Some compose) q ?own w = (r1, w1)" by fastforce
  note quiet = summarise_quiet [OF s]
  have "w' = w1 \<or> (\<exists>e r2. ap_embedder ap = Some e \<and> recurrence_for eng e service i ?own w1 = (r2, w'))"
    using assms s by (auto simp: gather_def Let_def split: sum.splits option.splits if_splits prod.splits)
  moreover have "recurrence_for eng e service i ?own w1 = (r2, w') \<Longrightarrow> ap_embedder ap = Some e \<Longrightarrow> fst (env w') = fst (env w1)"
    for e r2
    by (auto simp: recurrence_for_def find_recurrences_def Let_def split: list.splits prod.splits sum.splits if_splits
        dest: search_quiet)
  ultimately show ?thesis using quiet by metis
qed

text \<open>A delivery under a claim, whatever the slot: the mark may also set columns the slot does not own.\<close>

lemma attempt_follows:
  assumes a: "attempt gathering (\<lambda>f. deliver (ap_sink ap) f thread) (release i) mk (on_incidents (\<lambda>_. t) w) = (r, w')"
    and g: "\<And>x w1. gathering (on_incidents (\<lambda>_. t) w) = (x, w1) \<Longrightarrow>
      same_but_budget (db (on_incidents (\<lambda>_. t) w)) (db w1) \<and> clock (on_incidents (\<lambda>_. t) w) \<le> clock w1
      \<and> fst (env w1) = fst (env w)"
    and mk: "\<And>x w2. incidents (db w2) = t \<Longrightarrow> clock (mk x w2) = clock w2 \<and> env (mk x w2) = env w2
      \<and> same_slot held delivered (mark (clock w2) i t) (incidents (db (mk x w2)))"
    and slot: "lease_slot claim release mark held delivered ready"
    and s: "sees s k w" and key: "keyed inc_id (incidents (db w))" and c: "claim (clock w) i (incidents (db w)) = (True, t)"
  shows "follows_protocol (worker_step claim release mark held delivered) held delivered s i (\<not> isl r) w w'"
proof -
  let ?S = "worker_step claim release mark held delivered"
  let ?w0 = "on_incidents (\<lambda>_. t) w"
  have idle: "worker s k = Idle" and cl: "claim (now_at s) i (rows s) = (True, t)" and now: "now_at s = clock w"
    using s c by (simp_all add: sees_def)
  have ok: "fst (claim (clock w) i (incidents (db w)))" and t: "t = snd (claim (clock w) i (incidents (db w)))"
    using c by simp_all
  obtain q0 where q0: "row_of inc_id i (incidents (db w)) = Some q0" "delivered q0 = None"
    using lease_slot.claim_obtains [OF slot ok key] by metis
  obtain q where q: "row_of inc_id i t = Some q" "delivered q = None"
    using lease_slot.claim_row [OF slot ok key q0(1)] q0(2) t by auto
  obtain x w1 where gw: "gathering ?w0 = (x, w1)" by fastforce
  note gf = g [OF gw]
  have t1: "incidents (db w1) = t" using same_but_budget_incidents [of "db ?w0" "db w1"] gf by simp
  have seen1: "shown w1 = shown w" "faults w1 = faults w" using gf by (simp_all add: shown_def faults_def)
  have failed: "follows_protocol ?S held delivered s i False w (on_incidents (release i) v)"
    if v: "incidents (db v) = t" "clock w \<le> clock v" "faults w + n \<le> faults v" "shown v = shown w + n" for v n
  proof -
    have "?S\<^sup>*\<^sup>* s (after_delivery s (on_incidents (release i) v) i False n)"
      using steps_failed [where claim = claim and s = s, OF idle cl, of "clock v"] v now by (simp add: after_delivery_def)
    moreover obtain q' where "row_of inc_id i (release i t) = Some q'" "held q' = None" "delivered q' = None"
      using lease_slot.release_row [OF slot q(1)] q(2) by auto
    ultimately show ?thesis using v by (auto simp: follows_protocol_def)
  qed
  show ?thesis
  proof (cases x)
    case (Inl e)
    with a gw have "r = Inl e" "w' = on_incidents (release i) w1" by (simp_all add: attempt_def)
    with failed [of w1 0] t1 gf seen1 show ?thesis by simp
  next
    case (Inr f)
    obtain y w2 where p: "deliver (ap_sink ap) f thread w1 = (y, w2)" by fastforce
    have f2: "incidents (db w2) = t" "clock w \<le> clock w2" using postD [OF p] gf t1 by auto
    from post_seen [OF p] seen1 obtain n where n: "faults w + n \<le> faults w2" "shown w2 = shown w + n + of_bool (\<not> isl y)"
      by (auto simp: posts_seen_def)
    show ?thesis
    proof (cases y)
      case (Inl e)
      with a gw Inr p have "r = Inl e" "w' = on_incidents (release i) w2" by (simp_all add: attempt_def)
      with failed [of w2 n] f2 n Inl show ?thesis by simp
    next
      case ok: (Inr z)
      with a gw Inr p have r: "r = Inr z" and w': "w' = mk z w2" by (simp_all add: attempt_def)
      note m = mk [OF f2(1), of z, folded w']
      let ?u = "s\<lparr>rows := mark (clock w2) i t, now_at := clock w2, posts := i # replicate n i @ posts s,
        unrecorded := replicate n i @ unrecorded s\<rparr>"
      have "?S\<^sup>*\<^sup>* s ?u" using f2(2) now by (intro steps_posted [where claim = claim and s = s, OF idle cl]) simp
      moreover have "?S ?u (?u\<lparr>rows := incidents (db w')\<rparr>)" using m by (intro worker_step.others) simp
      ultimately have "?S\<^sup>*\<^sup>* s (?u\<lparr>rows := incidents (db w')\<rparr>)" by (rule rtranclp.rtrancl_into_rtrancl)
      moreover have "?u\<lparr>rows := incidents (db w')\<rparr> = after_delivery s w' i True n"
        using m by (simp add: after_delivery_def)
      moreover obtain q' where "row_of inc_id i (mark (clock w2) i t) = Some q'" "delivered q' = Some (clock w2)"
        using lease_slot.mark_row [OF slot q(1)] by metis
      with m have "\<exists>q. row_of inc_id i (incidents (db w')) = Some q \<and> delivered q = Some (clock w')"
        by (fastforce simp: same_slot_def)
      moreover have "faults w' = faults w2" "shown w' = shown w2" using m by (simp_all add: faults_def shown_def)
      ultimately show ?thesis using r n ok by (auto simp: follows_protocol_def)
    qed
  qed
qed

text \<open>The three deliveries of the code.\<close>

lemma deferred_progress_follows:
  assumes run: "deliver_deferred_progress ap i w = (r, w')" and s: "sees s k w" and key: "keyed inc_id (incidents (db w))"
  shows "follows_protocol (worker_step claim_progress release_progress mark_progress_delivered progress_at progress_delivered_at)
    progress_at progress_delivered_at s i (r = Inr True) w w'"
proof (cases "claim_deferred_progress (clock w) i (incidents (db w))")
  case (Pair x t)
  show ?thesis
  proof (cases x)
    case None
    then have "t = incidents (db w)"
      using Pair claim_failed_same by (auto simp: claim_deferred_progress_def update_returning_def)
    then have "r = Inr False" and w': "w' = on_incidents (\<lambda>_. incidents (db w)) w"
      using run Pair None by (simp_all add: deliver_deferred_progress_def)
    with unclaimed_follows [OF s, of w'] show ?thesis by simp
  next
    case (Some q)
    obtain y where a: "attempt_progress ap (service_or_blank q) i (slack_ts q) (on_incidents (\<lambda>_. t) w) = (y, w')"
      and r: "r = (case y of Inl e \<Rightarrow> Inl e | Inr z \<Rightarrow> Inr True)"
      using run Pair Some by (auto simp: deliver_deferred_progress_def split: prod.splits sum.splits)
    have "claim_progress (clock w) i (incidents (db w)) = (True, t)"
      using deferred_progress_is_claim [OF _ key] Pair Some by blast
    from attempt_follows [OF a [unfolded attempt_progress_def composer] _ _ progress_slot.lease_slot_axioms s key this]
    have "follows_protocol (worker_step claim_progress release_progress mark_progress_delivered progress_at progress_delivered_at)
      progress_at progress_delivered_at s i (\<not> isl y) w w'"
      using gather_findings_frame gather_quiet by (fastforce simp: gather_findings_def)
    with r show ?thesis by (cases y) simp_all
  qed
qed

lemma deferred_postmortem_follows:
  assumes run: "deliver_deferred_postmortem ap i w = (r, w')" and s: "sees s k w" and key: "keyed inc_id (incidents (db w))"
  shows "follows_protocol (worker_step claim_postmortem release_postmortem mark_postmortem_delivered postmortem_at
      postmortem_delivered_at) postmortem_at postmortem_delivered_at s i (r = Inr True) w w'"
proof (cases "claim_deferred_postmortem (clock w) i (incidents (db w))")
  case (Pair x t)
  show ?thesis
  proof (cases x)
    case None
    then have "t = incidents (db w)"
      using Pair claim_failed_same by (auto simp: claim_deferred_postmortem_def update_returning_def)
    then have "r = Inr False" and w': "w' = on_incidents (\<lambda>_. incidents (db w)) w"
      using run Pair None by (simp_all add: deliver_deferred_postmortem_def)
    with unclaimed_follows [OF s, of w'] show ?thesis by simp
  next
    case (Some q)
    obtain y where a: "attempt_postmortem ap (service_or_blank q) i (slack_ts q) (on_incidents (\<lambda>_. t) w) = (y, w')"
      and r: "r = (case y of Inl e \<Rightarrow> Inl e | Inr z \<Rightarrow> Inr True)"
      using run Pair Some by (auto simp: deliver_deferred_postmortem_def split: prod.splits sum.splits)
    have "claim_postmortem (clock w) i (incidents (db w)) = (True, t)"
      using deferred_postmortem_is_claim [OF _ key] Pair Some by blast
    from attempt_follows [OF a [unfolded attempt_postmortem_def composer] _ _ postmortem_slot.lease_slot_axioms s key this]
    have "follows_protocol (worker_step claim_postmortem release_postmortem mark_postmortem_delivered postmortem_at
      postmortem_delivered_at) postmortem_at postmortem_delivered_at s i (\<not> isl y) w w'"
      using gather_postmortem_frame gather_quiet by (fastforce simp: gather_postmortem_def)
    with r show ?thesis by (cases y) simp_all
  qed
qed

lemma wait_for_index_env: "env (snd (wait_for_index i timeout w)) = env w"
  by (simp add: wait_for_index_frame)

lemma brief_follows:
  assumes run: "drain_briefs ap timeout [(i, service)] w = (r, w')" and s: "sees s k w" and key: "keyed inc_id (incidents (db w))"
  shows "follows_protocol (worker_step claim_incident release_incident (mark_brief_delivered None None) briefed_at brief_delivered_at)
    briefed_at brief_delivered_at s i (r = Inr 1) w w'"
proof (cases "claim_incident (clock w) i (incidents (db w))")
  case (Pair x t)
  show ?thesis
  proof (cases x)
    case False
    then have "t = incidents (db w)"
      using Pair claim_failed_same by (auto simp: claim_incident_def claim_with_def update_returning_def)
    then have "r = Inr 0" and w': "w' = on_incidents (\<lambda>_. incidents (db w)) w"
      using run Pair False by simp_all
    with unclaimed_follows [OF s, of w'] show ?thesis by simp
  next
    case True
    let ?g = "\<lambda>v. gather_findings (ap_engine ap) service i ''open'' (Some compose) (ap_embedder ap)
      (snd (wait_for_index i timeout v))"
    let ?m = "\<lambda>x v. on_incidents (mark_brief_delivered x (last_channel_id (ap_sink ap) v) (clock v) i) v"
    obtain y where b: "attempt_brief ap service i (snd (wait_for_index i timeout (on_incidents (\<lambda>_. t) w))) = (y, w')"
      and r: "(r = Inr 1) = (\<not> isl y)"
      using run Pair True by (auto simp: add_count_def split: prod.splits sum.splits exn.splits)
    have a: "attempt ?g (\<lambda>f. deliver (ap_sink ap) f None) (release_incident i) ?m (on_incidents (\<lambda>_. t) w) = (y, w')"
      using b by (simp add: attempt_brief_def attempt_def composer)
    have cl: "claim_incident (clock w) i (incidents (db w)) = (True, t)" using Pair True by simp
    have "follows_protocol (worker_step claim_incident release_incident (mark_brief_delivered None None) briefed_at
      brief_delivered_at) briefed_at brief_delivered_at s i (\<not> isl y) w w'"
    proof (rule attempt_follows [OF a _ _ brief_slot.lease_slot_axioms [of None None] s key cl])
      fix x w1
      assume gw: "?g (on_incidents (\<lambda>_. t) w) = (x, w1)"
      from gather_findings_frame [OF gw] gather_quiet [OF gw [unfolded gather_findings_def]]
      show "same_but_budget (db (on_incidents (\<lambda>_. t) w)) (db w1) \<and> clock (on_incidents (\<lambda>_. t) w) \<le> clock w1
          \<and> fst (env w1) = fst (env w)"
        using wait_for_index_frame(2) [of "on_incidents (\<lambda>_. t) w" i timeout]
        by (simp add: wait_for_index_frame(1) wait_for_index_env)
    next
      fix x and w2 :: "((nat \<times> nat) \<times> 'e) world"
      assume t: "incidents (db w2) = t"
      have "row_of inc_id j (mark_brief_delivered None None (clock w2) i t) = Some q \<Longrightarrow>
          \<exists>q'. row_of inc_id j (mark_brief_delivered x (last_channel_id (ap_sink ap) w2) (clock w2) i t) = Some q'
            \<and> briefed_at q' = briefed_at q \<and> brief_delivered_at q' = brief_delivered_at q" for j q
        by (cases "row_of inc_id j t") (auto simp: mark_brief_delivered_def set_incident_facts)
      then show "clock (?m x w2) = clock w2 \<and> env (?m x w2) = env w2
          \<and> same_slot briefed_at brief_delivered_at (mark_brief_delivered None None (clock w2) i t) (incidents (db (?m x w2)))"
        by (simp add: same_slot_def t) (simp add: mark_brief_delivered_def set_incident_facts)
    qed
    with r show ?thesis by simp
  qed
qed

end

lemma system_composer_beside:
  "fst (env (snd (system_composer (beside client) hcap dcap q hs w))) = fst (env w)"
proof (cases rule: spend_cases [of hcap dcap w])
  case refused
  then show ?thesis by (simp add: system_composer_def budgeted_compose_def)
next
  case (admitted t)
  let ?v = "w\<lparr>db := (db w)\<lparr>llm_budget := t\<rparr>\<rparr>"
  have "fst (env (snd (anthropic_compose (beside client) q hs ?v))) = fst (env ?v)"
    by (auto simp: anthropic_compose_def Let_def split: prod.split sum.split dest: call_beside)
  with admitted show ?thesis by (simp add: system_composer_def budgeted_compose_def)
qed

interpretation watched_slack: watched_run "system_composer (beside client) hcap dcap"
    "autopilot_with eng (beside client) hcap dcap (map_option embedder_beside emb)
       (slack_sink \<lparr>slack_token = token, slack_channel = channel, dry_run = False, sdk_installed = sdk\<rparr>
          (watched landed slack_client))"
  for client hcap dcap eng emb token channel sdk landed slack_client
proof unfold_locales
  show "fst (env (snd (system_composer (beside client) hcap dcap q x w))) = fst (env w)" for q x w
    by (rule system_composer_beside)
qed (auto simp: autopilot_with_def slack_sink_def embedder_beside_def slack_deliver_seen dest: call_beside)

text \<open>C22. The code follows the protocol. One worker's brief (the body of the drain for one due incident), deferred
  progress update and deferred postmortem, delivered to Slack and however they end, are each a sequence of
  steps of the multi-worker system of \<open>Workers\<close>, and the channel shows what those steps post: one message for a
  delivery reported, none otherwise, and besides at most one for each call that Slack took but answered with a
  failure. A delivery reported is on the row; without one the lease is given back, and where no claim was won
  nothing was sent at all.\<close>

theorem deferred_delivery_follows_the_protocol:
  assumes "make_sink ''slack'' token channel sdk (watched landed slack_client) = Inr sink"
    and "keyed inc_id (incidents (db w))" and "sees s k w"
    and "ap = autopilot_with eng (beside client) hcap dcap (map_option embedder_beside emb) sink"
  shows "(case drain_briefs ap timeout [(i, service)] w of (r, w') \<Rightarrow>
      follows_protocol (worker_step claim_incident release_incident (mark_brief_delivered None None) briefed_at brief_delivered_at)
        briefed_at brief_delivered_at s i (r = Inr 1) w w')
    \<and> (case deliver_deferred_progress ap i w of (r, w') \<Rightarrow>
      follows_protocol (worker_step claim_progress release_progress mark_progress_delivered progress_at progress_delivered_at)
        progress_at progress_delivered_at s i (r = Inr True) w w')
    \<and> (case deliver_deferred_postmortem ap i w of (r, w') \<Rightarrow>
      follows_protocol (worker_step claim_postmortem release_postmortem mark_postmortem_delivered postmortem_at
        postmortem_delivered_at) postmortem_at postmortem_delivered_at s i (r = Inr True) w w')"
proof -
  from assms(1) have "sink = slack_sink \<lparr>slack_token = str_of token, slack_channel = str_of channel, dry_run = False,
      sdk_installed = sdk\<rparr> (watched landed slack_client)"
    by (auto simp: make_sink_def split: if_splits)
  with watched_slack.brief_follows [OF _ assms(3,2)] watched_slack.deferred_progress_follows [OF _ assms(3,2)]
    watched_slack.deferred_postmortem_follows [OF _ assms(3,2)] show ?thesis
    by (auto simp: assms(4) split: prod.split)
qed

text \<open>A due row once it is claimed, at one moment or at a later one.\<close>

abbreviation brief_step :: "slot_sys \<Rightarrow> slot_sys \<Rightarrow> bool" where
  "brief_step \<equiv> worker_step claim_incident release_incident (mark_brief_delivered None None) briefed_at brief_delivered_at"

definition claimed_at :: "time \<Rightarrow> incident list" where
  "claimed_at now = [due_row\<lparr>briefed_at := Some now\<rparr>]"

lemma claim_due_row:
  "claim_incident now ''i'' [due_row] = (True, claimed_at now)"
  "now + minutes 15 < now' \<Longrightarrow> claim_incident now' ''i'' (claimed_at now) = (True, claimed_at now')"
  by (simp_all add: claim_incident_def claim_with_def update_returning_def update_rows_def brief_free_def due_row_def
      new_incident_def claimed_at_def lease_free_def LEASE_MINUTES_def)

text \<open>Slack takes the first post of a due brief and answers with a failure; the retry is accepted: two messages
  in the channel, one of them unseen.\<close>

definition flaky_slack :: "(nat, post_request, post_response option) service" where
  "flaky_slack q n = (if n = 0 then Inl TimeoutError else Inr None, 0, Suc n)"

definition watched_world :: "((nat \<times> nat) \<times> nat) world" where
  "watched_world = start_world (empty_database\<lparr>incidents := [due_row]\<rparr>) 10 ((0, 0), 0)"

lemma flaky_delivery:
  "\<exists>w'. drain_briefs (autopilot_with toy_engine (beside demo_client) 1 1 (map_option embedder_beside None)
       (slack_sink \<lparr>slack_token = ''t'', slack_channel = ''c'', dry_run = False, sdk_installed = True\<rparr>
          (watched (\<lambda>n. True) flaky_slack))) 0 [(''i'', ''api'')] watched_world = (Inr 1, w') \<and> shown w' = 2 \<and> faults w' = 1"
proof -
  let ?sink = "slack_sink \<lparr>slack_token = ''t'', slack_channel = ''c'', dry_run = False, sdk_installed = True\<rparr>
      (watched (\<lambda>n. True) flaky_slack)"
  let ?ap = "autopilot_with toy_engine (beside demo_client) 1 1 (map_option embedder_beside None) ?sink"
  let ?w = "on_incidents (\<lambda>_. claimed_at 10) watched_world"
  have w: "vector_records (db ?w) = []" "vector_records (db watched_world) = []" "clock ?w = 10" "env ?w = ((0, 0), 0)"
    "env watched_world = ((0, 0), 0)"
    by (simp_all add: watched_world_def empty_database_def)
  have wait: "wait_for_index ''i'' 0 ?w = (0, ?w)"
    by (simp add: wait_for_index_def wait_until.simps [of "''i''" "clock watched_world" ?w] indexed_count_def w Let_def)
  obtain f where g: "gather_findings toy_engine ''api'' ''i'' ''open'' (ap_composer ?ap) (ap_embedder ?ap) ?w = (Inr f, ?w)"
    by (simp add: gather_findings_def gather_def summarise_def fetch_incident_updates_def incident_rows_def w newest_first_def
        autopilot_with_def Let_def)
  obtain w' where p: "deliver (ap_sink ?ap) f None ?w = (Inr None, w')" and s: "shown w' = 2" "faults w' = 1"
    by (simp add: autopilot_with_def slack_sink_def slack_deliver_def MAX_ATTEMPTS_def numeral_3_eq_3 call_service_def
        watched_def flaky_slack_def accepted_def w shown_def faults_def Let_def numeral_2_eq_2)
  have "attempt_brief ?ap ''api'' ''i'' (snd (wait_for_index ''i'' 0 ?w))
      = (Inr None, on_incidents (mark_brief_delivered None (sink_channel w') (clock w') ''i'') w')"
    using g p by (simp add: attempt_brief_def attempt_def wait) (simp add: autopilot_with_def slack_sink_def)
  moreover have "claim_incident (clock watched_world) ''i'' (incidents (db watched_world)) = (True, claimed_at 10)"
    using claim_due_row(1) [of 10] by (simp add: watched_world_def)
  ultimately show ?thesis using s by (simp add: add_count_def)
qed

theorem deferred_delivery_follows_the_protocol_witness:
  "\<exists>w' :: ((nat \<times> nat) \<times> nat) world. faults w' = 1 \<and> shown w' = 2 \<and> brief_step\<^sup>*\<^sup>* (start_sys (incidents (db watched_world)) 10)
         (after_delivery (start_sys (incidents (db watched_world)) 10) w' ''i'' True 1)"
proof -
  let ?sink = "slack_sink \<lparr>slack_token = ''t'', slack_channel = ''c'', dry_run = False, sdk_installed = True\<rparr>
      (watched (\<lambda>n. True) flaky_slack)"
  let ?ap = "autopilot_with toy_engine (beside demo_client) 1 1 (map_option embedder_beside None) ?sink"
  let ?s = "start_sys (incidents (db watched_world)) 10"
  obtain w' where run: "drain_briefs ?ap 0 [(''i'', ''api'')] watched_world = (Inr 1, w')" and w': "shown w' = 2" "faults w' = 1"
    using flaky_delivery by blast
  have sink: "make_sink ''slack'' (Some ''t'') (Some ''c'') True (watched (\<lambda>n. True) flaky_slack) = Inr ?sink"
    by (simp add: make_sink_def truthy_def str_of_def)
  have key: "keyed inc_id (incidents (db watched_world))" by (simp add: watched_world_def keyed_def)
  have sees: "sees ?s 0 watched_world" by (simp add: sees_def start_sys_def watched_world_def)
  have "follows_protocol (worker_step claim_incident release_incident (mark_brief_delivered None None) briefed_at brief_delivered_at)
      briefed_at brief_delivered_at ?s ''i'' True watched_world w'"
    using deferred_delivery_follows_the_protocol [where eng = toy_engine and client = demo_client and hcap = 1 and dcap = 1
        and emb = None and timeout = 0 and i = "''i''" and service = "''api''", OF sink key sees refl] run
    by simp
  moreover have "shown watched_world = 0" "faults watched_world = 0"
    by (simp_all add: watched_world_def shown_def faults_def)
  ultimately obtain n where "n \<le> 1" "2 = n + 1"
    "brief_step\<^sup>*\<^sup>* ?s (after_delivery ?s w' ''i'' True n)" using w' by (auto simp: follows_protocol_def)
  with w' show ?thesis by (intro exI [of _ w']) simp
qed

subsection \<open>No duplicate posts, as long as leases are respected\<close>

text \<open>C4. A post is repeated only after one that was never recorded. Any number of workers, interleaved in any way with
  each other and with other writers of the row, with failed posts, posts that land although the call
  fails, and deaths at any point: as long as no worker is still busy when its lease runs out, an incident's brief,
  progress update or postmortem is posted at most once more than it has posts of a worker that died before
  its mark or took them for failures; without such a post it is posted once.\<close>

theorem no_incident_is_posted_twice:
  assumes "keyed inc_id t"
  shows "(timely_run claim_incident release_incident (mark_brief_delivered None None) briefed_at brief_delivered_at
        (start_sys t now) u \<longrightarrow> repeats_only_unrecorded u)
    \<and> (timely_run claim_progress release_progress mark_progress_delivered progress_at progress_delivered_at
        (start_sys t now) u \<longrightarrow> repeats_only_unrecorded u)
    \<and> (timely_run claim_postmortem release_postmortem mark_postmortem_delivered postmortem_at postmortem_delivered_at
        (start_sys t now) u \<longrightarrow> repeats_only_unrecorded u)"
  using brief_slot.posted_once [OF _ assms] progress_slot.posted_once [OF _ assms]
    postmortem_slot.posted_once [OF _ assms] by blast

text \<open>The first worker dies between its post and its mark; a second one finds the lease run out and posts again.\<close>

theorem no_incident_is_posted_twice_witness:
  "\<exists>u. timely_run claim_incident release_incident (mark_brief_delivered None None) briefed_at brief_delivered_at
       (start_sys [due_row] 0) u \<and> posts u = [''i'', ''i''] \<and> unrecorded u = [''i''] \<and> repeats_only_unrecorded u"
proof -
  let ?late = "minutes 15 + 1"
  let ?s0 = "start_sys [due_row] 0"
  let ?s1 = "?s0\<lparr>rows := claimed_at 0, worker := (worker ?s0)(7 := Holding ''i'' 0)\<rparr>"
  let ?s2 = "?s1\<lparr>worker := (worker ?s1)(7 := Posted ''i'' 0), posts := ''i'' # posts ?s1\<rparr>"
  let ?s3 = "?s2\<lparr>worker := (worker ?s2)(7 := Idle), unrecorded := ''i'' # unrecorded ?s2\<rparr>"
  let ?s4 = "?s3\<lparr>now_at := ?late\<rparr>"
  let ?s5 = "?s4\<lparr>rows := claimed_at ?late, worker := (worker ?s4)(8 := Holding ''i'' ?late)\<rparr>"
  let ?s6 = "?s5\<lparr>worker := (worker ?s5)(8 := Posted ''i'' ?late), posts := ''i'' # posts ?s5\<rparr>"
  let ?R = "timely_run claim_incident release_incident (mark_brief_delivered None None) briefed_at brief_delivered_at"
  have tm: "timely ?s1" "timely ?s2" "timely ?s3" "timely ?s4" "timely ?s5" "timely ?s6"
    by (auto simp: timely_def start_sys_def LEASE_MINUTES_def)
  have "brief_step ?s0 ?s1"
    using worker_step.claim_it [of ?s0 7 claim_incident "''i''" "claimed_at 0"] claim_due_row(1) [of 0]
    by (simp add: start_sys_def)
  then have r1: "?R ?s0 ?s1" by (rule timely_run.run_step [OF timely_run.run_done _ tm(1)])
  have "brief_step ?s1 ?s2" by (rule worker_step.post_it) simp
  then have r2: "?R ?s0 ?s2" by (rule timely_run.run_step [OF r1 _ tm(2)])
  have "brief_step ?s2 ?s3" by (rule worker_step.die_late) simp
  then have r3: "?R ?s0 ?s3" by (rule timely_run.run_step [OF r2 _ tm(3)])
  have "brief_step ?s3 ?s4" by (rule worker_step.pass_time) (simp add: start_sys_def)
  then have r4: "?R ?s0 ?s4" by (rule timely_run.run_step [OF r3 _ tm(4)])
  have "brief_step ?s4 ?s5"
    using worker_step.claim_it [of ?s4 8 claim_incident "''i''" "claimed_at ?late"] claim_due_row(2) [of 0 ?late]
    by (simp add: start_sys_def)
  then have r5: "?R ?s0 ?s5" by (rule timely_run.run_step [OF r4 _ tm(5)])
  have "brief_step ?s5 ?s6" by (rule worker_step.post_it) simp
  then have r6: "?R ?s0 ?s6" by (rule timely_run.run_step [OF r5 _ tm(6)])
  have "keyed inc_id [due_row]" by (simp add: keyed_def)
  with no_incident_is_posted_twice r6 have "repeats_only_unrecorded ?s6" by blast
  with r6 show ?thesis by (intro exI [of _ ?s6]) (simp add: start_sys_def)
qed

lemma five_steps: "S a b \<Longrightarrow> S b c \<Longrightarrow> S c d \<Longrightarrow> S d e \<Longrightarrow> S e f \<Longrightarrow> S\<^sup>*\<^sup>* a f"
  by (meson converse_rtranclp_into_rtranclp rtranclp.rtrancl_refl)

text \<open>The limit of the lease: a worker that is still gathering when its fifteen minutes are over loses its
  slot to a second worker, and both post the same brief, the double delivery that the comment on
  \<^verbatim>\<open>drain_due_briefs\<close> rules out.\<close>

theorem slow_worker_posts_twice:
  "\<exists>u. brief_step\<^sup>*\<^sup>* (start_sys [due_row] 0) u \<and> posts u = [''i'', ''i'']"
proof -
  let ?late = "minutes 15 + 1"
  let ?s0 = "start_sys [due_row] 0"
  let ?s1 = "?s0\<lparr>rows := claimed_at 0, worker := (worker ?s0)(0 := Holding ''i'' 0)\<rparr>"
  let ?s2 = "?s1\<lparr>now_at := ?late\<rparr>"
  let ?s3 = "?s2\<lparr>rows := claimed_at ?late, worker := (worker ?s2)(1 := Holding ''i'' ?late)\<rparr>"
  let ?s4 = "?s3\<lparr>worker := (worker ?s3)(0 := Posted ''i'' 0), posts := ''i'' # posts ?s3\<rparr>"
  let ?s5 = "?s4\<lparr>worker := (worker ?s4)(1 := Posted ''i'' ?late), posts := ''i'' # posts ?s4\<rparr>"
  have "brief_step ?s0 ?s1"
    using worker_step.claim_it [of ?s0 0 claim_incident "''i''" "claimed_at 0"] claim_due_row(1) [of 0]
    by (simp add: start_sys_def)
  moreover have "brief_step ?s1 ?s2" by (rule worker_step.pass_time) (simp add: start_sys_def)
  moreover have "brief_step ?s2 ?s3"
    using worker_step.claim_it [of ?s2 1 claim_incident "''i''" "claimed_at ?late"] claim_due_row(2) [of 0 ?late]
    by (simp add: start_sys_def)
  moreover have "brief_step ?s3 ?s4" by (rule worker_step.post_it) simp
  moreover have "brief_step ?s4 ?s5" by (rule worker_step.post_it) simp
  ultimately have "brief_step\<^sup>*\<^sup>* ?s0 ?s5" by (rule five_steps)
  then show ?thesis by (intro exI [of _ ?s5]) (simp add: start_sys_def)
qed

end
