(* ===== verification/Timeframe.thy ===== *)
theory Timeframe
  imports Regex Civil
begin

section \<open>Time windows from a question (\<^verbatim>\<open>freshet/rag/timeframe.py\<close>)\<close>

text \<open>
  The ordered rule table: a rule is a pattern, the start of the window it asks for and the label
  shown to the user; \<open>infer_window\<close> applies the first rule that matches. Subtracting a span may
  leave the range of \<^verbatim>\<open>datetime\<close> and raise \<^verbatim>\<open>OverflowError\<close>; a digit string of more than 4300
  digits is refused by \<^verbatim>\<open>int\<close>. The theorems: a window never starts in the future, and a numeric
  span wins over every later rule of the table.
\<close>

type_synonym rule = "re \<times> (time \<Rightarrow> groups \<Rightarrow> time res) \<times> (groups \<Rightarrow> string)"

definition parse_int :: "string \<Rightarrow> int res" where
  "parse_int s = (if 4300 < length s then Inl ValueError else Inr (int_of_digits s))"

text \<open>\<^verbatim>\<open>now - timedelta(..)\<close>.\<close>

definition backward :: "time \<Rightarrow> time \<Rightarrow> time res" where
  "backward now d = (if now - d < MIN_TIME then Inl (OtherError ''OverflowError'') else Inr (now - d))"

definition back_units :: "time \<Rightarrow> time \<Rightarrow> groups \<Rightarrow> time res" where
  "back_units unit now g =
     (case parse_int (group_text 1 g) of Inl e \<Rightarrow> Inl e | Inr n \<Rightarrow> backward now (n * unit))"

definition span_word :: re where
  "span_word = alt [lit_i ''last'', lit_i ''past'', lit_i ''previous'']"

definition span_number :: re where
  "span_number = Grp 1 (some (Cls is_digit))"

definition SPAN_HOURS :: re where
  "SPAN_HOURS = seq [WordEdge, span_word, some space, span_number, many space,
     lit_i ''h'', opt (lit_i ''ou''), lit_i ''r'', opt (lit_i ''s''), WordEdge]"

definition SPAN_DAYS :: re where
  "SPAN_DAYS = seq [WordEdge, span_word, some space, span_number, many space,
     lit_i ''day'', opt (lit_i ''s''), WordEdge]"

definition phrase :: "string \<Rightarrow> re" where
  "phrase s = seq [WordEdge, lit_i s, WordEdge]"

definition RULES :: "rule list" where
  "RULES =
    [(SPAN_HOURS, \<lambda>now g. back_units (hours 1) now g, \<lambda>g. ''last '' @ group_text 1 g @ '' hours''),
     (SPAN_DAYS, \<lambda>now g. back_units (days 1) now g, \<lambda>g. ''last '' @ group_text 1 g @ '' days''),
     (seq [WordEdge, span_word, some space, lit_i ''hour'', WordEdge],
        \<lambda>now g. backward now (hours 1), \<lambda>g. ''last hour''),
     (seq [WordEdge, alt [lit_i ''this'', lit_i ''the''], some space, lit_i ''morning'', WordEdge],
        \<lambda>now g. Inr (midnight now), \<lambda>g. ''today''),
     (alt [phrase ''today'', phrase ''so far today''],
        \<lambda>now g. Inr (midnight now), \<lambda>g. ''today''),
     (phrase ''yesterday'', \<lambda>now g. backward (midnight now) (days 1), \<lambda>g. ''since yesterday''),
     (alt [seq [WordEdge, alt [lit_i ''this'', lit_i ''past'', lit_i ''last''], some space, lit_i ''week'', WordEdge],
           seq [WordEdge, lit_i ''last'', some space, lit_i ''7'', many space, lit_i ''days'', WordEdge]],
        \<lambda>now g. backward now (days 7), \<lambda>g. ''last 7 days''),
     (alt [phrase ''right now'', phrase ''currently'', phrase ''at the moment'', phrase ''ongoing'', phrase ''now''],
        \<lambda>now g. backward now (hours 6), \<lambda>g. ''last 6 hours''),
     (alt [seq [WordEdge, lit_i ''recent'', opt (lit_i ''ly''), WordEdge], phrase ''lately'', phrase ''latest''],
        \<lambda>now g. backward now (hours 24), \<lambda>g. ''last 24 hours'')]"

fun first_window :: "rule list \<Rightarrow> string \<Rightarrow> time \<Rightarrow> (time \<times> string) option res" where
  "first_window [] question now = Inr None"
| "first_window ((pattern, build, label) # rules) question now =
     (case search pattern question of
        None \<Rightarrow> first_window rules question now
      | Some (before, m, g, after) \<Rightarrow>
          (case build now g of Inl e \<Rightarrow> Inl e | Inr since \<Rightarrow> Inr (Some (since, label g))))"

definition infer_window :: "string \<Rightarrow> time \<Rightarrow> (time \<times> string) option res" where
  "infer_window question now = first_window RULES question now"

subsection \<open>What a window can be\<close>

lemma midnight_le: "midnight now \<le> now"
  unfolding midnight_def by linarith

lemma back_le: "backward now d = Inr since \<Longrightarrow> 0 \<le> d \<Longrightarrow> since \<le> now \<and> MIN_TIME \<le> since"
  by (auto simp: backward_def split: if_splits)

lemma foldl_digits_nonneg: "0 \<le> n \<Longrightarrow> 0 \<le> foldl (\<lambda>n c. 10 * n + int (digit_value c)) n s"
  by (induction s arbitrary: n) simp_all

lemma int_of_digits_nonneg: "0 \<le> int_of_digits s"
  by (simp add: int_of_digits_def foldl_digits_nonneg)

lemma back_units_le: "back_units unit now g = Inr since \<Longrightarrow> 0 \<le> unit \<Longrightarrow> since \<le> now"
  using back_le [of now "int_of_digits (group_text 1 g) * unit" since] int_of_digits_nonneg
  by (auto simp: back_units_def parse_int_def split: if_splits)

definition looks_back :: "rule \<Rightarrow> bool" where
  "looks_back r \<longleftrightarrow> (\<forall>now g since. fst (snd r) now g = Inr since \<longrightarrow> since \<le> now)"

lemma first_window_back:
  "list_all looks_back rules \<Longrightarrow> first_window rules question now = Inr (Some (since, label)) \<Longrightarrow> since \<le> now"
  by (induction rules) (auto simp: looks_back_def split: option.splits sum.splits)

lemma rules_look_back: "list_all looks_back RULES"
  using midnight_le
  by (auto simp: RULES_def looks_back_def dest!: back_le back_units_le intro: order_trans)

text \<open>A recognised phrase asks for the past: the inferred window never starts after the present.\<close>

theorem window_starts_in_the_past:
  assumes "infer_window question now = Inr (Some (since, label))"
  shows "since \<le> now"
  using assms first_window_back [OF rules_look_back] by (simp add: infer_window_def)

theorem window_starts_in_the_past_witness:
  "infer_window ''what broke in the last 3 hours?'' 20000000000 = Inr (Some (9200000000, ''last 3 hours''))
    \<and> (9200000000 :: time) \<le> 20000000000"
proof -
  have "infer_window ''what broke in the last 3 hours?'' 20000000000 = Inr (Some (9200000000, ''last 3 hours''))"
    by code_simp
  with window_starts_in_the_past [OF this] show ?thesis by simp
qed

text \<open>A question may name a span that leaves the calendar: the inference then raises instead of
  answering without a window, although the rule table is documented to leave unusual questions alone.\<close>

theorem span_beyond_the_calendar_raises:
  "infer_window ''what broke in the last 99999999999 hours?'' 0 = Inl (OtherError ''OverflowError'')"
  by code_simp

end
