(* ===== verification/Schemas.thy ===== *)
theory Schemas
  imports Lifecycle Iso
begin

section \<open>The data contract (\<^verbatim>\<open>freshet/common/schemas.py\<close>)\<close>

text \<open>
  The event and the vector record, the validation of an event from parsed JSON, and the latencies.
  Validation follows the field list of the model: a missing field takes its default, an unknown
  field is ignored, a field of the wrong kind is a \<^verbatim>\<open>ValidationError\<close> (a \<^verbatim>\<open>ValueError\<close>). How the
  library reads an integer and a timestamp is a parameter: \<open>as_int\<close>, and \<open>as_stamp\<close>, which
  returns the local time and its offset, if any; \<open>as_utc\<close> takes a naive one as UTC (\<^verbatim>\<open>_to_utc\<close>).
\<close>

datatype event_source = ALERT | DEPLOY | METRIC | CHAT | POSTMORTEM | RUNBOOK

datatype severity = SEV1 | SEV2 | SEV3 | SEV4

fun source_value :: "event_source \<Rightarrow> string" where
  "source_value ALERT = ''alert''"
| "source_value DEPLOY = ''deploy''"
| "source_value METRIC = ''metric''"
| "source_value CHAT = ''chat''"
| "source_value POSTMORTEM = ''postmortem''"
| "source_value RUNBOOK = ''runbook''"

fun severity_value :: "severity \<Rightarrow> string" where
  "severity_value SEV1 = ''SEV1''"
| "severity_value SEV2 = ''SEV2''"
| "severity_value SEV3 = ''SEV3''"
| "severity_value SEV4 = ''SEV4''"

definition member_of :: "('a \<Rightarrow> string) \<Rightarrow> 'a list \<Rightarrow> json \<Rightarrow> 'a option" where
  "member_of name_of all v = (case v of JStr s \<Rightarrow> find (\<lambda>x. name_of x = s) all | _ \<Rightarrow> None)"

definition as_source :: "json \<Rightarrow> event_source option" where
  "as_source = member_of source_value [ALERT, DEPLOY, METRIC, CHAT, POSTMORTEM, RUNBOOK]"

definition as_severity :: "json \<Rightarrow> severity option" where
  "as_severity = member_of severity_value [SEV1, SEV2, SEV3, SEV4]"

record event =
  ev_id :: string
  ev_v :: int
  ev_ts :: time
  ev_ingested_at :: "time option"
  ev_indexed_at :: "time option"
  ev_service :: string
  ev_source :: event_source
  ev_type :: string
  ev_severity :: "severity option"
  ev_incident :: "string option"
  ev_title :: "string option"
  ev_text :: string
  ev_structured :: "(string \<times> json) list"
  ev_refs :: "string list"

record vector_record =
  rec_chunk :: string
  rec_index :: nat
  rec_event :: string
  rec_incident :: "string option"
  rec_service :: string
  rec_ts :: time
  rec_indexed_at :: time
  rec_text :: string
  rec_title :: "string option"
  rec_source :: event_source
  rec_severity :: "severity option"
  rec_type :: string

subsection \<open>Fields\<close>

fun as_str :: "json \<Rightarrow> string option" where
  "as_str (JStr s) = Some s"
| "as_str _ = None"

fun as_object :: "json \<Rightarrow> (string \<times> json) list option" where
  "as_object (JObj d) = Some d"
| "as_object _ = None"

fun all_some :: "'a option list \<Rightarrow> 'a list option" where
  "all_some [] = Some []"
| "all_some (None # xs) = None"
| "all_some (Some x # xs) = map_option ((#) x) (all_some xs)"

fun as_strings :: "json \<Rightarrow> string list option" where
  "as_strings (JArr vs) = all_some (map as_str vs)"
| "as_strings _ = None"

type_synonym fields = "(string \<times> json) list"

definition checked :: "'a option \<Rightarrow> 'a res" where
  "checked x = (case x of None \<Rightarrow> Inl ValueError | Some y \<Rightarrow> Inr y)"

definition req_field :: "(json \<Rightarrow> 'a option) \<Rightarrow> string \<Rightarrow> fields \<Rightarrow> 'a res" where
  "req_field conv k d = (case map_of d k of None \<Rightarrow> Inl ValueError | Some v \<Rightarrow> checked (conv v))"

definition def_field :: "(json \<Rightarrow> 'a option) \<Rightarrow> 'a \<Rightarrow> string \<Rightarrow> fields \<Rightarrow> 'a res" where
  "def_field conv dflt k d = (case map_of d k of None \<Rightarrow> Inr dflt | Some v \<Rightarrow> checked (conv v))"

definition opt_field :: "(json \<Rightarrow> 'a option) \<Rightarrow> string \<Rightarrow> fields \<Rightarrow> 'a option res" where
  "opt_field conv k d =
     (case map_of d k of None \<Rightarrow> Inr None | Some JNull \<Rightarrow> Inr None | Some v \<Rightarrow> map_sum id Some (checked (conv v)))"

text \<open>All fields are checked; any failure fails the whole.\<close>

definition event_of_fields ::
  "(json \<Rightarrow> int option) \<Rightarrow> (json \<Rightarrow> (time \<times> time option) option) \<Rightarrow> string \<Rightarrow> time \<Rightarrow> fields \<Rightarrow> event res" where
  "event_of_fields as_int as_stamp new_id now d =
     (let stamp = map_option as_utc \<circ> as_stamp in
      and_then (def_field as_str new_id ''event_id'' d) (\<lambda>i.
      and_then (def_field as_int 1 ''v'' d) (\<lambda>v.
      and_then (def_field stamp now ''ts'' d) (\<lambda>t.
      and_then (opt_field stamp ''ingested_at'' d) (\<lambda>ing.
      and_then (opt_field stamp ''indexed_at'' d) (\<lambda>ind.
      and_then (req_field as_str ''service'' d) (\<lambda>srv.
      and_then (req_field as_source ''source'' d) (\<lambda>src.
      and_then (req_field as_str ''type'' d) (\<lambda>ty.
      and_then (opt_field as_severity ''severity'' d) (\<lambda>sev.
      and_then (opt_field as_str ''incident_id'' d) (\<lambda>inc.
      and_then (opt_field as_str ''title'' d) (\<lambda>title.
      and_then (def_field as_str [] ''text'' d) (\<lambda>body.
      and_then (def_field as_object [] ''structured'' d) (\<lambda>str.
      and_then (def_field as_strings [] ''refs'' d) (\<lambda>refs.
        Inr \<lparr>ev_id = i, ev_v = v, ev_ts = t, ev_ingested_at = ing, ev_indexed_at = ind, ev_service = srv,
          ev_source = src, ev_type = ty, ev_severity = sev, ev_incident = inc, ev_title = title,
          ev_text = body, ev_structured = str, ev_refs = refs\<rparr>)))))))))))))))"

definition event_of_wire ::
  "(json \<Rightarrow> int option) \<Rightarrow> (json \<Rightarrow> (time \<times> time option) option) \<Rightarrow> string \<Rightarrow> time \<Rightarrow> json \<Rightarrow> event res" where
  "event_of_wire as_int as_stamp new_id now v =
     (case v of JObj d \<Rightarrow> event_of_fields as_int as_stamp new_id now d | _ \<Rightarrow> Inl ValueError)"

text \<open>\<^verbatim>\<open>model_dump_json\<close>, the printing of a timestamp being the library's.\<close>

definition opt_json :: "('a \<Rightarrow> json) \<Rightarrow> 'a option \<Rightarrow> json" where
  "opt_json f x = (case x of None \<Rightarrow> JNull | Some y \<Rightarrow> f y)"

definition wire_of_event :: "(time \<Rightarrow> json) \<Rightarrow> event \<Rightarrow> json" where
  "wire_of_event show_stamp ev = JObj
     [(''event_id'', JStr (ev_id ev)), (''v'', JInt (ev_v ev)), (''ts'', show_stamp (ev_ts ev)),
      (''ingested_at'', opt_json show_stamp (ev_ingested_at ev)), (''indexed_at'', opt_json show_stamp (ev_indexed_at ev)),
      (''service'', JStr (ev_service ev)), (''source'', JStr (source_value (ev_source ev))),
      (''type'', JStr (ev_type ev)), (''severity'', opt_json (JStr \<circ> severity_value) (ev_severity ev)),
      (''incident_id'', opt_json JStr (ev_incident ev)), (''title'', opt_json JStr (ev_title ev)),
      (''text'', JStr (ev_text ev)), (''structured'', JObj (ev_structured ev)), (''refs'', JArr (map JStr (ev_refs ev)))]"

subsection \<open>Latencies\<close>

definition end_to_end_latency_s :: "event \<Rightarrow> real option" where
  "end_to_end_latency_s ev = map_option (\<lambda>i. total_seconds (i - ev_ts ev)) (ev_indexed_at ev)"

definition pipeline_latency_s :: "event \<Rightarrow> real option" where
  "pipeline_latency_s ev =
     (case (ev_indexed_at ev, ev_ingested_at ev) of
        (Some ind, Some ing) \<Rightarrow> Some (total_seconds (ind - ing)) | _ \<Rightarrow> None)"

subsection \<open>Round trip\<close>

lemma all_some_map [simp]: "all_some (map (\<lambda>x. Some (f x)) xs) = Some (map f xs)"
  by (induction xs) simp_all

lemma all_some_strs [simp]: "all_some (map (as_str \<circ> JStr) xs) = Some xs"
  by (induction xs) simp_all

lemma as_source_value [simp]: "as_source (JStr (source_value s)) = Some s"
  by (cases s) (simp_all add: as_source_def member_of_def)

lemma as_severity_value [simp]: "as_severity (JStr (severity_value s)) = Some s"
  by (cases s) (simp_all add: as_severity_def member_of_def)

lemma opt_field_dump:
  "map_of d k = Some (opt_json f x) \<Longrightarrow> (\<forall>y. x = Some y \<longrightarrow> f y \<noteq> JNull \<and> conv (f y) = Some y) \<Longrightarrow>
     opt_field conv k d = Inr x"
  by (cases x) (auto simp: opt_field_def opt_json_def checked_def split: json.split)

lemma wire_keys:
  fixes show_stamp ev
  defines "d \<equiv> (case wire_of_event show_stamp ev of JObj d \<Rightarrow> d | _ \<Rightarrow> [])"
  shows "wire_of_event show_stamp ev = JObj d"
    "map_of d ''event_id'' = Some (JStr (ev_id ev))" "map_of d ''v'' = Some (JInt (ev_v ev))"
    "map_of d ''ts'' = Some (show_stamp (ev_ts ev))"
    "map_of d ''ingested_at'' = Some (opt_json show_stamp (ev_ingested_at ev))"
    "map_of d ''indexed_at'' = Some (opt_json show_stamp (ev_indexed_at ev))"
    "map_of d ''service'' = Some (JStr (ev_service ev))" "map_of d ''source'' = Some (JStr (source_value (ev_source ev)))"
    "map_of d ''type'' = Some (JStr (ev_type ev))"
    "map_of d ''severity'' = Some (opt_json (JStr \<circ> severity_value) (ev_severity ev))"
    "map_of d ''incident_id'' = Some (opt_json JStr (ev_incident ev))"
    "map_of d ''title'' = Some (opt_json JStr (ev_title ev))" "map_of d ''text'' = Some (JStr (ev_text ev))"
    "map_of d ''structured'' = Some (JObj (ev_structured ev))" "map_of d ''refs'' = Some (JArr (map JStr (ev_refs ev)))"
  by (simp_all add: d_def wire_of_event_def)

text \<open>An event survives the wire: reading what \<^verbatim>\<open>model_dump_json\<close> wrote gives the same event, whatever the
  defaults, provided the library reads back an integer and each of the event's own timestamps.\<close>

theorem event_survives_the_wire:
  assumes "as_int (JInt (ev_v ev)) = Some (ev_v ev)"
    and "list_all (\<lambda>t. show_stamp t \<noteq> JNull \<and> map_option as_utc (as_stamp (show_stamp t)) = Some t)
      (ev_ts ev # [t. Some t \<leftarrow> [ev_ingested_at ev, ev_indexed_at ev]])"
  shows "event_of_wire as_int as_stamp new_id now (wire_of_event show_stamp ev) = Inr ev"
proof -
  obtain d where d: "d = (case wire_of_event show_stamp ev of JObj d \<Rightarrow> d | _ \<Rightarrow> [])" by blast
  note k = wire_keys [of show_stamp ev, folded d]
  have "opt_field (map_option as_utc \<circ> as_stamp) ''ingested_at'' d = Inr (ev_ingested_at ev)"
    by (rule opt_field_dump [OF k(5)]) (use assms(2) in \<open>auto split: option.splits\<close>)
  moreover have "opt_field (map_option as_utc \<circ> as_stamp) ''indexed_at'' d = Inr (ev_indexed_at ev)"
    by (rule opt_field_dump [OF k(6)]) (use assms(2) in \<open>auto split: option.splits\<close>)
  moreover have "opt_field as_severity ''severity'' d = Inr (ev_severity ev)"
    by (rule opt_field_dump [OF k(10)]) simp
  moreover have "opt_field as_str ''incident_id'' d = Inr (ev_incident ev)"
    by (rule opt_field_dump [OF k(11)]) simp
  moreover have "opt_field as_str ''title'' d = Inr (ev_title ev)"
    by (rule opt_field_dump [OF k(12)]) simp
  moreover obtain p where "as_stamp (show_stamp (ev_ts ev)) = Some p" "as_utc p = ev_ts ev"
    using assms(2) by auto
  ultimately show ?thesis
    using assms(1) unfolding event_of_wire_def k(1)
    by (simp add: event_of_fields_def def_field_def req_field_def checked_def and_then_def k Let_def)
qed

definition demo_event :: event where
  "demo_event = \<lparr>ev_id = ''evt_1'', ev_v = 1, ev_ts = 1709296200000000, ev_ingested_at = None,
     ev_indexed_at = Some 1709296200500000, ev_service = ''zoom'', ev_source = ALERT, ev_type = ''status_update'',
     ev_severity = Some SEV2, ev_incident = Some ''zoom:1'', ev_title = None, ev_text = ''Outage: we look'',
     ev_structured = [], ev_refs = [''a'']\<rparr>"

theorem event_survives_the_wire_witness:
  "event_of_wire (\<lambda>v. case v of JInt n \<Rightarrow> Some n | _ \<Rightarrow> None)
     (\<lambda>v. case v of JInt n \<Rightarrow> Some (n, None) | _ \<Rightarrow> None) ''new'' 0 (wire_of_event JInt demo_event) = Inr demo_event"
  by (rule event_survives_the_wire) (simp_all add: demo_event_def as_utc_def)

end
