(* ===== verification/Heartbeat.thy ===== *)
theory Heartbeat
  imports Interfaces
begin

section \<open>Liveness and housekeeping (\<^verbatim>\<open>heartbeat.py\<close>, \<^verbatim>\<open>maintenance.py\<close>)\<close>

text \<open>
  The throttled heartbeat writer, the per-minute log, its pruning, the reader that finds the
  start of the current unbroken run, and the hourly housekeeping pass. The monotonic clock is
  the world's clock in seconds. \<open>run_start_spec\<close> characterises the reader; the heartbeat is an
  instance of the \<open>throttle\<close> contract.
\<close>

definition BEAT_INTERVAL_S :: real where
  "BEAT_INTERVAL_S = 30"

definition GAP_TOLERANCE_S :: real where
  "GAP_TOLERANCE_S = 300"

definition HEARTBEAT_RETENTION_DAYS :: int where
  "HEARTBEAT_RETENTION_DAYS = 30"

definition monotonic :: "'e world \<Rightarrow> real" where
  "monotonic w = total_seconds (clock w)"

definition prune_log :: "time \<Rightarrow> database \<Rightarrow> database" where
  "prune_log now d =
     d\<lparr>heartbeat_log := filter (\<lambda>r. \<not> snd r < now - days HEARTBEAT_RETENTION_DAYS) (heartbeat_log d)\<rparr>"

record heartbeat =
  hb_component :: string
  hb_interval :: real
  hb_last :: real

definition new_heartbeat :: "string \<Rightarrow> heartbeat" where
  "new_heartbeat c = \<lparr>hb_component = c, hb_interval = BEAT_INTERVAL_S, hb_last = - 1000000000\<rparr>"

definition beat_due :: "heartbeat \<Rightarrow> real \<Rightarrow> bool" where
  "beat_due h t \<longleftrightarrow> \<not> t - hb_last h < hb_interval h"

definition beat_arm :: "heartbeat \<Rightarrow> real \<Rightarrow> heartbeat" where
  "beat_arm h t = h\<lparr>hb_last := t\<rparr>"

text \<open>\<^verbatim>\<open>date_trunc('minute', now())\<close>, and the two statements of a beat.\<close>

definition minute_of :: "time \<Rightarrow> time" where
  "minute_of t = t - t mod minutes 1"

definition write_beat :: "string \<Rightarrow> time \<Rightarrow> database \<Rightarrow> database" where
  "write_beat c now d =
     d\<lparr>heartbeats := upsert fst (c, now) (\<lambda>r. (fst r, now)) (heartbeats d),
       heartbeat_log := insert_once (c, minute_of now) (heartbeat_log d)\<rparr>"

definition beat :: "heartbeat \<Rightarrow> 'e world \<Rightarrow> bool \<times> heartbeat \<times> 'e world" where
  "beat h w =
     (if beat_due h (monotonic w)
      then (True, beat_arm h (monotonic w), w\<lparr>db := write_beat (hb_component h) (clock w) (db w)\<rparr>)
      else (False, h, w))"

interpretation beats: throttle beat_due beat_arm hb_interval
  by unfold_locales (auto simp: beat_due_def beat_arm_def)

text \<open>The log newest first, and the backwards walk to the first gap wider than the tolerance.\<close>

definition beats_of :: "string \<Rightarrow> time \<Rightarrow> database \<Rightarrow> time list" where
  "beats_of c now d =
     rev (sort (map snd (filter (\<lambda>r. fst r = c \<and> now - days HEARTBEAT_RETENTION_DAYS < snd r) (heartbeat_log d))))"

fun walk_back :: "real \<Rightarrow> time \<Rightarrow> time list \<Rightarrow> time" where
  "walk_back tol start [] = start"
| "walk_back tol start (earlier # rest) =
     (if tol < total_seconds (start - earlier) then start else walk_back tol earlier rest)"

definition continuous_run_start :: "string \<Rightarrow> real \<Rightarrow> time \<Rightarrow> database \<Rightarrow> time option" where
  "continuous_run_start c tol now d =
     (case beats_of c now d of [] \<Rightarrow> None | newest # earlier \<Rightarrow> Some (walk_back tol newest earlier))"

definition MAINTENANCE_INTERVAL_S :: real where
  "MAINTENANCE_INTERVAL_S = 3600"

text \<open>One housekeeping call: the composer's \<^verbatim>\<open>prune\<close> if it has one, then the log.\<close>

definition maintenance ::
  "clock_throttle \<Rightarrow> ('e world, unit) call option \<Rightarrow> 'e world \<Rightarrow> bool \<times> clock_throttle \<times> 'e world" where
  "maintenance th prune w =
     (if \<not> throttle_due th (monotonic w) then (False, th, w)
      else let th1 = throttle_arm th (monotonic w) in
        case (case prune of None \<Rightarrow> (Inr (), w) | Some p \<Rightarrow> p w) of
          (Inl e, w1) \<Rightarrow> (False, th1, w1)
        | (Inr u, w1) \<Rightarrow> (True, th1, w1\<lparr>db := prune_log (clock w1) (db w1)\<rparr>))"

subsection \<open>What the reader finds\<close>

lemma sort_empty_iff: "sort ts = [] \<longleftrightarrow> ts = []"
  by (metis length_0_conv length_sort)

definition unbroken :: "real \<Rightarrow> time list \<Rightarrow> bool" where
  "unbroken tol ts \<longleftrightarrow> successively (\<lambda>a b. total_seconds (a - b) \<le> tol) ts"

lemma walk_back_spec:
  "\<exists>run older. newest # earlier = run @ older \<and> run \<noteq> [] \<and> last run = walk_back tol newest earlier
     \<and> unbroken tol run \<and> (older \<noteq> [] \<longrightarrow> tol < total_seconds (last run - hd older))"
proof (induction tol newest earlier rule: walk_back.induct)
  case (1 tol start)
  show ?case by (rule exI [of _ "[start]"], rule exI [of _ "[]"]) (simp add: unbroken_def)
next
  case (2 tol start earlier rest)
  show ?case
  proof (cases "tol < total_seconds (start - earlier)")
    case True
    then show ?thesis
      by (intro exI [of _ "[start]"] exI [of _ "earlier # rest"]) (simp add: unbroken_def)
  next
    case False
    with 2 obtain run older where r: "earlier # rest = run @ older" "run \<noteq> []"
      "last run = walk_back tol earlier rest" "unbroken tol run"
      "older \<noteq> [] \<longrightarrow> tol < total_seconds (last run - hd older)" by blast
    then obtain run' where "run = earlier # run'" by (cases run) auto
    with r False show ?thesis
      by (intro exI [of _ "start # run"] exI [of _ older]) (auto simp: unbroken_def)
  qed
qed

lemma beats_of_set:
  "set (beats_of c now d) = {t. (c, t) \<in> set (heartbeat_log d) \<and> now - days HEARTBEAT_RETENTION_DAYS < t}"
  by (auto simp: beats_of_def image_iff)

text \<open>The reader returns nothing exactly when the component has no beat within the retention window;
  otherwise the retained beats, newest first, split into a run in which no two neighbours are further
  apart than the tolerance, whose oldest beat is the answer, and older beats, the newest of which is
  further away than the tolerance.\<close>

theorem run_start_spec:
  "(case continuous_run_start c tol now d of
      None \<Rightarrow> filter (\<lambda>r. fst r = c \<and> now - days HEARTBEAT_RETENTION_DAYS < snd r) (heartbeat_log d) = []
    | Some s \<Rightarrow> \<exists>run older. beats_of c now d = run @ older \<and> run \<noteq> [] \<and> s = last run \<and> unbroken tol run
        \<and> (older = [] \<or> tol < total_seconds (s - hd older)))"
proof (cases "beats_of c now d")
  case Nil
  then have "map snd (filter (\<lambda>r. fst r = c \<and> now - days HEARTBEAT_RETENTION_DAYS < snd r) (heartbeat_log d)) = []"
    by (simp only: beats_of_def rev_is_Nil_conv sort_empty_iff)
  with Nil show ?thesis by (simp add: continuous_run_start_def)
next
  case (Cons newest earlier)
  from walk_back_spec [of newest earlier tol] obtain run older where
    "beats_of c now d = run @ older" "run \<noteq> []" "last run = walk_back tol newest earlier" "unbroken tol run"
    "older = [] \<or> tol < total_seconds (last run - hd older)" unfolding Cons by blast
  then have "\<exists>run older. beats_of c now d = run @ older \<and> run \<noteq> [] \<and> walk_back tol newest earlier = last run
      \<and> unbroken tol run \<and> (older = [] \<or> tol < total_seconds (walk_back tol newest earlier - hd older))" by metis
  then show ?thesis by (simp add: continuous_run_start_def Cons)
qed

text \<open>Pruning with the same clock never changes what the reader finds.\<close>

lemma prune_keeps_run_start: "continuous_run_start c tol now (prune_log now d) = continuous_run_start c tol now d"
proof -
  have "beats_of c now (prune_log now d) = beats_of c now d"
    unfolding beats_of_def prune_log_def by (simp add: conj_ac) (metis (no_types, lifting) not_less_iff_gr_or_eq)
  then show ?thesis by (simp add: continuous_run_start_def)
qed

lemma write_beat_frame [simp]:
  "incidents (write_beat c now d) = incidents d" "vector_records (write_beat c now d) = vector_records d"
  "event_indexing (write_beat c now d) = event_indexing d" "incident_services (write_beat c now d) = incident_services d"
  "incident_events (write_beat c now d) = incident_events d" "llm_budget (write_beat c now d) = llm_budget d"
  "index_stats (write_beat c now d) = index_stats d"
  by (simp_all add: write_beat_def)

lemma beat_frame:
  "beat h w = (b, h', w') \<Longrightarrow> clock w' = clock w \<and> env w' = env w \<and> vector_records (db w') = vector_records (db w)
     \<and> event_indexing (db w') = event_indexing (db w) \<and> incidents (db w') = incidents (db w)
     \<and> incident_services (db w') = incident_services (db w) \<and> incident_events (db w') = incident_events (db w)
     \<and> llm_budget (db w') = llm_budget (db w) \<and> index_stats (db w') = index_stats (db w)"
  by (auto simp: beat_def split: if_splits)

end
