(* ===== verification/Kafka.thy ===== *)
theory Kafka
  imports Lifecycle
begin

section \<open>The Kafka loop and the producers (\<^verbatim>\<open>freshet/common/kafka_io.py\<close>)\<close>

text \<open>
  \<open>consume\<close> is the body of \<^verbatim>\<open>consume_loop\<close> over the list of what its polls return: nothing, a
  consumer event, or a record. Each item carries the reading of the monotonic clock and whether
  \<^verbatim>\<open>stop\<close> is set. The handler, the hooks and the broker's commit are calls on a state of their own
  that may raise. The state keeps the newest uncommitted record per partition and, for the
  theorems, the records handled and committed so far. Running out of items means the loop is
  still polling.

  A commit of one record moves its partition's offset past every earlier record too: \<open>committed_past\<close> says
  which records the broker will not deliver again. The theorems: what is committed has been handled, together
  with everything polled before it; a clean exit commits the newest handled record of every partition; an
  error commits nothing further; a crash redelivers at most one batch; and a consumer that settles its outputs
  before the offset has settled every record that is covered.
\<close>

record message =
  m_topic :: string
  m_partition :: nat
  m_offset :: nat
  m_value :: "string res"

datatype polled = NoMessage | ConsumerEvent | Record message

record poll_item =
  stopped :: bool
  clock_reading :: time
  polled :: polled

record 's loop_config =
  handler :: "string \<Rightarrow> ('s, unit) call"
  max_messages :: "nat option"
  auto_commit :: bool
  idle_timeout :: "time option"
  commit_every :: int
  pre_commit :: "('s, unit) call option"
  idle_hook :: "('s, unit) call option"
  after_handler :: "('s, unit) call option"
  broker_commit :: "message \<Rightarrow> ('s, unit) call"

record 's loop_state =
  inner :: 's
  pending :: "((string \<times> nat) \<times> message) list"
  since_commit :: int
  processed :: nat
  last_msg :: time
  handled :: "message list"
  committed :: "message list"

datatype loop_end = Polling | Exited nat | Raised exn

definition partition_of :: "message \<Rightarrow> string \<times> nat" where
  "partition_of m = (m_topic m, m_partition m)"

text \<open>
  Committing a record stores the offset after it, so a partition's consumer resumes behind the newest
  committed record: a record is covered when the commits include its own or a later one of its partition.
  Within one assignment a partition's records are polled in the order of their offsets.
\<close>

definition committed_past :: "'s loop_state \<Rightarrow> message \<Rightarrow> bool" where
  "committed_past s m \<longleftrightarrow> list_ex (\<lambda>c. partition_of c = partition_of m \<and> m_offset m \<le> m_offset c) (committed s)"

definition offsets_in_order :: "message list \<Rightarrow> bool" where
  "offsets_in_order ms \<longleftrightarrow> sorted_wrt (\<lambda>a b. partition_of a = partition_of b \<longrightarrow> m_offset a < m_offset b) ms"

text \<open>Running an optional hook, or any call, on the state of the handler.\<close>

definition run_inner :: "('s, unit) call \<Rightarrow> 's loop_state \<Rightarrow> unit res \<times> 's loop_state" where
  "run_inner c s = (case c (inner s) of (r, i) \<Rightarrow> (r, s\<lparr>inner := i\<rparr>))"

definition run_hook :: "('s, unit) call option \<Rightarrow> 's loop_state \<Rightarrow> unit res \<times> 's loop_state" where
  "run_hook h s = (case h of None \<Rightarrow> (Inr (), s) | Some c \<Rightarrow> run_inner c s)"

fun commit_all :: "'s loop_config \<Rightarrow> message list \<Rightarrow> 's loop_state \<Rightarrow> unit res \<times> 's loop_state" where
  "commit_all cfg [] s = (Inr (), s)"
| "commit_all cfg (m # ms) s =
     (case run_inner (broker_commit cfg m) s of
        (Inl e, s1) \<Rightarrow> (Inl e, s1)
      | (Inr u, s1) \<Rightarrow> commit_all cfg ms (s1\<lparr>committed := committed s1 @ [m]\<rparr>))"

definition commit_pending :: "'s loop_config \<Rightarrow> 's loop_state \<Rightarrow> unit res \<times> 's loop_state" where
  "commit_pending cfg s =
     (if pending s = [] then (Inr (), s)
      else case run_hook (pre_commit cfg) s of
             (Inl e, s1) \<Rightarrow> (Inl e, s1)
           | (Inr u, s1) \<Rightarrow>
               (case commit_all cfg (map snd (pending s1)) s1 of
                  (Inl e, s2) \<Rightarrow> (Inl e, s2)
                | (Inr u, s2) \<Rightarrow> (Inr (), s2\<lparr>pending := [], since_commit := 0\<rparr>)))"

definition commit_unless_auto :: "'s loop_config \<Rightarrow> 's loop_state \<Rightarrow> unit res \<times> 's loop_state" where
  "commit_unless_auto cfg s = (if auto_commit cfg then (Inr (), s) else commit_pending cfg s)"

text \<open>After a handled record: remember it, commit a full batch, count it.\<close>

definition note_handled :: "'s loop_config \<Rightarrow> message \<Rightarrow> 's loop_state \<Rightarrow> unit res \<times> 's loop_state" where
  "note_handled cfg m s =
     (let s0 = s\<lparr>handled := handled s @ [m]\<rparr> in
      if auto_commit cfg then (Inr (), s0\<lparr>processed := Suc (processed s0)\<rparr>)
      else let s1 = s0\<lparr>pending := upsert fst (partition_of m, m) (\<lambda>kv. (fst kv, m)) (pending s0),
                       since_commit := since_commit s0 + 1\<rparr>
           in if max 1 (commit_every cfg) \<le> since_commit s1
              then (case commit_pending cfg s1 of
                      (Inl e, s2) \<Rightarrow> (Inl e, s2)
                    | (Inr u, s2) \<Rightarrow> (Inr (), s2\<lparr>processed := Suc (processed s2)\<rparr>))
              else (Inr (), s1\<lparr>processed := Suc (processed s1)\<rparr>))"

definition handle_record :: "'s loop_config \<Rightarrow> message \<Rightarrow> 's loop_state \<Rightarrow> unit res \<times> 's loop_state" where
  "handle_record cfg m s =
     (case m_value m of
        Inl e \<Rightarrow> (Inl e, s)
      | Inr v \<Rightarrow>
          (case run_inner (handler cfg v) s of
             (Inl e, s1) \<Rightarrow> (Inl e, s1)
           | (Inr u, s1) \<Rightarrow>
               (case run_hook (after_handler cfg) s1 of
                  (Inl e, s2) \<Rightarrow> (Inl e, s2)
                | (Inr u, s2) \<Rightarrow> note_handled cfg m s2)))"

definition idle_tick :: "'s loop_config \<Rightarrow> 's loop_state \<Rightarrow> unit res \<times> 's loop_state" where
  "idle_tick cfg s =
     (case commit_unless_auto cfg s of
        (Inl e, s1) \<Rightarrow> (Inl e, s1)
      | (Inr u, s1) \<Rightarrow> run_hook (idle_hook cfg) s1)"

definition finish :: "'s loop_config \<Rightarrow> 's loop_state \<Rightarrow> loop_end \<times> 's loop_state" where
  "finish cfg s =
     (case commit_unless_auto cfg s of
        (Inl e, s1) \<Rightarrow> (Raised e, s1)
      | (Inr u, s1) \<Rightarrow> (Exited (processed s1), s1))"

definition full :: "'s loop_config \<Rightarrow> 's loop_state \<Rightarrow> bool" where
  "full cfg s \<longleftrightarrow> (case max_messages cfg of None \<Rightarrow> False | Some k \<Rightarrow> k \<le> processed s)"

definition timed_out :: "'s loop_config \<Rightarrow> time \<Rightarrow> 's loop_state \<Rightarrow> bool" where
  "timed_out cfg now s \<longleftrightarrow> (case idle_timeout cfg of None \<Rightarrow> False | Some d \<Rightarrow> d \<le> now - last_msg s)"

fun consume :: "'s loop_config \<Rightarrow> poll_item list \<Rightarrow> 's loop_state \<Rightarrow> loop_end \<times> 's loop_state" where
  "consume cfg [] s = (if full cfg s then finish cfg s else (Polling, s))"
| "consume cfg (i # is) s =
     (if full cfg s \<or> stopped i then finish cfg s
      else case polled i of
        NoMessage \<Rightarrow>
          (case idle_tick cfg s of
             (Inl e, s1) \<Rightarrow> (Raised e, s1)
           | (Inr u, s1) \<Rightarrow> if timed_out cfg (clock_reading i) s1 then finish cfg s1 else consume cfg is s1)
      | ConsumerEvent \<Rightarrow> consume cfg is s
      | Record m \<Rightarrow>
          (case handle_record cfg m (s\<lparr>last_msg := clock_reading i\<rparr>) of
             (Inl e, s1) \<Rightarrow> (Raised e, s1)
           | (Inr u, s1) \<Rightarrow> consume cfg is s1))"

definition start_loop :: "'s \<Rightarrow> time \<Rightarrow> 's loop_state" where
  "start_loop i now = \<lparr>inner = i, pending = [], since_commit = 0, processed = 0, last_msg = now,
     handled = [], committed = []\<rparr>"

definition consume_loop :: "'s loop_config \<Rightarrow> poll_item list \<Rightarrow> 's \<Rightarrow> time \<Rightarrow> loop_end \<times> 's loop_state" where
  "consume_loop cfg is i now = consume cfg is (start_loop i now)"

subsection \<open>Invariants of the loop\<close>

definition records_of :: "poll_item list \<Rightarrow> message list" where
  "records_of is = concat (map (\<lambda>i. case polled i of Record m \<Rightarrow> [m] | _ \<Rightarrow> []) is)"

text \<open>The newest record of a partition.\<close>

definition newest :: "string \<times> nat \<Rightarrow> message list \<Rightarrow> message option" where
  "newest p ms = find (\<lambda>m. partition_of m = p) (rev ms)"

lemma newest_Nil [simp]: "newest p [] = None"
  by (simp add: newest_def)

lemma newest_snoc [simp]: "newest p (ms @ [m]) = (if partition_of m = p then Some m else newest p ms)"
  by (simp add: newest_def)

lemma newest_append: "newest p (a @ b) = (case newest p b of None \<Rightarrow> newest p a | Some m \<Rightarrow> Some m)"
  by (induction b rule: rev_induct) (simp_all add: append_assoc [symmetric] del: append_assoc)

lemma newest_SomeD: "newest p ms = Some m \<Longrightarrow> m \<in> set ms \<and> partition_of m = p"
  by (induction ms rule: rev_induct) (auto split: if_splits)

lemma newest_None_iff: "newest p ms = None \<longleftrightarrow> (\<forall>m \<in> set ms. partition_of m \<noteq> p)"
  by (induction ms rule: rev_induct) auto

text \<open>
  The records handled since the last commit are \<open>new\<close>; \<open>pending\<close> holds the newest of each of
  their partitions, and the broker holds the newest of each partition of the rest.
\<close>

definition batch_inv :: "'s loop_state \<Rightarrow> message list \<Rightarrow> message list \<Rightarrow> bool" where
  "batch_inv s old new \<longleftrightarrow> handled s = old @ new \<and> int (length new) = since_commit s
     \<and> keyed fst (pending s)
     \<and> (\<forall>p. map_option snd (row_of fst p (pending s)) = newest p new)
     \<and> (\<forall>p. newest p (committed s) = newest p old)"

text \<open>What a raise leaves: at most one batch is not committed, and every partition's offset is at
  the start of that batch or at its end.\<close>

definition at_most_a_batch :: "'s loop_config \<Rightarrow> 's loop_state \<Rightarrow> bool" where
  "at_most_a_batch cfg s \<longleftrightarrow> (\<exists>old new. handled s = old @ new \<and> int (length new) \<le> max 1 (commit_every cfg)
     \<and> (\<forall>p. newest p (committed s) = newest p old \<or> newest p (committed s) = newest p (handled s)))"

definition loop_inv :: "'s loop_config \<Rightarrow> 's loop_state \<Rightarrow> bool" where
  "loop_inv cfg s \<longleftrightarrow> set (committed s) \<subseteq> set (handled s)
     \<and> (if auto_commit cfg then committed s = []
        else since_commit s < max 1 (commit_every cfg) \<and> (\<exists>old new. batch_inv s old new))"

definition all_committed :: "'s loop_state \<Rightarrow> bool" where
  "all_committed s \<longleftrightarrow> (\<forall>p. newest p (committed s) = newest p (handled s))"

definition stopped_inv :: "'s loop_config \<Rightarrow> 's loop_state \<Rightarrow> bool" where
  "stopped_inv cfg s \<longleftrightarrow> set (committed s) \<subseteq> set (handled s)
     \<and> (if auto_commit cfg then committed s = [] else at_most_a_batch cfg s)"

lemma run_inner_frame:
  "run_inner c s = (r, s') \<Longrightarrow> handled s' = handled s \<and> committed s' = committed s \<and> pending s' = pending s
     \<and> since_commit s' = since_commit s \<and> processed s' = processed s \<and> last_msg s' = last_msg s"
  by (auto simp: run_inner_def split: prod.splits)

lemma run_hook_frame:
  "run_hook h s = (r, s') \<Longrightarrow> handled s' = handled s \<and> committed s' = committed s \<and> pending s' = pending s
     \<and> since_commit s' = since_commit s \<and> processed s' = processed s \<and> last_msg s' = last_msg s"
  by (auto simp: run_hook_def run_inner_frame split: option.splits)

lemma commit_all_result:
  "commit_all cfg ms s = (r, s') \<Longrightarrow>
     handled s' = handled s \<and> pending s' = pending s \<and> since_commit s' = since_commit s
     \<and> processed s' = processed s
     \<and> (\<exists>k \<le> length ms. committed s' = committed s @ take k ms \<and> (r = Inr () \<longrightarrow> k = length ms))"
proof (induction ms arbitrary: s)
  case (Cons m ms)
  show ?case
  proof (cases "run_inner (broker_commit cfg m) s")
    case (Pair r1 s1)
    note frame = run_inner_frame [OF Pair]
    show ?thesis
    proof (cases r1)
      case (Inl e)
      with Pair Cons.prems frame show ?thesis by auto
    next
      case (Inr u)
      with Pair Cons.prems have "commit_all cfg ms (s1\<lparr>committed := committed s1 @ [m]\<rparr>) = (r, s')" by simp
      from Cons.IH [OF this] obtain k where "k \<le> length ms"
        "committed s' = committed s @ m # take k ms" "r = Inr () \<longrightarrow> k = length ms"
        and rest: "handled s' = handled s" "pending s' = pending s" "since_commit s' = since_commit s"
          "processed s' = processed s"
        using frame by auto
      then show ?thesis by (auto intro!: exI [of _ "Suc k"])
    qed
  qed
qed auto

text \<open>Committing distinct partitions: a partition of the list moves to its record, any other stays.\<close>

lemma newest_pending:
  assumes "keyed fst t" and "\<forall>kv \<in> set t. partition_of (snd kv) = fst kv"
  shows "newest p (map snd t) = map_option snd (row_of fst p t)"
  using assms
proof (induction t)
  case (Cons kv t)
  have IH: "newest p (map snd t) = map_option snd (row_of fst p t)"
    using Cons by (simp add: keyed_def)
  have one: "newest p (snd kv # map snd t) =
      (case newest p (map snd t) of None \<Rightarrow> newest p [snd kv] | Some m \<Rightarrow> Some m)"
    using newest_append [of p "[snd kv]" "map snd t"] by simp
  have "newest p [snd kv] = (if fst kv = p then Some (snd kv) else None)"
    using newest_snoc [of p "[]" "snd kv"] Cons.prems by simp
  moreover have "fst kv = p \<Longrightarrow> row_of fst p t = None"
    using Cons.prems by (auto simp: keyed_def row_of_None_iff)
  ultimately show ?case
    unfolding list.map one by (auto simp: IH row_of_Cons split: option.splits)
qed (simp add: row_of_Nil)

lemma batch_partitions:
  "batch_inv s old new \<Longrightarrow> kv \<in> set (pending s) \<Longrightarrow> partition_of (snd kv) = fst kv"
proof -
  assume inv: "batch_inv s old new" and kv: "kv \<in> set (pending s)"
  then have "row_of fst (fst kv) (pending s) = Some kv" by (simp add: batch_inv_def row_of_Some_iff)
  moreover have "map_option snd (row_of fst (fst kv) (pending s)) = newest (fst kv) new"
    using inv unfolding batch_inv_def by blast
  ultimately have "newest (fst kv) new = Some (snd kv)" by simp
  then show ?thesis by (auto dest: newest_SomeD)
qed

lemma batch_pending_handled: "batch_inv s old new \<Longrightarrow> kv \<in> set (pending s) \<Longrightarrow> snd kv \<in> set new"
proof -
  assume inv: "batch_inv s old new" and kv: "kv \<in> set (pending s)"
  then have "row_of fst (fst kv) (pending s) = Some kv" by (simp add: batch_inv_def row_of_Some_iff)
  moreover have "map_option snd (row_of fst (fst kv) (pending s)) = newest (fst kv) new"
    using inv unfolding batch_inv_def by blast
  ultimately have "newest (fst kv) new = Some (snd kv)" by simp
  then show ?thesis by (auto dest: newest_SomeD)
qed

lemma newest_after_commits:
  assumes inv: "batch_inv s old new"
  shows "newest p (committed s @ take k (map snd (pending s))) =
     (case row_of fst p (take k (pending s)) of None \<Rightarrow> newest p old | Some kv \<Rightarrow> Some (snd kv))"
proof -
  have "newest p (map snd (take k (pending s))) = map_option snd (row_of fst p (take k (pending s)))"
  proof (rule newest_pending)
    show "keyed fst (take k (pending s))"
      using inv by (simp add: batch_inv_def keyed_def take_map [symmetric] distinct_take)
    show "\<forall>kv \<in> set (take k (pending s)). partition_of (snd kv) = fst kv"
      using batch_partitions [OF inv] by (auto dest: in_set_takeD)
  qed
  moreover have "newest p (committed s) = newest p old" using inv unfolding batch_inv_def by blast
  ultimately show ?thesis by (simp add: newest_append take_map split: option.splits)
qed

lemma row_of_take:
  "keyed fst t \<Longrightarrow> row_of fst p (take k t) = Some kv \<Longrightarrow> row_of fst p t = Some kv"
  by (auto simp: row_of_Some_iff dest!: row_of_SomeD in_set_takeD)

lemma commits_stay_in_batch:
  assumes inv: "batch_inv s old new"
  shows "newest p (committed s @ take k (map snd (pending s))) = newest p old
    \<or> newest p (committed s @ take k (map snd (pending s))) = newest p (old @ new)"
proof (cases "row_of fst p (take k (pending s))")
  case None
  with newest_after_commits [OF inv] show ?thesis by simp
next
  case (Some kv)
  have "row_of fst p (pending s) = Some kv"
    using inv by (intro row_of_take [OF _ Some]) (simp add: batch_inv_def)
  moreover have "map_option snd (row_of fst p (pending s)) = newest p new"
    using inv unfolding batch_inv_def by blast
  ultimately have "newest p new = Some (snd kv)" by simp
  with newest_after_commits [OF inv, of p k] Some show ?thesis by (simp add: newest_append)
qed

lemma full_commit:
  assumes inv: "batch_inv s old new"
  shows "newest p (committed s @ map snd (pending s)) = newest p (old @ new)"
proof -
  have "map_option snd (row_of fst p (pending s)) = newest p new"
    using inv unfolding batch_inv_def by blast
  then show ?thesis
    using newest_after_commits [OF inv, of p "length (pending s)"]
    by (auto simp: newest_append split: option.splits)
qed

text \<open>What \<open>commit_pending\<close> does to the invariant, whether or not it raises.\<close>

lemma commit_pending_result:
  assumes inv: "batch_inv s old new" and sub: "set (committed s) \<subseteq> set (handled s)"
    and run: "commit_pending cfg s = (r, s')"
  shows "handled s' = handled s \<and> processed s' = processed s \<and> set (committed s') \<subseteq> set (handled s')
    \<and> (\<forall>p. newest p (committed s') = newest p old \<or> newest p (committed s') = newest p (handled s'))
    \<and> (r = Inr () \<longrightarrow> batch_inv s' (handled s') [] \<and> since_commit s' = 0)"
proof (cases "pending s = []")
  case True
  have "newest p new = None" for p
    using inv True unfolding batch_inv_def by (metis option.map(1) row_of_Nil)
  then have "new = []" using newest_None_iff [of "partition_of (hd new)" new] by (cases new) auto
  with True run inv sub show ?thesis by (auto simp: commit_pending_def batch_inv_def)
next
  case False
  have h: "handled s = old @ new" using inv by (simp add: batch_inv_def)
  show ?thesis
  proof (cases "run_hook (pre_commit cfg) s")
    case (Pair r1 s1)
    note frame = run_hook_frame [OF Pair]
    show ?thesis
    proof (cases r1)
      case (Inl e)
      with Pair run False frame sub inv show ?thesis by (auto simp: commit_pending_def batch_inv_def)
    next
      case (Inr u)
      obtain r2 s2 where all: "commit_all cfg (map snd (pending s1)) s1 = (r2, s2)" by force
      from commit_all_result [OF all] obtain k where
        k: "committed s2 = committed s @ take k (map snd (pending s))" "r2 = Inr () \<longrightarrow> k = length (pending s)"
        "handled s2 = handled s" "processed s2 = processed s" "pending s2 = pending s"
        using frame by auto
      have sub': "set (committed s2) \<subseteq> set (handled s2)"
        using sub batch_pending_handled [OF inv] by (auto simp: k h take_map dest: in_set_takeD)
      have weak: "\<forall>p. newest p (committed s2) = newest p old \<or> newest p (committed s2) = newest p (handled s2)"
        using commits_stay_in_batch [OF inv] by (simp add: k h)
      show ?thesis
      proof (cases r2)
        case (Inl e)
        with Pair Inr all run False sub' weak k show ?thesis by (auto simp: commit_pending_def)
      next
        case (Inr u2)
        then have "\<forall>p. newest p (committed s2) = newest p (handled s2)"
          using full_commit [OF inv] by (simp add: k h)
        moreover have "r = Inr ()" and "s' = s2\<lparr>pending := [], since_commit := 0\<rparr>"
          using Pair \<open>r1 = Inr u\<close> Inr all run False by (simp_all add: commit_pending_def)
        ultimately show ?thesis
          using sub' by (simp add: batch_inv_def keyed_def row_of_Nil k)
      qed
    qed
  qed
qed

text \<open>The invariant only reads what the loop itself keeps.\<close>

definition same_loop :: "'s loop_state \<Rightarrow> 's loop_state \<Rightarrow> bool" where
  "same_loop s s' \<longleftrightarrow> handled s' = handled s \<and> committed s' = committed s \<and> pending s' = pending s
     \<and> since_commit s' = since_commit s"

lemma batch_inv_same: "same_loop s s' \<Longrightarrow> batch_inv s' old new = batch_inv s old new"
  by (simp add: same_loop_def batch_inv_def)

lemma loop_inv_same: "loop_inv cfg s \<Longrightarrow> same_loop s s' \<Longrightarrow> loop_inv cfg s'"
proof -
  assume inv: "loop_inv cfg s" and same: "same_loop s s'"
  have "batch_inv s' = batch_inv s" using batch_inv_same [OF same] by blast
  with inv same show ?thesis by (simp add: loop_inv_def) (simp add: same_loop_def)
qed

lemma stopped_inv_same: "stopped_inv cfg s \<Longrightarrow> same_loop s s' \<Longrightarrow> stopped_inv cfg s'"
  unfolding stopped_inv_def at_most_a_batch_def same_loop_def by metis

lemma loop_inv_stopped: "loop_inv cfg s \<Longrightarrow> stopped_inv cfg s"
  unfolding loop_inv_def stopped_inv_def at_most_a_batch_def batch_inv_def
  by (auto split: if_splits) (metis less_imp_le)

lemma at_most_a_batchI:
  assumes "batch_inv s old new" and "handled s' = handled s" and "since_commit s \<le> max 1 (commit_every cfg)"
    and "\<forall>p. newest p (committed s') = newest p old \<or> newest p (committed s') = newest p (handled s')"
  shows "at_most_a_batch cfg s'"
proof -
  have "handled s' = old @ new" and "int (length new) \<le> max 1 (commit_every cfg)"
    using assms(1-3) by (simp_all add: batch_inv_def)
  with assms(4) show ?thesis unfolding at_most_a_batch_def by blast
qed

lemma commit_keeps_loop_inv:
  assumes inv: "loop_inv cfg s" and run: "commit_unless_auto cfg s = (r, s')"
  shows "handled s' = handled s \<and> processed s' = processed s \<and> stopped_inv cfg s'
    \<and> (r = Inr () \<longrightarrow> loop_inv cfg s' \<and> (auto_commit cfg \<or> all_committed s'))"
proof (cases "auto_commit cfg")
  case True
  with assms loop_inv_stopped show ?thesis by (auto simp: commit_unless_auto_def)
next
  case False
  with inv obtain old new where b: "batch_inv s old new" and sub: "set (committed s) \<subseteq> set (handled s)"
    and few: "since_commit s < max 1 (commit_every cfg)" by (auto simp: loop_inv_def)
  from run False have "commit_pending cfg s = (r, s')" by (simp add: commit_unless_auto_def)
  note c = commit_pending_result [OF b sub this]
  have "at_most_a_batch cfg s'" 
  proof (rule at_most_a_batchI [OF b])
    show "since_commit s \<le> max 1 (commit_every cfg)" using few by simp
  qed (use c in blast)+
  then have "stopped_inv cfg s'" using c False unfolding stopped_inv_def by argo
  moreover have "r = Inr () \<Longrightarrow> loop_inv cfg s'" using False c by (auto simp: loop_inv_def)
  moreover have "r = Inr () \<Longrightarrow> all_committed s'"
    using c unfolding all_committed_def batch_inv_def by blast
  ultimately show ?thesis using c by blast
qed

lemma note_extends_batch:
  assumes b: "batch_inv s old new"
  shows "batch_inv (s\<lparr>handled := handled s @ [m],
      pending := upsert fst (partition_of m, m) (\<lambda>kv. (fst kv, m)) (pending s),
      since_commit := since_commit s + 1\<rparr>) old (new @ [m])"
proof -
  have "map_option snd (row_of fst p (upsert fst (partition_of m, m) (\<lambda>kv. (fst kv, m)) (pending s)))
      = newest p (new @ [m])" for p
    using b by (auto simp: row_of_upsert batch_inv_def simp del: split_paired_All split: option.splits)
  with b show ?thesis by (auto simp: batch_inv_def keyed_upsert)
qed

lemma note_keeps_loop_inv:
  assumes inv: "loop_inv cfg s" and run: "note_handled cfg m s = (r, s')"
  shows "handled s' = handled s @ [m] \<and> stopped_inv cfg s'
    \<and> (r = Inr () \<longrightarrow> loop_inv cfg s' \<and> processed s' = Suc (processed s))"
proof (cases "auto_commit cfg")
  case True
  with assms show ?thesis
    by (auto simp: note_handled_def loop_inv_def stopped_inv_def Let_def)
next
  case False
  define s1 where "s1 = s\<lparr>handled := handled s @ [m],
      pending := upsert fst (partition_of m, m) (\<lambda>kv. (fst kv, m)) (pending s),
      since_commit := since_commit s + 1\<rparr>"
  from inv False obtain old new where b: "batch_inv s old new" and sub: "set (committed s) \<subseteq> set (handled s)"
    and few: "since_commit s < max 1 (commit_every cfg)" by (auto simp: loop_inv_def)
  have b1: "batch_inv s1 old (new @ [m])" using note_extends_batch [OF b] by (simp add: s1_def)
  have sub1: "set (committed s1) \<subseteq> set (handled s1)" using sub by (auto simp: s1_def)
  show ?thesis
  proof (cases "max 1 (commit_every cfg) \<le> since_commit s1")
    case full: True
    obtain r2 s2 where c: "commit_pending cfg s1 = (r2, s2)" by force
    note c1 = commit_pending_result [OF b1 sub1 c]
    have "at_most_a_batch cfg s2"
    proof (rule at_most_a_batchI [OF b1])
      show "since_commit s1 \<le> max 1 (commit_every cfg)" using few by (simp add: s1_def)
    qed (use c1 in blast)+
    then have stop: "stopped_inv cfg s2" using c1 False unfolding stopped_inv_def by argo
    have h2: "handled s2 = handled s @ [m]" "processed s2 = processed s" using c1 by (simp_all add: s1_def)
    have inv2: "r2 = Inr () \<Longrightarrow> loop_inv cfg s2" using c1 False by (auto simp: loop_inv_def)
    define s3 where "s3 = s2\<lparr>processed := Suc (processed s2)\<rparr>"
    have same: "same_loop s2 s3" by (simp add: same_loop_def s3_def)
    have "note_handled cfg m s = (case r2 of Inl e \<Rightarrow> (Inl e, s2) | Inr u \<Rightarrow> (Inr (), s3))"
      using False full c by (simp add: note_handled_def s1_def s3_def split: sum.splits)
    with run stop h2 inv2 stopped_inv_same [OF stop same] loop_inv_same [OF _ same] show ?thesis
      by (cases r2) (auto simp: s3_def)
  next
    case room: False
    then have "r = Inr ()" and s': "s' = s1\<lparr>processed := Suc (processed s)\<rparr>"
      using run False by (auto simp: note_handled_def s1_def Let_def)
    moreover have "loop_inv cfg s1" using b1 sub1 room False by (auto simp: loop_inv_def)
    then have "loop_inv cfg s'" by (rule loop_inv_same) (simp add: s' same_loop_def)
    ultimately show ?thesis by (simp add: loop_inv_stopped) (simp add: s1_def)
  qed
qed

lemma record_keeps_loop_inv:
  assumes inv: "loop_inv cfg s" and run: "handle_record cfg m s = (r, s')"
  shows "stopped_inv cfg s' \<and> handled s' \<in> {handled s, handled s @ [m]}
    \<and> (r = Inr () \<longrightarrow> loop_inv cfg s' \<and> handled s' = handled s @ [m] \<and> processed s' = Suc (processed s))"
proof (cases "m_value m")
  case (Inl e)
  with assms show ?thesis by (auto simp: handle_record_def loop_inv_stopped)
next
  case v: (Inr v)
  obtain r1 s1 where h: "run_inner (handler cfg v) s = (r1, s1)" by force
  obtain r2 s2 where a: "run_hook (after_handler cfg) s1 = (r2, s2)" by force
  have f1: "loop_inv cfg s1" "handled s1 = handled s" "processed s1 = processed s"
    using run_inner_frame [OF h] by (auto intro: loop_inv_same [OF inv] simp: same_loop_def)
  have f2: "loop_inv cfg s2" "handled s2 = handled s" "processed s2 = processed s"
    using run_hook_frame [OF a] f1(2,3) by (auto intro: loop_inv_same [OF f1(1)] simp: same_loop_def)
  show ?thesis
  proof (cases "isl r1 \<or> isl r2")
    case True
    with v h a run f1 f2 show ?thesis
      by (auto simp: handle_record_def loop_inv_stopped split: sum.splits)
  next
    case False
    then have "note_handled cfg m s2 = (r, s')"
      using v h a run by (auto simp: handle_record_def split: sum.splits)
    from note_keeps_loop_inv [OF f2(1) this] f2 show ?thesis by auto
  qed
qed

lemma idle_keeps_loop_inv:
  assumes inv: "loop_inv cfg s" and run: "idle_tick cfg s = (r, s')"
  shows "stopped_inv cfg s' \<and> handled s' = handled s \<and> processed s' = processed s
    \<and> (r = Inr () \<longrightarrow> loop_inv cfg s')"
proof -
  obtain r1 s1 where c: "commit_unless_auto cfg s = (r1, s1)" by force
  note c1 = commit_keeps_loop_inv [OF inv c]
  show ?thesis
  proof (cases r1)
    case (Inl e)
    with c c1 run show ?thesis by (auto simp: idle_tick_def)
  next
    case (Inr u)
    with c run have h: "run_hook (idle_hook cfg) s1 = (r, s')" by (simp add: idle_tick_def)
    from c1 Inr have "loop_inv cfg s1" by simp
    then have "loop_inv cfg s'"
      by (rule loop_inv_same) (use run_hook_frame [OF h] in \<open>simp add: same_loop_def\<close>)
    with c1 run_hook_frame [OF h] show ?thesis by (simp add: loop_inv_stopped)
  qed
qed

text \<open>What the loop leaves, however it ends.\<close>

definition loop_post :: "'s loop_config \<Rightarrow> message list \<Rightarrow> loop_end \<Rightarrow> 's loop_state \<Rightarrow> bool" where
  "loop_post cfg rs e s \<longleftrightarrow> stopped_inv cfg s \<and> prefix (handled s) rs
     \<and> (case e of
          Exited n \<Rightarrow> n = length (handled s) \<and> (auto_commit cfg \<or> all_committed s)
        | Polling \<Rightarrow> loop_inv cfg s \<and> handled s = rs
        | Raised x \<Rightarrow> True)"

lemma finish_post:
  assumes "loop_inv cfg s" and "processed s = length (handled s)" and "finish cfg s = (e, s')"
  shows "stopped_inv cfg s' \<and> handled s' = handled s
    \<and> (case e of Exited n \<Rightarrow> n = length (handled s') \<and> (auto_commit cfg \<or> all_committed s')
        | Polling \<Rightarrow> False | Raised x \<Rightarrow> True)"
proof -
  obtain r1 s1 where c: "commit_unless_auto cfg s = (r1, s1)" by force
  from commit_keeps_loop_inv [OF assms(1) c] assms(2,3) c show ?thesis
    by (auto simp: finish_def split: sum.splits)
qed

lemma consume_post:
  assumes "loop_inv cfg s" and "processed s = length (handled s)" and "consume cfg is s = (e, s')"
  shows "loop_post cfg (handled s @ records_of is) e s'"
  using assms
proof (induction cfg "is" s arbitrary: e s' rule: consume.induct)
  case (1 cfg s)
  then show ?case
    by (auto simp: loop_post_def records_of_def loop_inv_stopped split: if_splits loop_end.splits dest: finish_post)
next
  case (2 cfg i "is" s)
  show ?case
  proof (cases "full cfg s \<or> stopped i")
    case True
    with 2 show ?thesis by (auto simp: loop_post_def split: loop_end.splits dest!: finish_post)
  next
    case go: False
    show ?thesis
    proof (cases "polled i")
      case NoMessage
      obtain r1 s1 where t: "idle_tick cfg s = (r1, s1)" by force
      note t1 = idle_keeps_loop_inv [OF 2(4) t]
      show ?thesis
      proof (cases r1)
        case (Inl x)
        with go NoMessage t t1 2(6) show ?thesis by (auto simp: loop_post_def)
      next
        case (Inr u)
        with t1 have inv1: "loop_inv cfg s1" by simp
        show ?thesis
        proof (cases "timed_out cfg (clock_reading i) s1")
          case True
          with go NoMessage t Inr 2(6) have "finish cfg s1 = (e, s')" by simp
          from finish_post [OF inv1 _ this] t1 2(5) show ?thesis
            by (auto simp: loop_post_def split: loop_end.splits)
        next
          case False
          with go NoMessage t Inr 2(6) have "consume cfg is s1 = (e, s')" by simp
          from 2(1) [OF go NoMessage t [symmetric] Inr False inv1 _ this] t1 2(5) NoMessage
          show ?thesis by (simp add: records_of_def)
        qed
      qed
    next
      case ConsumerEvent
      with go 2 show ?thesis by (simp add: records_of_def)
    next
      case (Record m)
      define s0 where "s0 = s\<lparr>last_msg := clock_reading i\<rparr>"
      have inv0: "loop_inv cfg s0" by (rule loop_inv_same [OF 2(4)]) (simp add: s0_def same_loop_def)
      obtain r1 s1 where h: "handle_record cfg m s0 = (r1, s1)" by force
      note h1 = record_keeps_loop_inv [OF inv0 h]
      show ?thesis
      proof (cases r1)
        case (Inl x)
        with go Record h h1 2(6) show ?thesis by (auto simp: loop_post_def s0_def records_of_def)
      next
        case (Inr u)
        with go Record h 2(6) have c: "consume cfg is s1 = (e, s')" by (simp add: s0_def)
        from 2(3) [OF go Record h [unfolded s0_def, symmetric] Inr _ _ c] h1 Inr 2(5) Record
        show ?thesis by (simp add: s0_def records_of_def)
      qed
    qed
  qed
qed

subsection \<open>What the loop promises\<close>

lemma start_loop_inv: "loop_inv cfg (start_loop i now)"
proof -
  have "batch_inv (start_loop i now) [] []"
    by (simp add: start_loop_def batch_inv_def keyed_def row_of_Nil)
  then show ?thesis by (auto simp: loop_inv_def start_loop_def)
qed

lemma consume_loop_post: "loop_post cfg (records_of is) (fst (consume_loop cfg is i now)) (snd (consume_loop cfg is i now))"
proof (cases "consume cfg is (start_loop i now)")
  case (Pair e s)
  have "processed (start_loop i now) = length (handled (start_loop i now))" by (simp add: start_loop_def)
  from consume_post [OF start_loop_inv this Pair] Pair show ?thesis
    by (simp add: consume_loop_def) (simp add: start_loop_def)
qed

text \<open>A run can be cut anywhere: either it has ended in the first part or it goes on from there.\<close>

lemma finish_ends: "fst (finish cfg s) \<noteq> Polling"
  by (simp add: finish_def split: prod.split sum.split)

lemma consume_append:
  "consume cfg (xs @ ys) s =
     (case consume cfg xs s of (e, s1) \<Rightarrow> if e = Polling then consume cfg ys s1 else (e, s1))"
proof (induction cfg xs s rule: consume.induct)
  case (1 cfg s)
  show ?case using finish_ends [of cfg s] by (cases ys) (auto split: prod.split)
next
  case (2 cfg i "is" s)
  show ?case
  proof (cases "full cfg s \<or> stopped i")
    case True
    then show ?thesis using finish_ends [of cfg s] by (auto split: prod.split)
  next
    case go: False
    show ?thesis
    proof (cases "polled i")
      case NoMessage
      obtain r1 s1 where t: "idle_tick cfg s = (r1, s1)" by force
      show ?thesis
        using go NoMessage t "2.IH"(1) [OF go NoMessage t [symmetric]] finish_ends [of cfg s1]
        by (auto split: sum.split prod.split)
    next
      case ConsumerEvent
      with go "2.IH"(2) show ?thesis by simp
    next
      case (Record m)
      obtain r1 s1 where h: "handle_record cfg m (s\<lparr>last_msg := clock_reading i\<rparr>) = (r1, s1)" by force
      show ?thesis
        using go Record h "2.IH"(3) [OF go Record h [symmetric]] by (auto split: sum.split prod.split)
    qed
  qed
qed

text \<open>A partition's records before a committed one: all of them are in the part it was committed from.\<close>

lemma covered_in_prefix:
  assumes "committed_past s m" and "m \<in> set (old @ later)" and "offsets_in_order (old @ later)" and "set (committed s) \<subseteq> set old"
  shows "m \<in> set old"
proof (rule ccontr)
  assume "m \<notin> set old"
  with assms(2) have "m \<in> set later" by simp
  moreover from assms(1,4) obtain c where "c \<in> set old" "partition_of c = partition_of m" "m_offset m \<le> m_offset c"
    by (auto simp: committed_past_def list_ex_iff)
  ultimately show False using assms(3) by (fastforce simp: offsets_in_order_def sorted_wrt_append)
qed

text \<open>A record that is covered has been handled, and so has everything before it.\<close>

lemma covered_handled:
  assumes run: "consume_loop cfg is i now = (e, s)" and "offsets_in_order (records_of is)" and "m \<in> set (records_of is)"
    and "committed_past s m"
  shows "m \<in> set (handled s)"
proof -
  have post: "loop_post cfg (records_of is) e s" using consume_loop_post [of cfg "is" i now] run by simp
  then obtain later where later: "records_of is = handled s @ later" by (auto simp: loop_post_def prefix_def)
  have "set (committed s) \<subseteq> set (handled s)" using post by (simp add: loop_post_def stopped_inv_def)
  with covered_in_prefix [of s m "handled s" later] assms later show ?thesis by simp
qed

lemma records_of_append [simp]: "records_of (xs @ ys) = records_of xs @ records_of ys"
  by (simp add: records_of_def)

lemma records_of_Cons:
  "records_of (i # is) = (case polled i of Record m \<Rightarrow> m # records_of is | _ \<Rightarrow> records_of is)"
  by (simp add: records_of_def split: polled.split)

text \<open>The loop has come to, and handled, every record that the commits have passed.\<close>

lemma committed_past_reached:
  assumes run: "consume_loop cfg is i now = (e, s)" and order: "offsets_in_order (records_of is)"
    and k: "k < length is" "polled (is ! k) = Record m" and past: "committed_past s m"
  shows "length (records_of (take k is)) < length (handled s)"
proof (rule ccontr)
  assume short: "\<not> length (records_of (take k is)) < length (handled s)"
  have "records_of is = records_of (take k is) @ records_of (is ! k # drop (Suc k) is)"
    using id_take_nth_drop [OF k(1)] by (metis records_of_append)
  then have cut: "records_of is = records_of (take k is) @ m # records_of (drop (Suc k) is)" using k(2) by (simp add: records_of_Cons)
  have post: "loop_post cfg (records_of is) e s" using consume_loop_post [of cfg "is" i now] run by simp
  then have "prefix (handled s) (records_of is)" by (simp add: loop_post_def)
  then have "prefix (handled s) (records_of (take k is))" using short cut
    by (metis linorder_not_less prefixI prefix_length_prefix)
  then obtain x where x: "records_of (take k is) = handled s @ x" by (auto simp: prefix_def)
  from past post obtain c where "c \<in> set (handled s)" "partition_of c = partition_of m" "m_offset m \<le> m_offset c"
    by (auto simp: committed_past_def list_ex_iff loop_post_def stopped_inv_def)
  then show False using order unfolding cut x by (fastforce simp: offsets_in_order_def sorted_wrt_append)
qed

text \<open>The step that handled a record: the loop was polling, the handler returned on the state it found.\<close>

lemma handled_step:
  assumes run: "consume_loop cfg is i now = (e, s)" and k: "k < length is" "polled (is ! k) = Record m"
    and reached: "length (records_of (take k is)) < length (handled s)"
  shows "\<exists>s1 v x r1 s2. consume_loop cfg (take k is) i now = (Polling, s1) \<and> handled s1 = records_of (take k is)
    \<and> m_value m = Inr v \<and> handler cfg v (inner s1) = (Inr (), x)
    \<and> handle_record cfg m (s1\<lparr>last_msg := clock_reading (is ! k)\<rparr>) = (r1, s2)
    \<and> (case r1 of Inl x \<Rightarrow> s = s2 | Inr u \<Rightarrow> consume cfg (drop (Suc k) is) s2 = (e, s))"
proof -
  have cut: "is = take k is @ is ! k # drop (Suc k) is" using k(1) by (rule id_take_nth_drop)
  obtain e1 s1 where first: "consume cfg (take k is) (start_loop i now) = (e1, s1)" by fastforce
  have post: "loop_post cfg (records_of (take k is)) e1 s1"
    using consume_loop_post [of cfg "take k is" i now] first by (simp add: consume_loop_def)
  have whole: "(e, s) = (if e1 = Polling then consume cfg (is ! k # drop (Suc k) is) s1 else (e1, s1))"
    using run first consume_append [of cfg "take k is" "is ! k # drop (Suc k) is" "start_loop i now"] cut
    by (simp add: consume_loop_def)
  have "e1 = Polling"
  proof (rule ccontr)
    assume "e1 \<noteq> Polling"
    with whole post have "length (handled s) \<le> length (records_of (take k is))"
      by (auto simp: loop_post_def dest: prefix_length_le)
    with reached show False by simp
  qed
  with post have inv: "loop_inv cfg s1" and h1: "handled s1 = records_of (take k is)" by (simp_all add: loop_post_def)
  from whole \<open>e1 = Polling\<close> have go: "consume cfg (is ! k # drop (Suc k) is) s1 = (e, s)" by simp
  have busy: "\<not> (full cfg s1 \<or> stopped (is ! k))"
  proof
    assume "full cfg s1 \<or> stopped (is ! k)"
    with go have f: "finish cfg s1 = (e, s)" by simp
    obtain r0 s0 where c: "commit_unless_auto cfg s1 = (r0, s0)" by force
    from commit_keeps_loop_inv [OF inv c] f c have "handled s = handled s1" by (auto simp: finish_def split: sum.splits)
    with reached h1 show False by simp
  qed
  let ?s0 = "s1\<lparr>last_msg := clock_reading (is ! k)\<rparr>"
  have inv0: "loop_inv cfg ?s0" by (rule loop_inv_same [OF inv]) (simp add: same_loop_def)
  obtain r1 s2 where rec: "handle_record cfg m ?s0 = (r1, s2)" by force
  have rest: "case r1 of Inl x \<Rightarrow> s = s2 | Inr u \<Rightarrow> consume cfg (drop (Suc k) is) s2 = (e, s)"
    using go busy k(2) rec by (auto split: sum.splits)
  have "handled s2 \<noteq> handled s1"
  proof
    assume same: "handled s2 = handled s1"
    then have "r1 \<noteq> Inr ()" using record_keeps_loop_inv [OF inv0 rec] by auto
    then have "s = s2" using rest by (cases r1) auto
    with same reached h1 show False by simp
  qed
  moreover obtain v x where "m_value m = Inr v" "handler cfg v (inner s1) = (Inr (), x)"
  proof (cases "m_value m")
    case (Inl y)
    with rec calculation show thesis by (simp add: handle_record_def) (metis loop_state.select_convs(6) loop_state.surjective loop_state.update_convs(5) prod.inject)
  next
    case (Inr v)
    obtain r0 x where hd: "handler cfg v (inner s1) = (r0, x)" by fastforce
    with rec calculation Inr have "r0 = Inr ()" by (cases r0) (auto simp: handle_record_def run_inner_def)
    with hd Inr that show thesis by blast
  qed
  ultimately show ?thesis using first \<open>e1 = Polling\<close> h1 rec rest by (auto simp: consume_loop_def)
qed

lemma nth_record:
  "j < length (records_of is) \<Longrightarrow>
     \<exists>k < length is. polled (is ! k) = Record (records_of is ! j) \<and> length (records_of (take k is)) = j"
proof (induction "is" arbitrary: j)
  case (Cons i "is")
  show ?case
  proof (cases "\<exists>m. polled i = Record m \<and> j = 0")
    case True
    then show ?thesis by (intro exI [of _ 0]) (auto simp: records_of_Cons records_of_def [of "[]"])
  next
    case False
    define j' where "j' = (case polled i of Record m \<Rightarrow> j - 1 | _ \<Rightarrow> j)"
    have j': "j' < length (records_of is)" "records_of (i # is) ! j = records_of is ! j'"
      using Cons.prems False by (auto simp: j'_def records_of_Cons nth_Cons' split: polled.splits)
    from Cons.IH [OF j'(1)] obtain k where
      "k < length is" "polled (is ! k) = Record (records_of is ! j')" "length (records_of (take k is)) = j'" by blast
    with j'(2) False show ?thesis
      by (intro exI [of _ "Suc k"]) (auto simp: records_of_Cons j'_def split: polled.splits)
  qed
qed (simp add: records_of_def)

lemma handled_readable:
  assumes run: "consume_loop cfg is i now = (e, s)" and m: "m \<in> set (handled s)"
  shows "\<exists>v. m_value m = Inr v"
proof -
  from m obtain j where j: "j < length (handled s)" "handled s ! j = m" by (metis in_set_conv_nth)
  obtain later where later: "records_of is = handled s @ later"
    using consume_loop_post [of cfg "is" i now] run by (auto simp: loop_post_def prefix_def)
  with j have "j < length (records_of is)" "records_of is ! j = m" by (simp_all add: nth_append)
  with nth_record [of j "is"] obtain k where "k < length is" "polled (is ! k) = Record m"
    "length (records_of (take k is)) = j" by auto
  with handled_step [OF run this(1,2)] j(1) show ?thesis by auto
qed

text \<open>C9. No record is skipped and nothing is committed early: at every end of the loop, a raise included, the
  records handled are a prefix of the records polled, and every committed record has been handled; a
  clean exit without auto-commit leaves every partition's offset at its newest handled record.\<close>

theorem offsets_never_run_ahead:
  "case consume_loop cfg is i now of (e, s) \<Rightarrow>
     prefix (handled s) (records_of is)
     \<and> set (committed s) \<subseteq> set (handled s)
     \<and> (case e of
          Exited n \<Rightarrow> n = length (handled s)
            \<and> (auto_commit cfg \<or> (\<lambda>p. newest p (committed s)) = (\<lambda>p. newest p (handled s)))
        | Polling \<Rightarrow> handled s = records_of is
        | Raised x \<Rightarrow> True)"
  using consume_loop_post [of cfg "is" i now]
  by (auto simp: loop_post_def stopped_inv_def all_committed_def simp del: split_paired_All
      split: prod.split loop_end.splits)

text \<open>C31. A crash redelivers at most one batch: without auto-commit, however the loop ends or wherever it is
  observed, the records handled split into those before the current batch and a batch of at most
  \<^verbatim>\<open>commit_every\<close> (at least one) records, and each partition's committed offset is the newest of
  the first part or the newest of all.\<close>

theorem crash_redelivers_one_batch:
  assumes "\<not> auto_commit cfg"
  shows "\<exists>old new. handled (snd (consume_loop cfg is i now)) = old @ new
     \<and> int (length new) \<le> max 1 (commit_every cfg)
     \<and> (\<forall>p. newest p (committed (snd (consume_loop cfg is i now))) = newest p old
          \<or> newest p (committed (snd (consume_loop cfg is i now))) = newest p (old @ new))"
proof -
  have "at_most_a_batch cfg (snd (consume_loop cfg is i now))"
    using consume_loop_post [of cfg "is" i now] assms by (simp add: loop_post_def stopped_inv_def)
  then obtain old new where "handled (snd (consume_loop cfg is i now)) = old @ new"
    and "int (length new) \<le> max 1 (commit_every cfg)"
    and "\<forall>p. newest p (committed (snd (consume_loop cfg is i now))) = newest p old
          \<or> newest p (committed (snd (consume_loop cfg is i now))) = newest p (handled (snd (consume_loop cfg is i now)))"
    unfolding at_most_a_batch_def by blast
  then show ?thesis by (intro exI [of _ old] exI [of _ new]) simp
qed

text \<open>A loop over two partitions that raises on its third record, with batches of two.\<close>

definition demo_loop :: "string list loop_config" where
  "demo_loop = \<lparr>handler = (\<lambda>v seen. if v = ''bad'' then (Inl ValueError, seen) else (Inr (), seen @ [v])),
     max_messages = None, auto_commit = False, idle_timeout = None, commit_every = 2, pre_commit = None,
     idle_hook = None, after_handler = None, broker_commit = (\<lambda>m seen. (Inr (), seen))\<rparr>"

definition demo_record :: "nat \<Rightarrow> nat \<Rightarrow> string \<Rightarrow> poll_item" where
  "demo_record p k v = \<lparr>stopped = False, clock_reading = int k,
     polled = Record \<lparr>m_topic = ''t'', m_partition = p, m_offset = k, m_value = Inr v\<rparr>\<rparr>"

theorem crash_redelivers_one_batch_witness:
  "let s = snd (consume_loop demo_loop [demo_record 0 0 ''a'', demo_record 1 0 ''b'', demo_record 0 1 ''c'',
        demo_record 0 2 ''bad''] [] 0)
   in map m_value (handled s) = map Inr [''a'', ''b'', ''c''] \<and> map m_value (committed s) = map Inr [''a'', ''b'']
     \<and> (\<exists>old new. handled s = old @ new \<and> int (length new) \<le> max 1 2
        \<and> (\<forall>p. newest p (committed s) = newest p old \<or> newest p (committed s) = newest p (old @ new)))"
proof -
  let ?is = "[demo_record 0 0 ''a'', demo_record 1 0 ''b'', demo_record 0 1 ''c'', demo_record 0 2 ''bad'']"
  have "map m_value (handled (snd (consume_loop demo_loop ?is [] 0))) = map Inr [''a'', ''b'', ''c'']"
    and "map m_value (committed (snd (consume_loop demo_loop ?is [] 0))) = map Inr [''a'', ''b'']"
    by code_simp+
  moreover have "\<not> auto_commit demo_loop" and "commit_every demo_loop = 2" by (simp_all add: demo_loop_def)
  with crash_redelivers_one_batch [of demo_loop ?is "[]" 0]
  have "\<exists>old new. handled (snd (consume_loop demo_loop ?is [] 0)) = old @ new \<and> int (length new) \<le> max 1 2
      \<and> (\<forall>p. newest p (committed (snd (consume_loop demo_loop ?is [] 0))) = newest p old
          \<or> newest p (committed (snd (consume_loop demo_loop ?is [] 0))) = newest p (old @ new))" by simp
  ultimately show ?thesis unfolding Let_def by blast
qed

subsection \<open>Output before offset\<close>

text \<open>
  The contract between a consumer and what it produces: a handled message is owed, a call of
  \<^verbatim>\<open>pre_commit\<close> that returns settles what is owed, and neither is undone by later work, all of it
  while an invariant of the handler's state holds, which every call keeps. Without a \<^verbatim>\<open>pre_commit\<close>
  what the handler leaves is settled already. Then no offset is committed past a message that is
  not settled.
\<close>

locale output_first =
  fixes cfg :: "'s loop_config"
    and inv :: "'s \<Rightarrow> bool"
    and owed :: "string \<Rightarrow> 's \<Rightarrow> bool"
    and settled :: "string \<Rightarrow> 's \<Rightarrow> bool"
    and flush :: "('s, unit) call"
  assumes flushes: "flush = (case pre_commit cfg of None \<Rightarrow> (\<lambda>s. (Inr (), s)) | Some c \<Rightarrow> c)"
    and no_auto: "\<not> auto_commit cfg"
    and handler_inv: "handler cfg v s = (r, s') \<Longrightarrow> inv s \<Longrightarrow> inv s'"
    and flush_inv: "flush s = (r, s') \<Longrightarrow> inv s \<Longrightarrow> inv s'"
    and hook_inv: "idle_hook cfg = Some h \<or> after_handler cfg = Some h \<Longrightarrow> h s = (r, s') \<Longrightarrow> inv s \<Longrightarrow> inv s'"
    and commit_inv: "broker_commit cfg m s = (r, s') \<Longrightarrow> inv s \<Longrightarrow> inv s'"
    and handler_owes: "handler cfg v s = (Inr (), s') \<Longrightarrow> inv s \<Longrightarrow> owed v s'"
    and handler_keeps: "handler cfg v s = (r, s') \<Longrightarrow> inv s \<Longrightarrow> settled u s \<Longrightarrow> settled u s'"
    and handler_keeps_owed: "handler cfg v s = (Inr (), s') \<Longrightarrow> inv s \<Longrightarrow> owed u s \<Longrightarrow> owed u s'"
    and flush_settles: "flush s = (Inr (), s') \<Longrightarrow> inv s \<Longrightarrow> owed u s \<Longrightarrow> settled u s'"
    and flush_keeps: "flush s = (r, s') \<Longrightarrow> inv s \<Longrightarrow> settled u s \<Longrightarrow> settled u s'"
    and settled_owed: "settled u s \<Longrightarrow> owed u s"
    and hook_keeps: "idle_hook cfg = Some h \<or> after_handler cfg = Some h \<Longrightarrow> h s = (r, s') \<Longrightarrow>
        inv s \<Longrightarrow> settled u s \<Longrightarrow> settled u s'"
    and hook_keeps_owed: "idle_hook cfg = Some h \<or> after_handler cfg = Some h \<Longrightarrow> h s = (Inr (), s') \<Longrightarrow>
        inv s \<Longrightarrow> owed u s \<Longrightarrow> owed u s'"
    and commit_keeps: "broker_commit cfg m s = (r, s') \<Longrightarrow> inv s \<Longrightarrow> settled u s \<Longrightarrow> settled u s'"
begin

definition vals :: "message list \<Rightarrow> string set" where
  "vals ms = {v. \<exists>m \<in> set ms. m_value m = Inr v}"

text \<open>The records committed come from a part of the handled ones of which every record is settled, not only the
  newest of each partition.\<close>

definition paid :: "'s loop_state \<Rightarrow> bool" where
  "paid s \<longleftrightarrow> inv (inner s)
     \<and> (\<exists>old new. handled s = old @ new \<and> set (committed s) \<subseteq> set old \<and> (\<forall>v \<in> vals old. settled v (inner s)))"

definition accounted :: "'s loop_state \<Rightarrow> bool" where
  "accounted s \<longleftrightarrow> paid s \<and> set (map snd (pending s)) \<subseteq> set (handled s) \<and> (\<forall>v \<in> vals (handled s). owed v (inner s))"

lemma paid_step:
  assumes "paid s" and "inv i1" and "\<And>u. settled u (inner s) \<Longrightarrow> settled u i1"
  shows "paid (s\<lparr>inner := i1\<rparr>)"
proof -
  from assms(1) obtain old new where "handled s = old @ new" "set (committed s) \<subseteq> set old" "\<forall>v \<in> vals old. settled v (inner s)"
    unfolding paid_def by blast
  with assms(2,3) show ?thesis unfolding paid_def by (intro conjI exI [of _ old] exI [of _ new]) simp_all
qed

lemma paid_processed [simp]: "paid (s\<lparr>processed := n\<rparr>) = paid s" "accounted (s\<lparr>processed := n\<rparr>) = accounted s"
  by (simp_all add: accounted_def) (simp_all add: paid_def)

lemma paid_inv: "paid s \<Longrightarrow> inv (inner s)"
  by (simp add: paid_def)

lemma vals_simps [simp]:
  "vals [] = {}" "vals (a @ b) = vals a \<union> vals b"
  "vals (m # ms) = (case m_value m of Inl e \<Rightarrow> vals ms | Inr v \<Rightarrow> insert v (vals ms))"
  by (auto simp: vals_def split: sum.split)

text \<open>Once everything handled is settled, each commit keeps the part that is.\<close>

lemma commit_all_pays:
  assumes "commit_all cfg ms s = (r, s')" and "inv (inner s)" and "set (committed s) \<subseteq> set (handled s)"
    and "set ms \<subseteq> set (handled s)" and "\<forall>v \<in> vals (handled s). settled v (inner s)"
  shows "paid s' \<and> (\<forall>v \<in> vals (handled s). settled v (inner s'))"
  using assms
proof (induction ms arbitrary: s)
  case Nil
  then have "handled s' = handled s' @ [] \<and> set (committed s') \<subseteq> set (handled s')
      \<and> (\<forall>v \<in> vals (handled s'). settled v (inner s'))" and "s = s'" by simp_all
  with Nil.prems(2) show ?case unfolding paid_def by blast
next
  case (Cons m ms)
  obtain r1 i1 where b: "broker_commit cfg m (inner s) = (r1, i1)" by force
  then have ri: "run_inner (broker_commit cfg m) s = (r1, s\<lparr>inner := i1\<rparr>)" by (simp add: run_inner_def)
  have inv1: "inv i1" using commit_inv [OF b] Cons.prems(2) .
  have keep: "settled u (inner s) \<Longrightarrow> settled u i1" for u
    using commit_keeps [OF b] Cons.prems(2) by simp
  show ?case
  proof (cases r1)
    case (Inl e)
    with Cons.prems ri have s': "s' = s\<lparr>inner := i1\<rparr>" by simp
    have "handled s' = handled s @ [] \<and> set (committed s') \<subseteq> set (handled s)
        \<and> (\<forall>v \<in> vals (handled s). settled v (inner s'))" and "inv (inner s')"
      using Cons.prems(3,5) keep inv1 by (simp_all add: s')
    then show ?thesis unfolding paid_def by blast
  next
    case (Inr u)
    define s1 where "s1 = s\<lparr>inner := i1, committed := committed s @ [m]\<rparr>"
    have "commit_all cfg ms s1 = (r, s')" using Cons.prems(1) ri Inr by (simp add: s1_def)
    moreover have "inv (inner s1)" "set (committed s1) \<subseteq> set (handled s1)" "set ms \<subseteq> set (handled s1)"
      "\<forall>v \<in> vals (handled s1). settled v (inner s1)"
      using Cons.prems inv1 keep by (auto simp: s1_def)
    ultimately have "paid s' \<and> (\<forall>v \<in> vals (handled s1). settled v (inner s'))" by (rule Cons.IH)
    then show ?thesis by (simp add: s1_def)
  qed
qed

lemma commit_accounts:
  assumes acc: "accounted s" and run: "commit_pending cfg s = (r, s')"
  shows "paid s' \<and> (r = Inr () \<longrightarrow> accounted s')"
proof (cases "pending s = []")
  case True
  with assms show ?thesis by (auto simp: commit_pending_def accounted_def)
next
  case False
  obtain r1 i1 where f: "flush (inner s) = (r1, i1)" by force
  then have h: "run_hook (pre_commit cfg) s = (r1, s\<lparr>inner := i1\<rparr>)"
    by (auto simp: run_hook_def run_inner_def flushes split: option.splits prod.splits)
  have inv0: "inv (inner s)" using acc by (simp add: accounted_def paid_def)
  have inv1: "inv i1" using flush_inv [OF f inv0] .
  have paid1: "paid (s\<lparr>inner := i1\<rparr>)"
    using acc by (intro paid_step inv1 flush_keeps [OF f inv0]) (simp_all add: accounted_def)
  show ?thesis
  proof (cases r1)
    case (Inl e)
    with h run False paid1 show ?thesis by (auto simp: commit_pending_def)
  next
    case (Inr u)
    then have settles: "owed v (inner s) \<Longrightarrow> settled v i1" for v using flush_settles f inv0 by simp
    define s1 where "s1 = s\<lparr>inner := i1\<rparr>"
    obtain r2 s2 where all: "commit_all cfg (map snd (pending s1)) s1 = (r2, s2)" by force
    have "set (committed s1) \<subseteq> set (handled s1)" using paid1 by (auto simp: paid_def s1_def)
    moreover have "set (map snd (pending s1)) \<subseteq> set (handled s1)" "\<forall>v \<in> vals (handled s1). settled v (inner s1)"
      using acc settles by (auto simp: accounted_def s1_def)
    ultimately have pays: "paid s2 \<and> (\<forall>v \<in> vals (handled s1). settled v (inner s2))"
      using all inv1 by (intro commit_all_pays [OF all]) (simp_all add: s1_def)
    note frame = commit_all_result [OF all]
    show ?thesis
    proof (cases r2)
      case (Inl e)
      with h Inr all run False pays show ?thesis by (auto simp: commit_pending_def s1_def)
    next
      case (Inr u2)
      then have r: "r = Inr ()" and s': "s' = s2\<lparr>pending := [], since_commit := 0\<rparr>"
        using h \<open>r1 = Inr u\<close> all run False by (auto simp: commit_pending_def s1_def)
      have "paid s'" using pays by (simp add: s' paid_def)
      moreover have "\<forall>v \<in> vals (handled s'). owed v (inner s')"
        using pays frame by (auto simp: s' s1_def intro: settled_owed)
      ultimately show ?thesis by (simp add: accounted_def) (simp add: s')
    qed
  qed
qed

lemma note_accounts:
  assumes acc: "accounted s" and owes: "m_value m = Inr v" "owed v (inner s)"
    and run: "note_handled cfg m s = (r, s')"
  shows "paid s' \<and> (r = Inr () \<longrightarrow> accounted s')"
proof -
  define s1 where "s1 = s\<lparr>handled := handled s @ [m],
      pending := upsert fst (partition_of m, m) (\<lambda>kv. (fst kv, m)) (pending s),
      since_commit := since_commit s + 1\<rparr>"
  have "set (map snd (upsert fst (partition_of m, m) (\<lambda>kv. (fst kv, m)) t)) \<subseteq> insert m (set (map snd t))" for t
    by (induction t) auto
  then have "set (map snd (pending s1)) \<subseteq> set (handled s1)" using acc by (fastforce simp: accounted_def s1_def)
  moreover obtain old new where "handled s = old @ new" "set (committed s) \<subseteq> set old" "\<forall>v \<in> vals old. settled v (inner s)"
    and "inv (inner s)" using acc by (auto simp: accounted_def paid_def)
  then have "handled s1 = old @ new @ [m] \<and> set (committed s1) \<subseteq> set old \<and> (\<forall>v \<in> vals old. settled v (inner s1))"
    and "inv (inner s1)" by (simp_all add: s1_def)
  then have "paid s1" unfolding paid_def by blast
  ultimately have acc1: "accounted s1" using acc owes by (auto simp: accounted_def s1_def)
  obtain r2 s2 where c: "commit_pending cfg s1 = (r2, s2)" by force
  have "paid s1" using acc1 by (simp add: accounted_def)
  with commit_accounts [OF acc1 c] acc1 run c no_auto show ?thesis
    by (auto simp: note_handled_def s1_def [symmetric] Let_def split: sum.splits if_splits)
qed

lemma hook_accounts:
  assumes acc: "accounted s" and h: "hk = idle_hook cfg \<or> hk = after_handler cfg" and run: "run_hook hk s = (r, s')"
  shows "paid s' \<and> (r = Inr () \<longrightarrow> accounted s' \<and> (\<forall>v. owed v (inner s) \<longrightarrow> owed v (inner s')))"
proof (cases hk)
  case None
  with acc run show ?thesis by (auto simp: run_hook_def accounted_def)
next
  case (Some c)
  then obtain i1 where i: "c (inner s) = (r, i1)" "s' = s\<lparr>inner := i1\<rparr>"
    using run by (auto simp: run_hook_def run_inner_def split: prod.splits)
  have who: "idle_hook cfg = Some c \<or> after_handler cfg = Some c" using Some h by auto
  have inv0: "inv (inner s)" using acc by (simp add: accounted_def paid_def)
  have "paid s'" unfolding i(2)
    using acc by (intro paid_step hook_inv [OF who i(1) inv0] hook_keeps [OF who i(1) inv0]) (simp_all add: accounted_def)
  moreover have "r = Inr () \<Longrightarrow> owed v (inner s) \<Longrightarrow> owed v (inner s')" for v
    using hook_keeps_owed [OF who] i inv0 by simp
  ultimately show ?thesis using acc by (simp add: accounted_def i(2))
qed

lemma record_accounts:
  assumes acc: "accounted s" and run: "handle_record cfg m s = (r, s')"
  shows "paid s' \<and> (r = Inr () \<longrightarrow> accounted s')"
proof (cases "m_value m")
  case (Inl e)
  with assms show ?thesis by (auto simp: handle_record_def accounted_def)
next
  case v: (Inr v)
  obtain r1 i1 where h: "handler cfg v (inner s) = (r1, i1)" by force
  define s1 where "s1 = s\<lparr>inner := i1\<rparr>"
  have ri: "run_inner (handler cfg v) s = (r1, s1)" using h by (simp add: run_inner_def s1_def)
  have inv0: "inv (inner s)" using acc by (simp add: accounted_def paid_def)
  have paid1: "paid s1" unfolding s1_def
    using acc by (intro paid_step handler_inv [OF h inv0] handler_keeps [OF h inv0]) (simp_all add: accounted_def)
  show ?thesis
  proof (cases r1)
    case (Inl e)
    with v ri run paid1 show ?thesis by (auto simp: handle_record_def)
  next
    case (Inr u)
    then have owes: "owed v (inner s1)" and "owed u' (inner s) \<Longrightarrow> owed u' (inner s1)" for u'
      using handler_owes handler_keeps_owed h inv0 by (auto simp: s1_def)
    then have acc1: "accounted s1" using acc paid1 by (simp add: accounted_def s1_def)
    obtain r2 s2 where a: "run_hook (after_handler cfg) s1 = (r2, s2)" by force
    from hook_accounts [OF acc1 disjI2 [OF refl] a] owes have
      p2: "paid s2" and a2: "r2 = Inr () \<Longrightarrow> accounted s2 \<and> owed v (inner s2)" by auto
    show ?thesis
    proof (cases r2)
      case (Inl e)
      with v ri \<open>r1 = Inr u\<close> a run p2 show ?thesis by (auto simp: handle_record_def)
    next
      case (Inr u2)
      with v ri \<open>r1 = Inr u\<close> a run have n: "note_handled cfg m s2 = (r, s')" by (simp add: handle_record_def)
      from a2 Inr have "accounted s2" and "owed v (inner s2)" by simp_all
      from note_accounts [OF this(1) v this(2) n] show ?thesis .
    qed
  qed
qed

lemma commit_unless_accounts:
  "accounted s \<Longrightarrow> commit_unless_auto cfg s = (r, s') \<Longrightarrow> paid s' \<and> (r = Inr () \<longrightarrow> accounted s')"
  using commit_accounts no_auto by (simp add: commit_unless_auto_def)

lemma idle_accounts:
  assumes acc: "accounted s" and run: "idle_tick cfg s = (r, s')"
  shows "paid s' \<and> (r = Inr () \<longrightarrow> accounted s')"
proof -
  obtain r1 s1 where c: "commit_unless_auto cfg s = (r1, s1)" by force
  note c1 = commit_unless_accounts [OF acc c]
  show ?thesis
  proof (cases r1)
    case (Inl e)
    with c c1 run show ?thesis by (auto simp: idle_tick_def)
  next
    case (Inr u)
    with c c1 run hook_accounts [OF _ disjI1 [OF refl], of s1] show ?thesis by (auto simp: idle_tick_def)
  qed
qed

lemma finish_accounts: "accounted s \<Longrightarrow> finish cfg s = (e, s') \<Longrightarrow> paid s'"
  by (auto simp: finish_def dest: commit_unless_accounts split: prod.splits sum.splits)

lemma consume_pays: "accounted s \<Longrightarrow> consume cfg is s = (e, s') \<Longrightarrow> paid s'"
proof (induction "is" arbitrary: s)
  case Nil
  then have "paid s" by (simp add: accounted_def)
  with Nil finish_accounts show ?case by (auto split: if_splits)
next
  case (Cons i "is")
  show ?case
  proof (cases "full cfg s \<or> stopped i")
    case True
    with Cons.prems finish_accounts show ?thesis by auto
  next
    case go: False
    show ?thesis
    proof (cases "polled i")
      case NoMessage
      obtain r1 s1 where t: "idle_tick cfg s = (r1, s1)" by force
      from idle_accounts [OF Cons.prems(1) t] Cons.prems(2) Cons.IH finish_accounts go NoMessage t
      show ?thesis by (auto split: sum.splits if_splits)
    next
      case ConsumerEvent
      with Cons go show ?thesis by simp
    next
      case (Record m)
      define s0 where "s0 = s\<lparr>last_msg := clock_reading i\<rparr>"
      have acc0: "accounted s0" using Cons.prems(1) by (simp add: accounted_def paid_def s0_def)
      obtain r1 s1 where h: "handle_record cfg m s0 = (r1, s1)" by force
      from record_accounts [OF acc0 h] Cons.prems(2) Cons.IH go Record h
      show ?thesis by (auto simp: s0_def [symmetric] split: sum.splits)
    qed
  qed
qed

lemma start_accounted: "inv i \<Longrightarrow> accounted (start_loop i now)"
  by (simp add: start_loop_def accounted_def paid_def)

lemma consume_loop_pays: "inv i \<Longrightarrow> consume_loop cfg is i now = (e, s) \<Longrightarrow> paid s"
  using consume_pays [OF start_accounted] by (simp add: consume_loop_def)

lemma committed_is_settled:
  assumes "m \<in> set (committed (snd (consume_loop cfg is i now)))" and "m_value m = Inr v" and "inv i"
  shows "settled v (inner (snd (consume_loop cfg is i now)))"
proof -
  obtain e s where run: "consume_loop cfg is i now = (e, s)" by fastforce
  with consume_loop_pays [OF assms(3) run] assms(1,2) show ?thesis by (auto simp: paid_def vals_def)
qed

text \<open>Whatever the broker will not deliver again is settled.\<close>

lemma covered_is_settled:
  assumes run: "consume_loop cfg is i now = (e, s)" and order: "offsets_in_order (records_of is)"
    and m: "m \<in> set (records_of is)" "committed_past s m" and "inv i"
  shows "\<exists>v. m_value m = Inr v \<and> settled v (inner s)"
proof -
  obtain old new where h: "handled s = old @ new" and c: "set (committed s) \<subseteq> set old"
    and paid: "\<forall>v \<in> vals old. settled v (inner s)"
    using consume_loop_pays [OF assms(5) run] by (auto simp: paid_def)
  obtain later where "records_of is = handled s @ later"
    using consume_loop_post [of cfg "is" i now] run by (auto simp: loop_post_def prefix_def)
  with covered_in_prefix [OF m(2) _ _ c, of "new @ later"] m(1) order h have old: "m \<in> set old" by simp
  with h have "m \<in> set (handled s)" by simp
  then obtain v where "m_value m = Inr v" using handled_readable [OF run] by blast
  with old paid show ?thesis by (auto simp: vals_def)
qed

text \<open>The invariant of the handler's state holds wherever the loop stands.\<close>

lemma loop_keeps_inv:
  assumes "inv i"
  shows "inv (inner (snd (consume_loop cfg is i now)))"
proof -
  obtain e s where run: "consume_loop cfg is i now = (e, s)" by fastforce
  with paid_inv [OF consume_loop_pays [OF assms run]] show ?thesis by simp
qed

text \<open>From the state a handled record left, the invariant lasts to the end of the run.\<close>

lemma run_hook_inv:
  "run_hook hk s = (r, s') \<Longrightarrow> hk = idle_hook cfg \<or> hk = after_handler cfg \<Longrightarrow> inv (inner s) \<Longrightarrow> inv (inner s')"
  using hook_inv by (force simp: run_hook_def run_inner_def split: option.splits prod.splits)

lemma commit_all_inv: "commit_all cfg ms s = (r, s') \<Longrightarrow> inv (inner s) \<Longrightarrow> inv (inner s')"
proof (induction ms arbitrary: s)
  case (Cons m ms)
  obtain r1 i1 where b: "broker_commit cfg m (inner s) = (r1, i1)" by force
  with commit_inv [OF b] Cons show ?case by (cases r1) (auto simp: run_inner_def)
qed simp

lemma commit_unless_inv: "commit_unless_auto cfg s = (r, s') \<Longrightarrow> inv (inner s) \<Longrightarrow> inv (inner s')"
proof (cases "pending s = []")
  case False
  assume run: "commit_unless_auto cfg s = (r, s')" and inv: "inv (inner s)"
  obtain r1 i1 where f: "flush (inner s) = (r1, i1)" by force
  then have h: "run_hook (pre_commit cfg) s = (r1, s\<lparr>inner := i1\<rparr>)"
    by (auto simp: run_hook_def run_inner_def flushes split: option.splits prod.splits)
  obtain r2 s2 where all: "commit_all cfg (map snd (pending s)) (s\<lparr>inner := i1\<rparr>) = (r2, s2)" by force
  from run False h all no_auto flush_inv [OF f inv] commit_all_inv [OF all] show ?thesis
    by (auto simp: commit_unless_auto_def commit_pending_def split: sum.splits)
qed (auto simp: commit_unless_auto_def commit_pending_def split: if_splits)

lemma note_inv:
  assumes "note_handled cfg m s = (r, s')" and "inv (inner s)"
  shows "inv (inner s')"
proof -
  define s1 where "s1 = s\<lparr>handled := handled s @ [m],
      pending := upsert fst (partition_of m, m) (\<lambda>kv. (fst kv, m)) (pending s),
      since_commit := since_commit s + 1\<rparr>"
  obtain r2 s2 where c: "commit_pending cfg s1 = (r2, s2)" by force
  have inv1: "inv (inner s1)" using assms(2) by (simp add: s1_def)
  with commit_unless_inv [of s1 r2 s2] c no_auto have "inv (inner s2)" by (simp add: commit_unless_auto_def)
  with inv1 assms(1) c no_auto show ?thesis
    by (auto simp: note_handled_def s1_def [symmetric] Let_def split: sum.splits if_splits)
qed

lemma record_inv:
  assumes "handle_record cfg m s = (r, s')" and "inv (inner s)"
  shows "inv (inner s')"
proof (cases "m_value m")
  case (Inl e)
  with assms show ?thesis by (simp add: handle_record_def)
next
  case v: (Inr v)
  obtain r1 i1 where h: "handler cfg v (inner s) = (r1, i1)" by force
  obtain r2 s2 where a: "run_hook (after_handler cfg) (s\<lparr>inner := i1\<rparr>) = (r2, s2)" by force
  have "inv (inner s2)" using run_hook_inv [OF a] handler_inv [OF h assms(2)] by simp
  with assms(1) v h a handler_inv [OF h assms(2)] note_inv show ?thesis
    by (auto simp: handle_record_def run_inner_def split: sum.splits)
qed

lemma consume_inv: "consume cfg is s = (e, s') \<Longrightarrow> inv (inner s) \<Longrightarrow> inv (inner s')"
proof (induction "is" arbitrary: s)
  case Nil
  then show ?case by (auto simp: finish_def split: if_splits prod.splits sum.splits dest: commit_unless_inv)
next
  case (Cons i "is")
  have fin: "finish cfg t = (e, s') \<Longrightarrow> inv (inner t) \<Longrightarrow> inv (inner s')" for t
    by (auto simp: finish_def split: prod.splits sum.splits dest: commit_unless_inv)
  have idle: "idle_tick cfg t = (r, t') \<Longrightarrow> inv (inner t) \<Longrightarrow> inv (inner t')" for t r t'
    by (auto simp: idle_tick_def split: prod.splits sum.splits dest: commit_unless_inv run_hook_inv)
  show ?case
  proof (cases "polled i")
    case (Record m)
    obtain r1 s1 where "handle_record cfg m (s\<lparr>last_msg := clock_reading i\<rparr>) = (r1, s1)" by force
    with record_inv [OF this] Cons fin Record show ?thesis by (auto split: if_splits sum.splits)
  qed (use Cons fin idle in \<open>auto split: if_splits sum.splits prod.splits\<close>)
qed

lemma handled_at:
  assumes "consume_loop cfg is i now = (e, s)" and "k < length is" "polled (is ! k) = Record m"
    and "length (records_of (take k is)) < length (handled s)"
  obtains s1 v x where "consume_loop cfg (take k is) i now = (Polling, s1)" "m_value m = Inr v"
    "handler cfg v (inner s1) = (Inr (), x)" "inv x \<Longrightarrow> inv (inner s)"
proof -
  from handled_step [OF assms] obtain s1 v x r1 s2 where
    first: "consume_loop cfg (take k is) i now = (Polling, s1)" and v: "m_value m = Inr v"
    and x: "handler cfg v (inner s1) = (Inr (), x)"
    and rec: "handle_record cfg m (s1\<lparr>last_msg := clock_reading (is ! k)\<rparr>) = (r1, s2)"
    and rest: "case r1 of Inl x \<Rightarrow> s = s2 | Inr u \<Rightarrow> consume cfg (drop (Suc k) is) s2 = (e, s)" by blast
  define s0 where "s0 = s1\<lparr>last_msg := clock_reading (is ! k), inner := x\<rparr>"
  obtain r3 s3 where a: "run_hook (after_handler cfg) s0 = (r3, s3)" by force
  have "inv x \<Longrightarrow> inv (inner s2)"
    using run_hook_inv [OF a] rec v x a note_inv
    by (auto simp: handle_record_def run_inner_def s0_def split: sum.splits)
  then have "inv x \<Longrightarrow> inv (inner s)" using rest consume_inv by (auto split: sum.splits)
  with first v x that show thesis by blast
qed

end

end
