(* ===== verification/Replay.thy ===== *)
theory Replay
  imports Kafka
begin

section \<open>Producers, dead letters and their replay (\<^verbatim>\<open>kafka_io.py\<close>, \<^verbatim>\<open>deadletter.py\<close>, \<^verbatim>\<open>replay_deadletter.py\<close>)\<close>

text \<open>
  A producer has messages in flight, and the delivery reports it has served: acknowledged
  messages and errors. Which messages fail, and how many reports \<^verbatim>\<open>poll(0)\<close> serves, is up to the
  client library and the broker, and so are parameters. \<open>replay_record\<close> routes one dead-letter
  record; the JSON parser is a parameter. The theorems: a committed dead letter has been
  acknowledged on an output topic, and replaying an envelope republishes its payload as it was.
\<close>

subsection \<open>Producers\<close>

record delivery =
  d_topic :: string
  d_value :: string
  d_key :: "string option"

record producer =
  in_flight :: "delivery list"
  acked :: "delivery list"
  errors :: "exn list"
  served :: nat

text \<open>\<open>report n d\<close> is the broker's answer to the n-th delivery report: \<open>None\<close> or an error.\<close>

type_synonym reports = "nat \<Rightarrow> delivery \<Rightarrow> exn option"

definition new_producer :: producer where
  "new_producer = \<lparr>in_flight = [], acked = [], errors = [], served = 0\<rparr>"

text \<open>One delivery report, the callback \<^verbatim>\<open>_cb\<close> included.\<close>

definition serve_one :: "reports \<Rightarrow> delivery \<Rightarrow> producer \<Rightarrow> producer" where
  "serve_one report d p =
     (case report (served p) d of
        None \<Rightarrow> p\<lparr>acked := acked p @ [d], served := Suc (served p)\<rparr>
      | Some e \<Rightarrow> p\<lparr>errors := errors p @ [e], served := Suc (served p)\<rparr>)"

definition serve :: "reports \<Rightarrow> nat \<Rightarrow> producer \<Rightarrow> producer" where
  "serve report k p = foldl (\<lambda>q d. serve_one report d q) (p\<lparr>in_flight := drop k (in_flight p)\<rparr>) (take k (in_flight p))"

text \<open>\<^verbatim>\<open>BufferedProducer.produce\<close>: \<open>polled\<close> tells how many reports \<^verbatim>\<open>poll(0)\<close> serves.\<close>

definition produce :: "reports \<Rightarrow> (producer \<Rightarrow> nat) \<Rightarrow> string \<Rightarrow> string \<Rightarrow> string option \<Rightarrow> producer \<Rightarrow> producer" where
  "produce report served_by_poll topic value key p =
     (let p1 = p\<lparr>in_flight := in_flight p @ [\<lparr>d_topic = topic, d_value = value, d_key = key\<rparr>]\<rparr>
      in serve report (served_by_poll p1) p1)"

definition flush_all :: "reports \<Rightarrow> producer \<Rightarrow> producer" where
  "flush_all report p = serve report (length (in_flight p)) p"

definition flush_checked :: "reports \<Rightarrow> (producer, unit) call" where
  "flush_checked report p =
     (let p1 = flush_all report p
      in if errors p1 \<noteq> [] then (Inl RuntimeError, p1\<lparr>errors := []\<rparr>) else (Inr (), p1))"

text \<open>\<^verbatim>\<open>produce_sync\<close> on a bare producer: its callback only sees its own message's report, but \<^verbatim>\<open>flush\<close>
  serves everything in flight.\<close>

definition produce_sync :: "reports \<Rightarrow> string \<Rightarrow> string \<Rightarrow> string option \<Rightarrow> (producer, unit) call" where
  "produce_sync report topic value key p =
     (let d = \<lparr>d_topic = topic, d_value = value, d_key = key\<rparr>;
          p1 = flush_all report p;
          p2 = serve_one report d p1
      in if report (served p1) d = None then (Inr (), p2)
         else (Inl RuntimeError, p2\<lparr>errors := errors p1\<rparr>))"

lemma serve_one_frame [simp]: "in_flight (serve_one report d p) = in_flight p"
  by (simp add: serve_one_def split: option.split)

lemma serve_one_acked: "set (acked p) \<subseteq> set (acked (serve_one report d p))"
  by (auto simp: serve_one_def split: option.split)

lemma serve_one_outcome: "d \<in> set (acked (serve_one report d p)) \<or> errors (serve_one report d p) \<noteq> []"
  by (auto simp: serve_one_def split: option.split)

lemma serve_one_errors: "errors p \<noteq> [] \<Longrightarrow> errors (serve_one report d p) \<noteq> []"
  by (auto simp: serve_one_def split: option.split)

lemma serve_list:
  "in_flight (foldl (\<lambda>q d. serve_one report d q) p ds) = in_flight p
   \<and> set (acked p) \<subseteq> set (acked (foldl (\<lambda>q d. serve_one report d q) p ds))
   \<and> (errors p \<noteq> [] \<longrightarrow> errors (foldl (\<lambda>q d. serve_one report d q) p ds) \<noteq> [])
   \<and> (\<forall>d \<in> set ds. d \<in> set (acked (foldl (\<lambda>q d. serve_one report d q) p ds))
        \<or> errors (foldl (\<lambda>q d. serve_one report d q) p ds) \<noteq> [])"
proof (induction ds arbitrary: p)
  case (Cons d ds)
  from Cons.IH [of "serve_one report d p"] serve_one_acked [of p report d] serve_one_outcome [of d report p]
    serve_one_errors [of p report d]
  show ?case by auto
qed simp

text \<open>A delivery is on its way: in flight, acknowledged, or some error is waiting to be raised.\<close>

definition on_its_way :: "delivery \<Rightarrow> producer \<Rightarrow> bool" where
  "on_its_way d p \<longleftrightarrow> d \<in> set (in_flight p) \<union> set (acked p) \<or> errors p \<noteq> []"

lemma serve_keeps:
  shows "on_its_way d p \<Longrightarrow> on_its_way d (serve report k p)"
    and "d \<in> set (acked p) \<Longrightarrow> d \<in> set (acked (serve report k p))"
proof -
  have split: "set (in_flight p) = set (take k (in_flight p)) \<union> set (drop k (in_flight p))"
    by (metis append_take_drop_id set_append)
  note s = serve_list [of report "p\<lparr>in_flight := drop k (in_flight p)\<rparr>" "take k (in_flight p)"]
  show "on_its_way d p \<Longrightarrow> on_its_way d (serve report k p)"
    using s split by (auto simp: on_its_way_def serve_def)
  show "d \<in> set (acked p) \<Longrightarrow> d \<in> set (acked (serve report k p))"
    using s by (auto simp: serve_def)
qed

lemma produce_keeps:
  shows "on_its_way d p \<Longrightarrow> on_its_way d (produce report q t v k p)"
    and "d \<in> set (acked p) \<Longrightarrow> d \<in> set (acked (produce report q t v k p))"
    and "on_its_way \<lparr>d_topic = t, d_value = v, d_key = k\<rparr> (produce report q t v k p)"
  unfolding produce_def Let_def
  by (rule serve_keeps; auto simp: on_its_way_def)+

lemma flush_keeps_acked: "flush_checked report p = (r, p') \<Longrightarrow> d \<in> set (acked p) \<Longrightarrow> d \<in> set (acked p')"
  by (auto simp: flush_checked_def flush_all_def Let_def serve_keeps split: if_splits)

lemma flush_delivers: "flush_checked report p = (Inr (), p') \<Longrightarrow> on_its_way d p \<Longrightarrow> d \<in> set (acked p')"
proof -
  assume f: "flush_checked report p = (Inr (), p')" and d: "on_its_way d p"
  have "in_flight (flush_all report p) = []"
    using serve_list [of report "p\<lparr>in_flight := []\<rparr>" "in_flight p"] by (simp add: flush_all_def serve_def)
  moreover have "p' = flush_all report p" and "errors p' = []"
    using f by (auto simp: flush_checked_def Let_def split: if_splits)
  ultimately show ?thesis
    using serve_keeps(1) [OF d, of report "length (in_flight p)"] by (simp add: on_its_way_def flush_all_def)
qed

subsection \<open>Dead letters\<close>

definition DEADLETTER_TOPIC :: string where
  "DEADLETTER_TOPIC = ''deadletter.events''"

definition UNUSABLE_TOPIC :: string where
  "UNUSABLE_TOPIC = ''deadletter.unusable''"

definition build_deadletter :: "string \<Rightarrow> string \<Rightarrow> string \<Rightarrow> string \<Rightarrow> json" where
  "build_deadletter error payload source_topic now = JObj
     [(''error'', JStr error), (''source_topic'', JStr source_topic), (''payload'', JStr payload),
      (''dead_lettered_at'', JStr now)]"

text \<open>
  Where one record goes. \<^verbatim>\<open>record.get\<close> needs an object, and \<^verbatim>\<open>produce\<close> needs strings; \<open>None\<close> is the
  return value of a record that is quarantined.
\<close>

definition route :: "(string \<Rightarrow> json option) \<Rightarrow> string \<Rightarrow> (string option \<times> delivery) res" where
  "route loads raw =
     (case loads raw of
        None \<Rightarrow> Inr (None, \<lparr>d_topic = UNUSABLE_TOPIC, d_value = raw, d_key = None\<rparr>)
      | Some (JObj d) \<Rightarrow>
          (case (map_of d ''source_topic'', map_of d ''payload'') of
             (Some t, Some p) \<Rightarrow>
               if falsy t \<or> p = JNull then Inr (None, \<lparr>d_topic = UNUSABLE_TOPIC, d_value = raw, d_key = None\<rparr>)
               else (case (t, p) of
                       (JStr topic, JStr payload) \<Rightarrow> Inr (Some topic, \<lparr>d_topic = topic, d_value = payload, d_key = None\<rparr>)
                     | _ \<Rightarrow> Inl TypeError)
           | _ \<Rightarrow> Inr (None, \<lparr>d_topic = UNUSABLE_TOPIC, d_value = raw, d_key = None\<rparr>))
      | Some _ \<Rightarrow> Inl AttributeError)"

definition replay_record ::
  "(string \<Rightarrow> json option) \<Rightarrow> reports \<Rightarrow> (producer \<Rightarrow> nat) \<Rightarrow> string \<Rightarrow> (producer, string option) call" where
  "replay_record loads report q raw p =
     (case route loads raw of
        Inl e \<Rightarrow> (Inl e, p)
      | Inr (topic, d) \<Rightarrow> (Inr topic, produce report q (d_topic d) (d_value d) (d_key d) p))"

text \<open>The loop's state: the producer and \<^verbatim>\<open>replayed\<close>, the number of records per topic.\<close>

type_synonym replay_state = "producer \<times> (string \<times> nat) list"

definition count_topic :: "string \<Rightarrow> (string \<times> nat) list \<Rightarrow> (string \<times> nat) list" where
  "count_topic t c = upsert fst (t, 1) (\<lambda>kv. (fst kv, snd kv + 1)) c"

definition replay_handle ::
  "(string \<Rightarrow> json option) \<Rightarrow> reports \<Rightarrow> (producer \<Rightarrow> nat) \<Rightarrow> string \<Rightarrow> (replay_state, unit) call" where
  "replay_handle loads report q raw s =
     (case replay_record loads report q raw (fst s) of
        (Inl e, p) \<Rightarrow> (Inl e, (p, snd s))
      | (Inr topic, p) \<Rightarrow>
          (Inr (), (p, case topic of None \<Rightarrow> snd s | Some t \<Rightarrow> if t = [] then snd s else count_topic t (snd s))))"

definition flush_replay :: "reports \<Rightarrow> (replay_state, unit) call" where
  "flush_replay report s = (case flush_checked report (fst s) of (r, p) \<Rightarrow> (r, (p, snd s)))"

definition replay_config ::
  "(string \<Rightarrow> json option) \<Rightarrow> reports \<Rightarrow> (producer \<Rightarrow> nat) \<Rightarrow> nat option \<Rightarrow> time option
     \<Rightarrow> (message \<Rightarrow> unit res) \<Rightarrow> replay_state loop_config" where
  "replay_config loads report q limit idle broker =
     \<lparr>handler = replay_handle loads report q, max_messages = limit, auto_commit = False,
      idle_timeout = idle, commit_every = 1, pre_commit = Some (flush_replay report),
      idle_hook = None, after_handler = None, broker_commit = (\<lambda>m s. (broker m, s))\<rparr>"

definition replayed_as :: "(string \<Rightarrow> json option) \<Rightarrow> string \<Rightarrow> delivery option" where
  "replayed_as loads raw = (case route loads raw of Inl e \<Rightarrow> None | Inr (t, d) \<Rightarrow> Some d)"

definition replay_owed :: "(string \<Rightarrow> json option) \<Rightarrow> string \<Rightarrow> replay_state \<Rightarrow> bool" where
  "replay_owed loads raw s \<longleftrightarrow> (\<exists>d. replayed_as loads raw = Some d \<and> on_its_way d (fst s))"

definition replay_settled :: "(string \<Rightarrow> json option) \<Rightarrow> string \<Rightarrow> replay_state \<Rightarrow> bool" where
  "replay_settled loads raw s \<longleftrightarrow> (\<exists>d. replayed_as loads raw = Some d \<and> d \<in> set (acked (fst s)))"

lemma replay_handleE:
  assumes "replay_handle loads report q v s = (r, s')"
  obtains (raised) e where "r = Inl e" "fst s' = fst s"
  | (sent) t d where "r = Inr ()" "route loads v = Inr (t, d)" "fst s' = produce report q (d_topic d) (d_value d) (d_key d) (fst s)"
  using assms by (auto simp: replay_handle_def replay_record_def split: sum.splits prod.splits)

interpretation replay: output_first "replay_config loads report q limit idle broker" "\<lambda>s. True"
  "replay_owed loads" "replay_settled loads" "flush_replay report"
  for loads report q limit idle broker
proof unfold_locales
  fix v s s' r u
  show "handler (replay_config loads report q limit idle broker) v s = (Inr (), s') \<Longrightarrow>
      replay_owed loads v s'"
    by (auto simp: replay_config_def replay_owed_def replayed_as_def produce_keeps elim!: replay_handleE)
      (metis delivery.surjective old.unit.exhaust produce_keeps(3))
  show "handler (replay_config loads report q limit idle broker) v s = (r, s') \<Longrightarrow>
      replay_settled loads u s \<Longrightarrow> replay_settled loads u s'"
    by (auto simp: replay_config_def replay_settled_def produce_keeps elim!: replay_handleE)
  show "handler (replay_config loads report q limit idle broker) v s = (Inr (), s') \<Longrightarrow>
      replay_owed loads u s \<Longrightarrow> replay_owed loads u s'"
    by (auto simp: replay_config_def replay_owed_def produce_keeps elim!: replay_handleE)
  show "flush_replay report s = (Inr (), s') \<Longrightarrow> replay_owed loads u s \<Longrightarrow> replay_settled loads u s'"
    by (auto simp: flush_replay_def replay_owed_def replay_settled_def flush_delivers split: prod.splits)
  show "flush_replay report s = (r, s') \<Longrightarrow> replay_settled loads u s \<Longrightarrow> replay_settled loads u s'"
    by (auto simp: flush_replay_def replay_settled_def flush_keeps_acked split: prod.splits)
  show "replay_settled loads u s \<Longrightarrow> replay_owed loads u s"
    by (auto simp: replay_owed_def replay_settled_def on_its_way_def)
qed (auto simp: replay_config_def)

text \<open>C32. Replay loses nothing: every dead letter whose offset it commits has been acknowledged by the broker as
  the record \<open>route\<close> makes of it, however the loop ends and whichever deliveries fail.\<close>

theorem replay_loses_nothing:
  assumes "m \<in> set (committed (snd (consume_loop
      (replay_config loads report q limit idle broker) is (new_producer, []) now)))"
    and "m_value m = Inr raw"
  shows "\<exists>t d. route loads raw = Inr (t, d) \<and> d \<in> set (acked (fst (inner (snd (consume_loop
      (replay_config loads report q limit idle broker) is (new_producer, []) now)))))"
  using replay.committed_is_settled [OF assms TrueI]
  by (auto simp: replay_settled_def replayed_as_def split: sum.splits prod.splits)

text \<open>Dead-lettering keeps the payload byte for byte: the envelope replays to its source topic with the
  payload it was built from, provided the parser reads back what \<^verbatim>\<open>json.dumps\<close> wrote and the topic is
  not empty; an envelope without a topic is quarantined whole.\<close>

lemma deadletter_roundtrip:
  assumes "loads raw = Some (build_deadletter error payload source_topic now)"
  shows "route loads raw =
     Inr (if source_topic = [] then (None, \<lparr>d_topic = UNUSABLE_TOPIC, d_value = raw, d_key = None\<rparr>)
          else (Some source_topic, \<lparr>d_topic = source_topic, d_value = payload, d_key = None\<rparr>))"
  using assms by (simp add: route_def build_deadletter_def)

theorem replay_loses_nothing_witness:
  "\<lparr>d_topic = UNUSABLE_TOPIC, d_value = ''junk'', d_key = None\<rparr> \<in> set (acked (fst (inner (snd (consume_loop
      (replay_config (\<lambda>s. None) (\<lambda>n d. None) (\<lambda>p. 0) (Some 1) None (\<lambda>m. Inr ()))
      [\<lparr>stopped = False, clock_reading = 0, polled = Record \<lparr>m_topic = DEADLETTER_TOPIC, m_partition = 0,
         m_offset = 0, m_value = Inr ''junk''\<rparr>\<rparr>] (new_producer, []) 0)))))"
proof -
  let ?m = "\<lparr>m_topic = DEADLETTER_TOPIC, m_partition = 0, m_offset = 0, m_value = Inr ''junk''\<rparr> :: message"
  let ?run = "consume_loop (replay_config (\<lambda>s. None) (\<lambda>n d. None) (\<lambda>p. 0) (Some 1) None (\<lambda>m. Inr ()))
      [\<lparr>stopped = False, clock_reading = 0, polled = Record ?m\<rparr>] (new_producer, []) 0"
  have "?m \<in> set (committed (snd ?run))"
    by (simp add: consume_loop_def start_loop_def full_def replay_config_def handle_record_def run_inner_def run_hook_def
        note_handled_def Let_def finish_def commit_unless_auto_def commit_pending_def flush_replay_def replay_handle_def
        replay_record_def route_def produce_def serve_def new_producer_def flush_checked_def flush_all_def serve_one_def)
  from replay_loses_nothing [OF this, of "''junk''"] show ?thesis by (simp add: route_def)
qed

end
