(* ===== verification/Embedding.thy ===== *)
theory Embedding
  imports Retrieval
begin

section \<open>Embedding backends (\<^verbatim>\<open>freshet/pipeline/embedding.py\<close>)\<close>

text \<open>
  The choice of a backend, its floors and their overrides, the query instruction, and the stub
  backend. The sentence transformer is a parameter: loading it gives its \<^verbatim>\<open>encode\<close> or raises. The
  stub's numbers come from a generator seeded by a digest of the text, which is a parameter too
  (\<open>stub_numbers\<close>); what the code does with them, normalising them, is modelled. \<open>float_of\<close> is
  \<^verbatim>\<open>float(str)\<close>, \<open>int_of\<close> is \<^verbatim>\<open>int(str)\<close>, and \<open>fmt\<close> writes a number with nine significant digits.
\<close>

definition EMBEDDING_DIM :: nat where
  "EMBEDDING_DIM = 768"

definition MIN_SIMILARITY_MINILM :: real where
  "MIN_SIMILARITY_MINILM = 3 / 10"

definition MIN_SIMILARITY_BGE :: real where
  "MIN_SIMILARITY_BGE = 7 / 10"

definition MIN_SIMILARITY_BGE_CENTERED :: real where
  "MIN_SIMILARITY_BGE_CENTERED = 44 / 100"

record 'e embedding_env =
  stub_numbers :: "string \<Rightarrow> nat \<Rightarrow> real"
  import_transformers :: "unit res"
  load_transformer :: "string \<Rightarrow> ('e, string list, real list list) service res"
  int_of :: "string \<Rightarrow> int option"
  torch_threads :: "string option"
  has_torch :: bool
  float_of :: "string \<Rightarrow> real option"
  floor_override :: "string option"
  centered_override :: "string option"

text \<open>\<^verbatim>\<open>StubEmbedder._vec\<close>: a zero vector is divided by one.\<close>

definition stub_vec :: "(nat \<Rightarrow> real) \<Rightarrow> real list" where
  "stub_vec numbers =
     (let v = map numbers [0..<EMBEDDING_DIM];
          root = sqrt (\<Sum>x \<leftarrow> v. x * x);
          norm = (if root = 0 then 1 else root)
      in map (\<lambda>x. x / norm) v)"

definition stub_encode :: "(string \<Rightarrow> nat \<Rightarrow> real) \<Rightarrow> ('e, string list, real list list) service" where
  "stub_encode numbers texts e = (Inr (map (\<lambda>t. stub_vec (numbers t)) texts), 0, e)"

definition stub_embedder :: "(string \<Rightarrow> nat \<Rightarrow> real) \<Rightarrow> 'e embedder" where
  "stub_embedder numbers =
     \<lparr>emb_name = Some ''stub'', emb_floor = Some MIN_SIMILARITY_MINILM, emb_floor_centered = None,
      encode_texts = stub_encode numbers, encode_query = stub_encode numbers\<rparr>"

definition apply_query_instruction :: "string \<Rightarrow> string list \<Rightarrow> string list" where
  "apply_query_instruction instruction texts =
     (if instruction = [] then texts else map (\<lambda>t. instruction @ '' '' @ t) texts)"

definition transformer_embedder ::
  "string \<Rightarrow> string \<Rightarrow> real \<Rightarrow> real option \<Rightarrow> ('e, string list, real list list) service \<Rightarrow> 'e embedder" where
  "transformer_embedder name instruction flr centered enc =
     \<lparr>emb_name = Some name, emb_floor = Some flr, emb_floor_centered = centered, encode_texts = enc,
      encode_query = (\<lambda>texts. enc (apply_query_instruction instruction texts))\<rparr>"

definition BGE_NAME :: string where
  "BGE_NAME = ''BAAI/bge-base-en-v1.5''"

definition BGE_INSTRUCTION :: string where
  "BGE_INSTRUCTION = ''Represent this sentence for searching relevant passages:''"

text \<open>\<^verbatim>\<open>_cap_torch_threads\<close>: the number of threads set, if any.\<close>

definition cap_torch_threads :: "'e embedding_env \<Rightarrow> int option res" where
  "cap_torch_threads ee =
     (case int_of ee (case torch_threads ee of None \<Rightarrow> ''2'' | Some s \<Rightarrow> s) of
        None \<Rightarrow> Inl ValueError
      | Some n \<Rightarrow> Inr (if n \<le> 0 \<or> \<not> has_torch ee then None else Some n))"

definition base_embedder :: "'e embedding_env \<Rightarrow> string \<Rightarrow> 'e embedder res" where
  "base_embedder ee kind =
     (if kind = ''stub'' then Inr (stub_embedder (stub_numbers ee))
      else if kind = ''minilm'' then Inl ValueError
      else if kind = ''bge'' then
        and_then (import_transformers ee) (\<lambda>u.
        and_then (cap_torch_threads ee) (\<lambda>threads.
        and_then (load_transformer ee BGE_NAME) (\<lambda>enc. Inr (transformer_embedder BGE_NAME BGE_INSTRUCTION
          MIN_SIMILARITY_BGE (Some MIN_SIMILARITY_BGE_CENTERED) enc))))
      else Inl ValueError)"

definition override_with :: "(string \<Rightarrow> real option) \<Rightarrow> string option \<Rightarrow> (real \<Rightarrow> 'm \<Rightarrow> 'm) \<Rightarrow> 'm \<Rightarrow> 'm res" where
  "override_with parse var set_it m =
     (if \<not> truthy var then Inr m
      else case parse (the var) of None \<Rightarrow> Inl ValueError | Some x \<Rightarrow> Inr (set_it x m))"

definition make_embedder :: "'e embedding_env \<Rightarrow> string \<Rightarrow> 'e embedder res" where
  "make_embedder ee kind =
     and_then (base_embedder ee kind) (\<lambda>m.
     and_then (override_with (float_of ee) (floor_override ee) (\<lambda>x m. m\<lparr>emb_floor := Some x\<rparr>) m) (\<lambda>m.
     override_with (float_of ee) (centered_override ee) (\<lambda>x m. m\<lparr>emb_floor_centered := Some x\<rparr>) m))"

subsection \<open>What the backends promise\<close>

lemma sum_list_scaled: "(\<Sum>x \<leftarrow> xs. (x / c) * (x / c)) = (\<Sum>x \<leftarrow> xs. x * x) / (c * c)" for c :: real
  by (induction xs) (simp_all add: add_divide_distrib)

lemma sum_squares_zero: "(\<Sum>x \<leftarrow> xs. x * x) = 0 \<longleftrightarrow> (\<forall>x \<in> set xs. x = 0)" for xs :: "real list"
proof (induction xs)
  case (Cons a xs)
  have "0 \<le> (\<Sum>x \<leftarrow> xs. x * x)" by (induction xs) simp_all
  then have "a * a + (\<Sum>x \<leftarrow> xs. x * x) = 0 \<longleftrightarrow> a * a = 0 \<and> (\<Sum>x \<leftarrow> xs. x * x) = 0"
    by (intro add_nonneg_eq_0_iff) simp_all
  with Cons show ?case by simp
qed simp

lemma sum_squares_nonneg: "0 \<le> (\<Sum>x \<leftarrow> xs. x * x)" for xs :: "real list"
  by (induction xs) simp_all

text \<open>A stub vector has the dimension of the column and length one, unless all its numbers are zero.\<close>

lemma stub_vec_is_unit:
  "length (stub_vec numbers) = EMBEDDING_DIM"
  "(\<Sum>x \<leftarrow> stub_vec numbers. x * x) = (if \<forall>i < EMBEDDING_DIM. numbers i = 0 then 0 else 1)"
proof -
  let ?v = "map numbers [0..<EMBEDDING_DIM]"
  let ?s = "\<Sum>x \<leftarrow> ?v. x * x"
  show "length (stub_vec numbers) = EMBEDDING_DIM" by (simp add: stub_vec_def Let_def)
  have zero: "?s = 0 \<longleftrightarrow> (\<forall>i < EMBEDDING_DIM. numbers i = 0)"
    unfolding sum_squares_zero by auto
  have scaled: "(\<Sum>x \<leftarrow> map (\<lambda>x. x / c) ?v. x * x) = ?s / (c * c)" for c
    using sum_list_scaled [of c ?v] by (simp add: comp_def)
  have nonneg: "0 \<le> ?s" by (rule sum_squares_nonneg)
  show "(\<Sum>x \<leftarrow> stub_vec numbers. x * x) = (if \<forall>i < EMBEDDING_DIM. numbers i = 0 then 0 else 1)"
  proof (cases "?s = 0")
    case True
    with zero scaled [of 1] show ?thesis by (simp add: stub_vec_def Let_def)
  next
    case False
    with zero scaled [of "sqrt ?s"] nonneg show ?thesis
      by (simp add: stub_vec_def Let_def del: map_map)
  qed
qed

text \<open>Only queries carry the instruction, and the instruction does not change which query is asked.\<close>

lemma query_instruction_inj:
  "apply_query_instruction ins texts = apply_query_instruction ins texts' \<longleftrightarrow> texts = texts'"
  by (auto simp: apply_query_instruction_def inj_on_def dest!: map_injective [rotated])

text \<open>What a built embedder can be: a name that check_index_model can compare, and a raw floor.\<close>

lemma make_embedder_cases:
  assumes "make_embedder ee kind = Inr m"
  shows "emb_name m = Some (if kind = ''stub'' then ''stub'' else BGE_NAME) \<and> emb_floor m \<noteq> None
    \<and> (kind = ''stub'' \<or> kind = ''bge'' \<and> emb_floor_centered m \<noteq> None)"
  using assms
  by (auto simp: make_embedder_def base_embedder_def override_with_def and_then_Inr_iff stub_embedder_def
      transformer_embedder_def split: if_splits option.splits)

subsection \<open>Vectors as text\<close>

definition vec_literal :: "(real \<Rightarrow> string) \<Rightarrow> real list \<Rightarrow> string" where
  "vec_literal fmt v = ''['' @ join '','' (map fmt v) @ '']''"

text \<open>The text a vector is sent as determines its numbers, as long as the numbers' texts determine them: the database reads
  the same parts between the commas.\<close>

fun comma_parts :: "string \<Rightarrow> string \<Rightarrow> string list" where
  "comma_parts cur [] = [cur]"
| "comma_parts cur (c # cs) = (if c = CHR '','' then cur # comma_parts [] cs else comma_parts (cur @ [c]) cs)"

lemma comma_parts_append:
  "CHR '','' \<notin> set p \<Longrightarrow> comma_parts cur (p @ cs) = comma_parts (cur @ p) cs"
  by (induction p arbitrary: cur) auto

lemma comma_parts_join: "ps \<noteq> [] \<Longrightarrow> \<forall>p \<in> set ps. CHR '','' \<notin> set p \<Longrightarrow> comma_parts [] (join '','' ps) = ps"
proof (induction ps rule: induct_list012)
  case (2 p)
  then show ?case using comma_parts_append [of p "[]" "[]"] by simp
next
  case (3 p q ps)
  then show ?case using comma_parts_append [of p "[]" "'','' @ join '','' (q # ps)"] by simp
qed simp

lemma vec_literal_is_read_back:
  assumes "v \<noteq> []" and "\<forall>x \<in> set v. CHR '','' \<notin> set (fmt x) \<and> parse (fmt x) = x"
  shows "map parse (comma_parts [] (butlast (tl (vec_literal fmt v)))) = v"
proof -
  have "comma_parts [] (butlast (tl (vec_literal fmt v))) = map fmt v"
    using assms by (simp add: vec_literal_def butlast_append comma_parts_join)
  with assms(2) show ?thesis by (simp add: map_idI)
qed

end
