(* ===== verification/Embedder.thy ===== *)
theory Embedder
  imports Schemas Civil Chunking Heartbeat Replay Embedding
begin

section \<open>The embedding worker (\<^verbatim>\<open>freshet/pipeline/embedder.py\<close>)\<close>

text \<open>
  One message of \<^verbatim>\<open>normalized.updates\<close> becomes the rows of its chunks, its incident, and the
  receipt of its indexing; a message that cannot be parsed or embedded becomes a dead letter. The
  state is the world, the producer, the streak of dead letters and the heartbeat; the model, the
  parser, the printer and the texts of errors are parameters. Statements succeed.
\<close>

definition NORMALIZED_TOPIC :: string where
  "NORMALIZED_TOPIC = ''normalized.updates''"

definition MAX_TITLE_LEN :: nat where
  "MAX_TITLE_LEN = 120"

definition title_of :: "string \<Rightarrow> string option" where
  "title_of body =
     (case partition_at '': '' body of
        None \<Rightarrow> None
      | Some (head, body1) \<Rightarrow>
          if strip body1 = [] then None
          else let h = strip head in if 0 < length h \<and> length h \<le> MAX_TITLE_LEN then Some h else None)"

text \<open>\<^verbatim>\<open>ev.title or title_of(ev.text)\<close>, and the row id of a chunk.\<close>

definition event_title :: "event \<Rightarrow> string option" where
  "event_title ev = (case ev_title ev of Some t \<Rightarrow> if t = [] then title_of (ev_text ev) else Some t
     | None \<Rightarrow> title_of (ev_text ev))"

definition chunk_key :: "string \<Rightarrow> nat \<Rightarrow> string" where
  "chunk_key e i = ''chk_'' @ e @ ''_'' @ digits_of i"

definition record_for :: "event \<Rightarrow> time \<Rightarrow> nat \<Rightarrow> string \<Rightarrow> vector_record" where
  "record_for ev stamp i chunk =
     \<lparr>rec_chunk = chunk_key (ev_id ev) i, rec_index = i, rec_event = ev_id ev, rec_incident = ev_incident ev,
      rec_service = ev_service ev, rec_ts = ev_ts ev, rec_indexed_at = stamp, rec_text = chunk,
      rec_title = event_title ev, rec_source = ev_source ev, rec_severity = ev_severity ev, rec_type = ev_type ev\<rparr>"

definition records_for_event :: "event \<Rightarrow> time \<Rightarrow> vector_record list" where
  "records_for_event ev stamp =
     map (\<lambda>(i, chunk). record_for ev stamp i chunk) (List.enumerate 0 (chunk_text (ev_text ev) None))"

subsection \<open>Statements\<close>

definition register_indexing :: "string \<Rightarrow> database \<Rightarrow> database" where
  "register_indexing e d = d\<lparr>event_indexing :=
     upsert r_event \<lparr>r_event = e, first_index_observed = (\<not> list_ex (\<lambda>r. v_event r = e) (vector_records d)),
       first_queryable_at = None, last_queryable_at = None\<rparr> (\<lambda>r. r) (event_indexing d)\<rparr>"

definition complete_row :: "time \<Rightarrow> receipt \<Rightarrow> receipt" where
  "complete_row stamp r =
     r\<lparr>first_queryable_at := (if first_index_observed r then coalesce (first_queryable_at r) (Some stamp) else None),
       last_queryable_at := Some stamp\<rparr>"

definition complete_indexing :: "string \<Rightarrow> time \<Rightarrow> database \<Rightarrow> database" where
  "complete_indexing e stamp d =
     d\<lparr>event_indexing := update_rows (\<lambda>r. r_event r = e) (complete_row stamp) (event_indexing d)\<rparr>"

definition row_of_record :: "vector_record \<Rightarrow> real list \<Rightarrow> string option \<Rightarrow> vector_row" where
  "row_of_record rec emb model =
     \<lparr>chunk_id = rec_chunk rec, chunk_index = rec_index rec, v_event = rec_event rec, v_incident = rec_incident rec,
      v_service = rec_service rec, v_ts = rec_ts rec, v_indexed_at = rec_indexed_at rec,
      v_source = source_value (rec_source rec), v_text = rec_text rec, v_title = rec_title rec,
      v_severity = map_option severity_value (rec_severity rec), v_type = rec_type rec, v_embedding = emb,
      v_model = model\<rparr>"

definition overwrite_row :: "vector_row \<Rightarrow> vector_row \<Rightarrow> vector_row" where
  "overwrite_row new r =
     r\<lparr>v_indexed_at := v_indexed_at new, chunk_index := chunk_index new, v_text := v_text new,
       v_severity := v_severity new, v_type := v_type new, v_embedding := v_embedding new,
       v_model := v_model new, v_title := v_title new\<rparr>"

definition upsert_record :: "vector_record \<Rightarrow> real list \<Rightarrow> string option \<Rightarrow> database \<Rightarrow> database" where
  "upsert_record rec emb model d =
     (let new = row_of_record rec emb model
      in d\<lparr>vector_records := upsert chunk_id new (overwrite_row new) (vector_records d)\<rparr>)"

definition delete_orphans :: "string \<Rightarrow> nat \<Rightarrow> database \<Rightarrow> database" where
  "delete_orphans e n d =
     d\<lparr>vector_records := filter (\<lambda>r. \<not> (v_event r = e \<and> n \<le> chunk_index r)) (vector_records d)\<rparr>"

definition link_event :: "string \<Rightarrow> string \<Rightarrow> database \<Rightarrow> database" where
  "link_event i e d = d\<lparr>incident_events := insert_once (i, e) (incident_events d)\<rparr>"

text \<open>The metrics of one indexed chunk.\<close>

definition observe_indexed :: "vector_record \<Rightarrow> time option \<Rightarrow> 'e world \<Rightarrow> 'e world" where
  "observe_indexed rec ingested w =
     (let w1 = observe ''freshness'' (total_seconds (rec_indexed_at rec - rec_ts rec)) (inc_counter ''indexed_events'' w)
      in case ingested of None \<Rightarrow> w1
         | Some t \<Rightarrow> observe ''pipeline_latency'' (total_seconds (rec_indexed_at rec - t)) w1)"

subsection \<open>The handler\<close>

definition EMBED_ATTEMPTS :: nat where
  "EMBED_ATTEMPTS = 3"

definition KNOWN_WIRE_VERSIONS :: "int list" where
  "KNOWN_WIRE_VERSIONS = [1]"

definition MAX_CONSECUTIVE_DEADLETTERS :: nat where
  "MAX_CONSECUTIVE_DEADLETTERS = 10"

definition DEFAULT_COMMIT_EVERY :: int where
  "DEFAULT_COMMIT_EVERY = 50"

text \<open>
  \<open>parse cfg k t value\<close> is \<^verbatim>\<open>Event.model_validate_json(value)\<close> as the \<open>k\<close>th parse of the process, at time \<open>t\<close>: a
  message without its own \<^verbatim>\<open>event_id\<close> or \<^verbatim>\<open>ts\<close> gets a fresh id and the current time at every parse.
\<close>

record 'e embed_config =
  parse :: "nat \<Rightarrow> time \<Rightarrow> string \<Rightarrow> event res"
  encode :: "('e, string list, real list list) service"
  model_name :: "string option"
  reports_of :: reports
  dumps :: "json \<Rightarrow> string"
  describe :: "exn \<Rightarrow> string"
  source_topic :: string
  dlq_topic :: string
  attempts :: nat

record 'e embed_state =
  es_world :: "'e world"
  es_producer :: producer
  es_streak :: nat
  es_heartbeat :: heartbeat
  es_parses :: nat

definition parse_now :: "'e embed_config \<Rightarrow> string \<Rightarrow> 'e embed_state \<Rightarrow> event res" where
  "parse_now cfg value s = parse cfg (es_parses s) (clock (es_world s)) value"

definition dead_letter :: "'e embed_config \<Rightarrow> string \<Rightarrow> string \<Rightarrow> bool \<Rightarrow> ('e embed_state, unit) call" where
  "dead_letter cfg error value systemic s =
     (case produce_sync (reports_of cfg) (dlq_topic cfg)
             (dumps cfg (build_deadletter error value (source_topic cfg) (isoformat (clock (es_world s))))) None
             (es_producer s) of
        (Inl e, p) \<Rightarrow> (Inl e, s\<lparr>es_producer := p\<rparr>)
      | (Inr u, p) \<Rightarrow>
          let s1 = s\<lparr>es_producer := p, es_world := inc_counter ''deadletter_events'' (es_world s),
                     es_streak := (if systemic then es_streak s + 1 else 0)\<rparr>
          in if MAX_CONSECUTIVE_DEADLETTERS \<le> es_streak s1 then (Inl EmbedderUnhealthy, s1) else (Inr (), s1))"

text \<open>The attempts to embed, \<open>n\<close> of them left after \<open>k\<close>; the back-off is 0.2 s times the attempt.\<close>

fun encode_attempts ::
  "('e, string list, real list list) service \<Rightarrow> string list \<Rightarrow> nat \<Rightarrow> nat \<Rightarrow> 'e world
     \<Rightarrow> (exn + real list list) \<times> 'e world" where
  "encode_attempts enc texts k 0 w = (Inl (OtherError ''UnboundLocalError''), w)"
| "encode_attempts enc texts k (Suc n) w =
     (case call_service enc texts w of
        (Inr vs, w1) \<Rightarrow> (Inr vs, w1)
      | (Inl e, w1) \<Rightarrow>
          if n = 0 then (Inl e, w1)
          else encode_attempts enc texts (Suc k) n (sleep (200000 * int (Suc k)) w1))"

definition write_chunks :: "(vector_record \<times> real list) list \<Rightarrow> string option \<Rightarrow> time \<Rightarrow> database \<Rightarrow> database" where
  "write_chunks rvs model now d =
     foldl (\<lambda>d (rec, vec). upsert_record (rec\<lparr>rec_indexed_at := now\<rparr>) vec model d) d rvs"

definition index_event ::
  "event \<Rightarrow> (vector_record \<times> real list) list \<Rightarrow> string option \<Rightarrow> time \<Rightarrow> database \<Rightarrow> database" where
  "index_event ev rvs model now d =
     (let d1 = write_chunks rvs model now (register_indexing (ev_id ev) d);
          d2 = delete_orphans (ev_id ev) (length rvs) d1;
          d3 = ensure_incident (ev_incident ev) (ev_service ev) (ev_ts ev)
                 (case ev_title ev of None \<Rightarrow> [] | Some t \<Rightarrow> t) d2;
          d4 = (case ev_incident ev of None \<Rightarrow> d3 | Some i \<Rightarrow> if i = [] then d3 else link_event i (ev_id ev) d3)
      in complete_indexing (ev_id ev) now d4)"

definition observe_all :: "vector_record list \<Rightarrow> time \<Rightarrow> time option \<Rightarrow> 'e world \<Rightarrow> 'e world" where
  "observe_all recs completed ingested w =
     foldl (\<lambda>w rec. observe_indexed (rec\<lparr>rec_indexed_at := completed\<rparr>) ingested w) w recs"

text \<open>After the vectors are there: check them, write, stamp the receipt, count, beat.\<close>

definition index_vectors ::
  "'e embed_config \<Rightarrow> event \<Rightarrow> vector_record list \<Rightarrow> real list list \<Rightarrow> ('e embed_state, unit) call" where
  "index_vectors cfg ev recs vectors s =
     (if length vectors \<noteq> length recs then (Inl RuntimeError, s)
      else if list_ex (\<lambda>v. length v \<noteq> EMBEDDING_DIM) vectors then (Inl RuntimeError, s)
      else let w = es_world s;
               w1 = w\<lparr>db := index_event ev (zip recs vectors) (model_name cfg) (clock w) (db w)\<rparr>;
               w2 = inc_counter ''embedder_messages'' (observe_all recs (clock w) (ev_ingested_at ev) w1)
           in (case beat (es_heartbeat s) w2 of
                 (b, h, w3) \<Rightarrow> (Inr (), s\<lparr>es_world := w3, es_streak := 0, es_heartbeat := h\<rparr>)))"

definition note_version :: "event \<Rightarrow> 'e world \<Rightarrow> 'e world" where
  "note_version ev w = (if ev_v ev \<in> set KNOWN_WIRE_VERSIONS then w else inc_counter ''unknown_wire_version'' w)"

definition gave_up :: "'e embed_config \<Rightarrow> exn \<Rightarrow> string" where
  "gave_up cfg e = ''embed failed after '' @ digits_of (attempts cfg) @ '' attempts: '' @ describe cfg e"

definition handle :: "'e embed_config \<Rightarrow> string \<Rightarrow> ('e embed_state, unit) call" where
  "handle cfg value s =
     (case parse_now cfg value s of
        Inl e \<Rightarrow> dead_letter cfg (describe cfg e) value False (s\<lparr>es_parses := Suc (es_parses s)\<rparr>)
      | Inr ev \<Rightarrow>
          let w0 = note_version ev (es_world s);
              s0 = s\<lparr>es_parses := Suc (es_parses s), es_world := w0\<rparr>;
              recs = records_for_event ev (clock w0)
          in if recs = []
             then (Inr (), s0\<lparr>es_world := w0\<lparr>db := ensure_incident (ev_incident ev) (ev_service ev) (ev_ts ev)
                     (case ev_title ev of None \<Rightarrow> [] | Some t \<Rightarrow> t) (db w0)\<rparr>\<rparr>)
             else if attempts cfg = 0 then (Inl (OtherError ''UnboundLocalError''), s0)
             else (case encode_attempts (encode cfg) (map rec_text recs) 0 (attempts cfg) w0 of
                     (Inl e, w1) \<Rightarrow> dead_letter cfg (gave_up cfg e) value True (s0\<lparr>es_world := w1\<rparr>)
                   | (Inr vs, w1) \<Rightarrow> index_vectors cfg ev recs vs (s0\<lparr>es_world := w1\<rparr>)))"

text \<open>\<^verbatim>\<open>_beat\<close> on the idle tick, and the loop \<^verbatim>\<open>run\<close> starts.\<close>

definition beat_hook :: "('e embed_state, unit) call" where
  "beat_hook s = (case beat (es_heartbeat s) (es_world s) of
     (b, h, w) \<Rightarrow> (Inr (), s\<lparr>es_world := w, es_heartbeat := h\<rparr>))"

definition flush_embedder :: "'e embed_config \<Rightarrow> ('e embed_state, unit) call" where
  "flush_embedder cfg s = (Inr (), s\<lparr>es_producer := flush_all (reports_of cfg) (es_producer s)\<rparr>)"

definition embedder_loop ::
  "'e embed_config \<Rightarrow> nat option \<Rightarrow> time option \<Rightarrow> int \<Rightarrow> (message \<Rightarrow> unit res) \<Rightarrow> 'e embed_state loop_config" where
  "embedder_loop cfg limit idle every broker =
     \<lparr>handler = handle cfg, max_messages = limit, auto_commit = False, idle_timeout = idle,
      commit_every = every, pre_commit = Some (flush_embedder cfg), idle_hook = Some beat_hook,
      after_handler = None, broker_commit = (\<lambda>m s. (broker m, s))\<rparr>"

definition start_embedder :: "'e world \<Rightarrow> 'e embed_state" where
  "start_embedder w = \<lparr>es_world = w, es_producer = new_producer, es_streak = 0, es_heartbeat = new_heartbeat ''embedder'',
     es_parses = 0\<rparr>"

subsection \<open>Row keys\<close>

lemma digits_no_underscore: "CHR ''_'' \<notin> set (digits_of n)"
  using digits_are_digits [of n] by (auto simp: list_all_iff is_digit_def in_range_def code_def)


lemma chunk_key_inj: "chunk_key e i = chunk_key e' i' \<longleftrightarrow> e = e' \<and> i = i'"
  using split_last_unique [of e "CHR ''_''" "digits_of i" e' "digits_of i'"] digits_no_underscore digits_of_inj
  by (auto simp: chunk_key_def)

text \<open>Every row carries the key its event and index give it.\<close>

definition index_inv :: "database \<Rightarrow> bool" where
  "index_inv d \<longleftrightarrow> keyed chunk_id (vector_records d) \<and> keyed r_event (event_indexing d)
     \<and> (\<forall>r \<in> set (vector_records d). chunk_id r = chunk_key (v_event r) (chunk_index r))
     \<and> (\<forall>r \<in> set (event_indexing d). first_queryable_at r \<noteq> None \<longrightarrow> first_index_observed r)"

definition record_ok :: "vector_record \<Rightarrow> bool" where
  "record_ok rec \<longleftrightarrow> rec_chunk rec = chunk_key (rec_event rec) (rec_index rec)"

lemma record_for_ok [simp]: "record_ok (record_for ev t i c)"
  by (simp add: record_ok_def record_for_def)

lemma index_inv_empty: "index_inv empty_database"
  by (simp add: index_inv_def empty_database_def keyed_def)

lemma overwrite_id [simp]: "chunk_id (overwrite_row new r) = chunk_id r" "v_event (overwrite_row new r) = v_event r"
  by (simp_all add: overwrite_row_def)

lemma in_upsert:
  "x \<in> set (upsert key new f t) \<Longrightarrow> x = new \<or> x \<in> set t \<or> (\<exists>r \<in> set t. key r = key new \<and> x = f r)"
  by (induction t) (auto split: if_splits)

lemma upsert_record_inv:
  assumes "record_ok rec" and "index_inv d"
  shows "index_inv (upsert_record rec emb model d)"
proof -
  let ?new = "row_of_record rec emb model"
  have "chunk_id r = chunk_key (v_event r) (chunk_index r)"
    if "r \<in> set (upsert chunk_id ?new (overwrite_row ?new) (vector_records d))" for r
    using in_upsert [OF that] assms
    by (auto simp: index_inv_def record_ok_def row_of_record_def overwrite_row_def chunk_key_inj)
  then show ?thesis
    using assms(2) by (simp add: index_inv_def upsert_record_def keyed_upsert Let_def)
qed

lemma write_chunks_inv:
  "list_all (\<lambda>rv. record_ok (fst rv)) rvs \<Longrightarrow> index_inv d \<Longrightarrow> index_inv (write_chunks rvs model now d)"
proof (induction rvs arbitrary: d)
  case (Cons rv rvs)
  have "index_inv (upsert_record ((fst rv)\<lparr>rec_indexed_at := now\<rparr>) (snd rv) model d)"
    by (rule upsert_record_inv) (use Cons.prems in \<open>simp_all add: record_ok_def\<close>)
  with Cons show ?case by (simp add: write_chunks_def case_prod_beta)
qed (simp add: write_chunks_def)

subsection \<open>What indexing an event writes\<close>

definition merged :: "vector_row \<Rightarrow> vector_row option \<Rightarrow> vector_row" where
  "merged new old = (case old of None \<Rightarrow> new | Some r \<Rightarrow> overwrite_row new r)"

definition written :: "string option \<Rightarrow> time \<Rightarrow> vector_record \<times> real list \<Rightarrow> vector_row" where
  "written model now rv = row_of_record ((fst rv)\<lparr>rec_indexed_at := now\<rparr>) (snd rv) model"

lemma chunk_id_written [simp]: "chunk_id (written model now rv) = rec_chunk (fst rv)"
  by (simp add: written_def row_of_record_def)

lemma upsert_record_rows:
  "vector_records (upsert_record ((fst rv)\<lparr>rec_indexed_at := now\<rparr>) (snd rv) model d) =
     upsert chunk_id (written model now rv) (overwrite_row (written model now rv)) (vector_records d)"
  by (simp add: upsert_record_def written_def Let_def)

lemma write_chunks_Nil [simp]: "write_chunks [] model now d = d"
  by (simp add: write_chunks_def)

lemma write_chunks_Cons:
  "write_chunks (rv # rvs) model now d =
     write_chunks rvs model now (upsert_record ((fst rv)\<lparr>rec_indexed_at := now\<rparr>) (snd rv) model d)"
  by (simp add: write_chunks_def case_prod_beta)

lemma write_chunks_row:
  "distinct (map (rec_chunk \<circ> fst) rvs) \<Longrightarrow>
     row_of chunk_id k (vector_records (write_chunks rvs model now d)) =
       (case find (\<lambda>rv. rec_chunk (fst rv) = k) rvs of
          None \<Rightarrow> row_of chunk_id k (vector_records d)
        | Some rv \<Rightarrow> Some (merged (written model now rv) (row_of chunk_id k (vector_records d))))"
proof (induction rvs arbitrary: d)
  case (Cons rv rvs)
  have "find (\<lambda>rv'. rec_chunk (fst rv') = rec_chunk (fst rv)) rvs = None"
    unfolding find_None_iff using Cons.prems by (simp add: image_iff) (metis comp_apply fst_conv)
  with Cons show ?case
    by (auto simp: write_chunks_Cons upsert_record_rows row_of_upsert merged_def split: option.splits)
qed simp

lemma upsert_other:
  "P new = False \<Longrightarrow> (\<forall>r \<in> set t. key r = key new \<longrightarrow> \<not> P r \<and> \<not> P (f r)) \<Longrightarrow>
     filter P (upsert key new f t) = filter P t"
  by (induction t) auto

lemma write_chunks_others:
  assumes "list_all (\<lambda>rv. record_ok (fst rv) \<and> rec_event (fst rv) = e) rvs" and "index_inv d"
  shows "filter (\<lambda>r. v_event r \<noteq> e) (vector_records (write_chunks rvs model now d)) =
    filter (\<lambda>r. v_event r \<noteq> e) (vector_records d)"
  using assms
proof (induction rvs arbitrary: d)
  case (Cons rv rvs)
  let ?d1 = "upsert_record ((fst rv)\<lparr>rec_indexed_at := now\<rparr>) (snd rv) model d"
  have "index_inv ?d1" by (rule upsert_record_inv) (use Cons.prems in \<open>simp_all add: record_ok_def\<close>)
  moreover have "filter (\<lambda>r. v_event r \<noteq> e) (vector_records ?d1) = filter (\<lambda>r. v_event r \<noteq> e) (vector_records d)"
    unfolding upsert_record_rows
  proof (rule upsert_other)
    show "(v_event (written model now rv) \<noteq> e) = False"
      using Cons.prems by (simp add: written_def row_of_record_def)
    show "\<forall>r \<in> set (vector_records d). chunk_id r = chunk_id (written model now rv) \<longrightarrow>
        \<not> v_event r \<noteq> e \<and> \<not> v_event (overwrite_row (written model now rv) r) \<noteq> e"
      using Cons.prems by (auto simp: index_inv_def record_ok_def chunk_key_inj)
  qed
  ultimately show ?case using Cons by (simp add: write_chunks_Cons)
qed simp

lemma write_chunks_frame [simp]:
  "event_indexing (write_chunks rvs model now d) = event_indexing d"
  "incidents (write_chunks rvs model now d) = incidents d"
  "incident_services (write_chunks rvs model now d) = incident_services d"
  "incident_events (write_chunks rvs model now d) = incident_events d"
  "llm_budget (write_chunks rvs model now d) = llm_budget d"
  "heartbeats (write_chunks rvs model now d) = heartbeats d"
  "heartbeat_log (write_chunks rvs model now d) = heartbeat_log d"
  "index_stats (write_chunks rvs model now d) = index_stats d"
  by (induction rvs arbitrary: d) (simp_all add: write_chunks_Cons upsert_record_def Let_def)

lemma register_frame [simp]:
  "vector_records (register_indexing e d) = vector_records d" "incidents (register_indexing e d) = incidents d"
  "incident_services (register_indexing e d) = incident_services d"
  "incident_events (register_indexing e d) = incident_events d"
  by (simp_all add: register_indexing_def)

lemma register_inv: "index_inv d \<Longrightarrow> index_inv (register_indexing e d)"
  using in_upsert by (fastforce simp: index_inv_def register_indexing_def keyed_upsert)

lemma index_event_rows:
  "vector_records (index_event ev rvs model now d) =
     filter (\<lambda>r. \<not> (v_event r = ev_id ev \<and> length rvs \<le> chunk_index r))
       (vector_records (write_chunks rvs model now (register_indexing (ev_id ev) d)))"
  by (auto simp: index_event_def Let_def complete_indexing_def link_event_def delete_orphans_def split: option.split)

lemma index_event_receipts:
  "event_indexing (index_event ev rvs model now d) =
     update_rows (\<lambda>r. r_event r = ev_id ev) (complete_row now) (event_indexing (register_indexing (ev_id ev) d))"
  by (auto simp: index_event_def Let_def complete_indexing_def link_event_def delete_orphans_def split: option.split)

lemma complete_row_id [simp]: "r_event (complete_row now r) = r_event r"
  by (simp add: complete_row_def)

lemma index_event_inv:
  assumes "list_all (\<lambda>rv. record_ok (fst rv)) rvs" and "index_inv d"
  shows "index_inv (index_event ev rvs model now d)"
proof -
  have r: "index_inv (register_indexing (ev_id ev) d)" by (rule register_inv) (rule assms(2))
  have w: "index_inv (write_chunks rvs model now (register_indexing (ev_id ev) d))"
    by (rule write_chunks_inv) (rule assms(1), rule r)
  then show ?thesis
    by (auto simp: index_inv_def index_event_rows index_event_receipts keyed_filter keyed_update_rows)
      (auto simp: update_rows_def complete_row_def split: if_splits)
qed

definition payload :: "vector_row \<Rightarrow> nat \<times> string \<times> real list \<times> string option \<times> string option \<times> time" where
  "payload r = (chunk_index r, v_text r, v_embedding r, v_model r, v_title r, v_indexed_at r)"

lemma payload_merged: "payload (merged new old) = payload new"
  by (simp add: payload_def merged_def overwrite_row_def split: option.split)

lemma records_nth:
  "i < length (chunk_text (ev_text ev) None) \<Longrightarrow>
     records_for_event ev stamp ! i = record_for ev stamp i (chunk_text (ev_text ev) None ! i)"
  by (simp add: records_for_event_def nth_enumerate_eq)

lemma records_length [simp]: "length (records_for_event ev stamp) = length (chunk_text (ev_text ev) None)"
  by (simp add: records_for_event_def)

lemma records_all:
  "list_all (\<lambda>rec. record_ok rec \<and> rec_event rec = ev_id ev) (records_for_event ev stamp)"
  by (simp add: list_all_length records_nth record_ok_def record_for_def)

lemma zip_all: "list_all P xs \<Longrightarrow> list_all (\<lambda>p. P (fst p)) (zip xs ys)"
  by (auto simp: list_all_iff dest: set_zip_leftD)

lemma find_record:
  assumes "length vs = length (chunk_text (ev_text ev) None)"
  shows "find (\<lambda>rv. rec_chunk (fst rv) = chunk_key (ev_id ev) i) (zip (records_for_event ev stamp) vs) =
    (if i < length vs then Some (record_for ev stamp i (chunk_text (ev_text ev) None ! i), vs ! i) else None)"
proof -
  let ?z = "zip (records_for_event ev stamp) vs"
  have k: "rec_chunk (fst (?z ! j)) = chunk_key (ev_id ev) j" if "j < length vs" for j
    using that assms by (simp add: records_nth record_for_def)
  show ?thesis
  proof (cases "i < length vs")
    case True
    have "find (\<lambda>rv. rec_chunk (fst rv) = chunk_key (ev_id ev) i) ?z = Some (?z ! i)"
      unfolding find_Some_iff using True assms k
      by (intro exI [of _ i]) (auto simp: chunk_key_inj records_nth record_for_def)
    with True assms show ?thesis by (simp add: records_nth)
  next
    case False
    have "find (\<lambda>rv. rec_chunk (fst rv) = chunk_key (ev_id ev) i) ?z = None"
      unfolding find_None_iff using False assms k
      by (auto simp: in_set_conv_nth chunk_key_inj records_nth record_for_def)
    with False show ?thesis by simp
  qed
qed

lemma distinct_records:
  "length vs = length (chunk_text (ev_text ev) None) \<Longrightarrow>
     distinct (map (rec_chunk \<circ> fst) (zip (records_for_event ev stamp) vs))"
  by (auto simp: distinct_conv_nth records_nth record_for_def chunk_key_inj)

lemma enumerate_map: "List.enumerate 0 xs = map (\<lambda>i. (i, xs ! i)) [0..<length xs]"
  by (rule nth_equalityI) (simp_all add: nth_enumerate_eq)

text \<open>The row of a chunk after indexing.\<close>

lemma indexed_row:
  fixes stamp :: time
  assumes len: "length vs = length (chunk_text (ev_text ev) None)" and inv: "index_inv d"
  defines "rvs \<equiv> zip (records_for_event ev stamp) vs"
  shows "row_of chunk_id (chunk_key (ev_id ev) i) (vector_records (index_event ev rvs model now d)) =
    (if i < length vs
     then Some (merged (written model now (record_for ev stamp i (chunk_text (ev_text ev) None ! i), vs ! i))
       (row_of chunk_id (chunk_key (ev_id ev) i) (vector_records d)))
     else None)"
proof -
  let ?w = "write_chunks rvs model now (register_indexing (ev_id ev) d)"
  have ok: "list_all (\<lambda>rv. record_ok (fst rv)) rvs"
    using zip_all [OF records_all] unfolding rvs_def by (rule list.pred_mono_strong) simp
  have winv: "index_inv ?w" by (rule write_chunks_inv [OF ok]) (rule register_inv, rule inv)
  have row: "row_of chunk_id (chunk_key (ev_id ev) i) (vector_records ?w) =
      (if i < length vs
       then Some (merged (written model now (record_for ev stamp i (chunk_text (ev_text ev) None ! i), vs ! i))
         (row_of chunk_id (chunk_key (ev_id ev) i) (vector_records d)))
       else row_of chunk_id (chunk_key (ev_id ev) i) (vector_records d))"
    using write_chunks_row [OF distinct_records [OF len, of stamp], of "chunk_key (ev_id ev) i" model now]
    by (simp add: rvs_def find_record len)
  have kind: "v_event r = ev_id ev \<and> chunk_index r = i"
    if "row_of chunk_id (chunk_key (ev_id ev) i) (vector_records ?w) = Some r" for r
    using row_of_SomeD [OF that] winv by (auto simp: index_inv_def chunk_key_inj)
  have len': "length rvs = length vs" using len by (simp add: rvs_def)
  have key: "keyed chunk_id (vector_records ?w)" using winv by (simp add: index_inv_def)
  show ?thesis
  proof (cases "row_of chunk_id (chunk_key (ev_id ev) i) (vector_records ?w)")
    case None
    with row show ?thesis
      unfolding index_event_rows row_of_filter_keyed [OF key] by (simp split: if_splits)
  next
    case (Some r)
    have "row_of chunk_id (chunk_key (ev_id ev) i) (vector_records (index_event ev rvs model now d)) =
        (if v_event r = ev_id ev \<and> length rvs \<le> chunk_index r then None else Some r)"
      unfolding index_event_rows row_of_filter_keyed [OF key] Some by simp
    also have "\<dots> = (if i < length vs then Some r else None)"
      using kind [OF Some] len' by simp
    finally show ?thesis using Some row by (cases "i < length vs") simp_all
  qed
qed

text \<open>C20. Indexing an event leaves exactly its chunks: the rows of the event are one per chunk of its text, with
  the chunk's index, text, vector and the title of the event, under distinct keys, while the rows of every
  other event, in their order, are untouched and rows left from a longer text are gone.\<close>

theorem index_event_is_exact:
  assumes "index_inv d" and "length vs = length (chunk_text (ev_text ev) None)"
  shows "let d' = index_event ev (zip (records_for_event ev stamp) vs) model now d in
     filter (\<lambda>r. v_event r \<noteq> ev_id ev) (vector_records d') = filter (\<lambda>r. v_event r \<noteq> ev_id ev) (vector_records d)
     \<and> set (map payload (filter (\<lambda>r. v_event r = ev_id ev) (vector_records d'))) =
         set (map (\<lambda>(i, c, v). (i, c, v, model, event_title ev, now))
           (List.enumerate 0 (zip (chunk_text (ev_text ev) None) vs)))
     \<and> index_inv d'"
proof -
  define rvs where "rvs = zip (records_for_event ev stamp) vs"
  define d' where "d' = index_event ev rvs model now d"
  let ?n = "length vs" and ?c = "chunk_text (ev_text ev) None"
  have okE: "list_all (\<lambda>rv. record_ok (fst rv) \<and> rec_event (fst rv) = ev_id ev) rvs"
    unfolding rvs_def by (rule zip_all) (rule records_all)
  then have ok: "list_all (\<lambda>rv. record_ok (fst rv)) rvs" by (rule list.pred_mono_strong) simp
  have inv': "index_inv d'" unfolding d'_def by (rule index_event_inv) (rule ok, rule assms(1))
  have others: "filter (\<lambda>r. v_event r \<noteq> ev_id ev) (vector_records d') = filter (\<lambda>r. v_event r \<noteq> ev_id ev) (vector_records d)"
  proof -
    let ?w = "write_chunks rvs model now (register_indexing (ev_id ev) d)"
    have "filter (\<lambda>r. v_event r \<noteq> ev_id ev) (vector_records d') = filter (\<lambda>r. v_event r \<noteq> ev_id ev) (vector_records ?w)"
      unfolding d'_def index_event_rows filter_filter by (rule filter_cong) auto
    with write_chunks_others [OF okE register_inv [OF assms(1)]] show ?thesis by simp
  qed
  have row: "row_of chunk_id (chunk_key (ev_id ev) i) (vector_records d') =
      (if i < ?n then Some (merged (written model now (record_for ev stamp i (?c ! i), vs ! i))
         (row_of chunk_id (chunk_key (ev_id ev) i) (vector_records d))) else None)" for i
    unfolding d'_def rvs_def by (rule indexed_row [OF assms(2,1)])
  have pay: "payload (merged (written model now (record_for ev stamp i (?c ! i), vs ! i)) old) =
      (i, ?c ! i, vs ! i, model, event_title ev, now)" for i old
    by (simp add: payload_merged) (simp add: payload_def written_def row_of_record_def record_for_def)
  have "payload ` {r \<in> set (vector_records d'). v_event r = ev_id ev} =
      (\<lambda>i. (i, ?c ! i, vs ! i, model, event_title ev, now)) ` {..<?n}" (is "?A = ?B")
  proof (rule equalityI; rule subsetI)
    fix x assume "x \<in> ?A"
    then obtain r where r: "r \<in> set (vector_records d')" "v_event r = ev_id ev" "x = payload r" by auto
    then have "chunk_id r = chunk_key (ev_id ev) (chunk_index r)" using inv' by (auto simp: index_inv_def)
    then have "row_of chunk_id (chunk_key (ev_id ev) (chunk_index r)) (vector_records d') = Some r"
      using r inv' by (simp add: index_inv_def row_of_Some_iff)
    with row [of "chunk_index r"] have lt: "chunk_index r < ?n"
      and m: "r = merged (written model now (record_for ev stamp (chunk_index r) (?c ! chunk_index r), vs ! chunk_index r))
        (row_of chunk_id (chunk_key (ev_id ev) (chunk_index r)) (vector_records d))"
      by (simp_all split: if_splits)
    from m pay have "payload r = (chunk_index r, ?c ! chunk_index r, vs ! chunk_index r, model, event_title ev, now)"
      by metis
    with lt r(3) show "x \<in> ?B" by blast
  next
    fix x assume "x \<in> ?B"
    then obtain i where i: "i < ?n" "x = (i, ?c ! i, vs ! i, model, event_title ev, now)" by auto
    then obtain r where r: "row_of chunk_id (chunk_key (ev_id ev) i) (vector_records d') = Some r" "payload r = x"
      using row [of i] pay by auto
    moreover have "v_event r = ev_id ev"
      using row_of_SomeD [OF r(1)] inv' by (auto simp: index_inv_def chunk_key_inj)
    ultimately show "x \<in> ?A" using row_of_SomeD [OF r(1)] by auto
  qed
  moreover have "set (map (\<lambda>(i, c, v). (i, c, v, model, event_title ev, now)) (List.enumerate 0 (zip ?c vs))) = ?B"
    using assms(2) unfolding enumerate_map by (simp add: image_image atLeast0LessThan)
  ultimately show ?thesis
    using others inv' by (simp add: Let_def d'_def rvs_def)
qed

subsection \<open>An example\<close>

definition demo_note :: event where
  "demo_note = \<lparr>ev_id = ''e1'', ev_v = 1, ev_ts = 1000000, ev_ingested_at = None, ev_indexed_at = None,
     ev_service = ''zoom'', ev_source = ALERT, ev_type = ''status_update'', ev_severity = None,
     ev_incident = Some ''zoom:1'', ev_title = Some ''Outage'', ev_text = ''we look'', ev_structured = [], ev_refs = []\<rparr>"

definition demo_config :: "unit embed_config" where
  "demo_config = \<lparr>parse = (\<lambda>k t v. if v = ''note'' then Inr demo_note else Inl ValueError),
     encode = (\<lambda>texts e. (Inr (map (\<lambda>t. replicate 768 0) texts), 5, e)), model_name = Some ''bge'',
     reports_of = (\<lambda>n d. None), dumps = (\<lambda>j. ''envelope''), describe = (\<lambda>e. ''error''),
     source_topic = NORMALIZED_TOPIC, dlq_topic = DEADLETTER_TOPIC, attempts = EMBED_ATTEMPTS\<rparr>"

lemma demo_chunks: "chunk_text ''we look'' None = [''we look'']"
  by code_simp

theorem index_event_is_exact_witness:
  "set (map payload (filter (\<lambda>r. v_event r = ev_id demo_note) (vector_records
      (index_event demo_note (zip (records_for_event demo_note 7) [[1, 2]]) (Some ''bge'') 9 empty_database)))) =
   {(0, ''we look'', [1, 2], Some ''bge'', Some ''Outage'', 9)}"
proof -
  have "ev_text demo_note = ''we look''" by (simp add: demo_note_def)
  then have "length [[1, 2 :: real]] = length (chunk_text (ev_text demo_note) None)" by (simp add: demo_chunks)
  from index_event_is_exact [OF index_inv_empty this, of 7 "Some ''bge''" 9] show ?thesis
    by (simp add: Let_def) (simp add: demo_note_def demo_chunks event_title_def)
qed

end
