(* ===== verification/Indexing.thy ===== *)
theory Indexing
  imports Embedder
begin

section \<open>What the embedding worker guarantees\<close>

text \<open>
  The paths of the handler, the receipts of indexing, redelivery, the contract between offsets and
  what a message became (an instance of \<open>output_first\<close>), and the breaker that stops a broken
  encoder from draining the topic.
\<close>

subsection \<open>The paths of the handler\<close>

lemma encode_attempts_db:
  "encode_attempts enc texts k n w = (r, w') \<Longrightarrow> db w' = db w \<and> clock w \<le> clock w'"
proof (induction n arbitrary: k w)
  case (Suc n)
  obtain r1 w1 where c: "call_service enc texts w = (r1, w1)" by force
  have f: "db w1 = db w" "clock w \<le> clock w1" using call_serviceD [OF c] by auto
  show ?case
  proof (cases r1)
    case (Inr vs)
    with c Suc.prems f show ?thesis by auto
  next
    case (Inl e)
    show ?thesis
    proof (cases "n = 0")
      case True
      with c Suc.prems f Inl show ?thesis by simp
    next
      case False
      with c Suc.prems Inl have
        "encode_attempts enc texts (Suc k) n (sleep (200000 * int (Suc k)) w1) = (r, w')" by simp
      from Suc.IH [OF this] f show ?thesis by simp
    qed
  qed
qed simp

lemma serve_one_result:
  "in_flight (serve_one report d p) = in_flight p"
  "acked (serve_one report d p) = (if report (served p) d = None then acked p @ [d] else acked p)"
  by (simp_all add: serve_one_def split: option.split)

lemma flush_all_acked: "set (acked p) \<subseteq> set (acked (flush_all report p))"
  by (auto simp: flush_all_def serve_keeps)

lemma flush_all_idle: "in_flight p = [] \<Longrightarrow> flush_all report p = p"
  by (simp add: flush_all_def serve_def)

lemma produce_sync_acked:
  assumes "produce_sync report t v k p = (r, p')"
  shows "set (acked p) \<subseteq> set (acked p')" and "r = Inr () \<Longrightarrow> \<lparr>d_topic = t, d_value = v, d_key = k\<rparr> \<in> set (acked p')"
    and "in_flight p = [] \<Longrightarrow> in_flight p' = [] \<and> length (acked p') \<le> Suc (length (acked p))"
  using assms flush_all_acked [of p report] flush_all_idle [of p report]
  by (auto simp: produce_sync_def Let_def serve_one_result split: if_splits)

lemma dead_letter_cases:
  assumes "dead_letter cfg error value systemic s = (r, s')"
  obtains (unsent) e p where "produce_sync (reports_of cfg) (dlq_topic cfg)
      (dumps cfg (build_deadletter error value (source_topic cfg) (isoformat (clock (es_world s))))) None (es_producer s) = (Inl e, p)"
    "r = Inl e" "s' = s\<lparr>es_producer := p\<rparr>"
  | (sent) p where "produce_sync (reports_of cfg) (dlq_topic cfg)
      (dumps cfg (build_deadletter error value (source_topic cfg) (isoformat (clock (es_world s))))) None (es_producer s) = (Inr (), p)"
    "r = (if MAX_CONSECUTIVE_DEADLETTERS \<le> es_streak s' then Inl EmbedderUnhealthy else Inr ())"
    "s' = s\<lparr>es_producer := p, es_world := inc_counter ''deadletter_events'' (es_world s),
            es_streak := (if systemic then es_streak s + 1 else 0)\<rparr>"
proof -
  obtain r1 p where p: "produce_sync (reports_of cfg) (dlq_topic cfg)
      (dumps cfg (build_deadletter error value (source_topic cfg) (isoformat (clock (es_world s))))) None (es_producer s) = (r1, p)"
    by force
  show ?thesis
  proof (cases r1)
    case (Inl e)
    then have "r = Inl e" and "s' = s\<lparr>es_producer := p\<rparr>" using p assms by (auto simp: dead_letter_def)
    with unsent [of e p] p Inl show ?thesis by simp
  next
    case (Inr u)
    with p assms sent [of p] show ?thesis by (simp add: dead_letter_def Let_def split: if_splits)
  qed
qed

lemma dead_letter_frame:
  assumes "dead_letter cfg error value systemic s = (r, s')"
  shows "db (es_world s') = db (es_world s)" and "es_heartbeat s' = es_heartbeat s"
    and "r = Inr () \<Longrightarrow> es_streak s' = (if systemic then es_streak s + 1 else 0)"
    and "r = Inr () \<Longrightarrow> es_streak s' < MAX_CONSECUTIVE_DEADLETTERS"
  by (rule dead_letter_cases [OF assms]; simp split: if_splits)+

lemma dead_letter_acked:
  assumes "dead_letter cfg error value systemic s = (r, s')"
  shows "set (acked (es_producer s)) \<subseteq> set (acked (es_producer s'))"
    and "r = Inr () \<Longrightarrow> \<exists>err now. \<lparr>d_topic = dlq_topic cfg,
        d_value = dumps cfg (build_deadletter err value (source_topic cfg) now), d_key = None\<rparr> \<in> set (acked (es_producer s'))"
    and "in_flight (es_producer s) = [] \<Longrightarrow> in_flight (es_producer s') = []
        \<and> length (acked (es_producer s')) \<le> Suc (length (acked (es_producer s)))"
  by (rule dead_letter_cases [OF assms]; use produce_sync_acked in \<open>fastforce split: if_splits\<close>)+

lemma observe_all_frame [simp]:
  "db (observe_all recs c i w) = db w" "clock (observe_all recs c i w) = clock w"
  by (induction recs arbitrary: w)
    (simp_all add: observe_all_def observe_indexed_def Let_def split: option.split)

definition same_core :: "database \<Rightarrow> database \<Rightarrow> bool" where
  "same_core d d' \<longleftrightarrow> vector_records d' = vector_records d \<and> event_indexing d' = event_indexing d
     \<and> incidents d' = incidents d \<and> incident_services d' = incident_services d
     \<and> incident_events d' = incident_events d \<and> llm_budget d' = llm_budget d \<and> index_stats d' = index_stats d"

lemma beat_core: "beat h w = (b, h', w') \<Longrightarrow> same_core (db w) (db w') \<and> clock w' = clock w"
  by (auto simp: same_core_def dest: beat_frame)

definition vectors_ok :: "real list list \<Rightarrow> event \<Rightarrow> bool" where
  "vectors_ok vs ev \<longleftrightarrow> length vs = length (chunk_text (ev_text ev) None) \<and> list_all (\<lambda>v. length v = EMBEDDING_DIM) vs"

lemma index_vectors_cases:
  assumes "index_vectors cfg ev (records_for_event ev stamp) vs s = (r, s')"
  obtains (refused) "r = Inl RuntimeError" "s' = s"
  | (indexed) "r = Inr ()" "vectors_ok vs ev" "es_producer s' = es_producer s" "es_streak s' = 0"
      "same_core (index_event ev (zip (records_for_event ev stamp) vs) (model_name cfg) (clock (es_world s)) (db (es_world s)))
         (db (es_world s'))"
proof (cases "vectors_ok vs ev")
  case False
  then have "r = Inl RuntimeError" "s' = s"
    using assms by (auto simp: index_vectors_def vectors_ok_def list_ex_iff list_all_iff split: if_splits prod.splits)
  then show ?thesis by (rule refused)
next
  case True
  then have nl: "length vs = length (records_for_event ev stamp)" "\<not> list_ex (\<lambda>v. length v \<noteq> EMBEDDING_DIM) vs"
    by (auto simp: vectors_ok_def list_ex_iff list_all_iff)
  define w2 where "w2 = inc_counter ''embedder_messages'' (observe_all (records_for_event ev stamp) (clock (es_world s))
      (ev_ingested_at ev) ((es_world s)\<lparr>db := index_event ev (zip (records_for_event ev stamp) vs) (model_name cfg)
        (clock (es_world s)) (db (es_world s))\<rparr>))"
  obtain b h w3 where b: "beat (es_heartbeat s) w2 = (b, h, w3)" by (metis prod_cases3)
  have "db w2 = index_event ev (zip (records_for_event ev stamp) vs) (model_name cfg) (clock (es_world s)) (db (es_world s))"
    by (simp add: w2_def)
  moreover have "r = Inr ()" and "s' = s\<lparr>es_world := w3, es_streak := 0, es_heartbeat := h\<rparr>"
    using assms nl b by (simp_all add: index_vectors_def w2_def Let_def)
  ultimately show ?thesis using indexed True beat_core [OF b] by simp
qed

abbreviation edb :: "'e embed_state \<Rightarrow> database" where
  "edb s \<equiv> db (es_world s)"

lemma note_version_frame [simp]: "db (note_version ev w) = db w" "clock (note_version ev w) = clock w"
  by (simp_all add: note_version_def)

lemma records_Nil [simp]: "records_for_event ev stamp = [] \<longleftrightarrow> chunk_text (ev_text ev) None = []"
  by (metis length_0_conv records_length)

definition no_title :: "event \<Rightarrow> string" where
  "no_title ev = (case ev_title ev of None \<Rightarrow> [] | Some t \<Rightarrow> t)"

text \<open>The five ways a message goes: unreadable, blank, given up, refused, indexed.\<close>

lemma handle_cases:
  assumes "handle cfg value s = (r, s')"
  obtains (unreadable) e where "parse_now cfg value s = Inl e"
      "dead_letter cfg (describe cfg e) value False (s\<lparr>es_parses := Suc (es_parses s)\<rparr>) = (r, s')"
  | (blank) ev where "parse_now cfg value s = Inr ev" "chunk_text (ev_text ev) None = []" "r = Inr ()"
      "edb s' = ensure_incident (ev_incident ev) (ev_service ev) (ev_ts ev) (no_title ev) (edb s)"
      "es_producer s' = es_producer s" "es_streak s' = es_streak s"
  | (gave_up) ev e w1 where "parse_now cfg value s = Inr ev" "chunk_text (ev_text ev) None \<noteq> []"
      "dead_letter cfg (gave_up cfg e) value True (s\<lparr>es_parses := Suc (es_parses s), es_world := w1\<rparr>) = (r, s')"
      "db w1 = edb s"
  | (rejected) ev e where "parse_now cfg value s = Inr ev" "chunk_text (ev_text ev) None \<noteq> []" "r = Inl e"
      "edb s' = edb s" "es_producer s' = es_producer s"
  | (success) ev vs now w0 w1 where "parse_now cfg value s = Inr ev" "chunk_text (ev_text ev) None \<noteq> []" "r = Inr ()"
      "encode_attempts (encode cfg) (chunk_text (ev_text ev) None) 0 (attempts cfg) w0 = (Inr vs, w1)"
      "vectors_ok vs ev" "es_producer s' = es_producer s" "es_streak s' = 0"
      "same_core (index_event ev (zip (records_for_event ev (clock (es_world s))) vs) (model_name cfg) now (edb s)) (edb s')"
proof (cases "parse_now cfg value s")
  case (Inl e)
  with assms unreadable show ?thesis by (simp add: handle_def)
next
  case p: (Inr ev)
  define w0 where "w0 = note_version ev (es_world s)"
  let ?recs = "records_for_event ev (clock w0)"
  have cw0: "clock w0 = clock (es_world s)" "db w0 = edb s" by (simp_all add: w0_def)
  show ?thesis
  proof (cases "chunk_text (ev_text ev) None = []")
    case True
    with p assms blank show ?thesis
      by (auto simp: handle_def w0_def [symmetric] Let_def no_title_def cw0)
  next
    case body: False
    show ?thesis
    proof (cases "attempts cfg = 0")
      case True
      with p assms body rejected show ?thesis by (auto simp: handle_def Let_def)
    next
      case some: False
      obtain r1 w1 where e: "encode_attempts (encode cfg) (map rec_text ?recs) 0 (attempts cfg) w0 = (r1, w1)" by force
      have texts: "map rec_text ?recs = chunk_text (ev_text ev) None"
        by (rule nth_equalityI) (simp_all add: records_nth record_for_def)
      have w1: "db w1 = edb s" using encode_attempts_db [OF e] cw0 by simp
      show ?thesis
      proof (cases r1)
        case (Inl x)
        then have "dead_letter cfg (gave_up cfg x) value True (s\<lparr>es_parses := Suc (es_parses s), es_world := w1\<rparr>) = (r, s')"
          using p assms body some e by (simp add: handle_def w0_def [symmetric] Let_def)
        from gave_up [OF p body this w1] show ?thesis .
      next
        case (Inr vs)
        then have "index_vectors cfg ev ?recs vs (s\<lparr>es_parses := Suc (es_parses s), es_world := w1\<rparr>) = (r, s')"
          using p assms body some e by (simp add: handle_def w0_def [symmetric] Let_def)
        then show ?thesis
        proof (cases rule: index_vectors_cases)
          case refused
          with rejected p body w1 show ?thesis by simp
        next
          case indexed
          with success [OF p body _ e [unfolded texts Inr]] w1 cw0 show ?thesis by simp
        qed
      qed
    qed
  qed
qed

subsection \<open>Receipts\<close>

definition indexed_event :: "string \<Rightarrow> database \<Rightarrow> bool" where
  "indexed_event e d \<longleftrightarrow> (case row_of r_event e (event_indexing d) of
     None \<Rightarrow> False | Some r \<Rightarrow> last_queryable_at r \<noteq> None)"

definition first_queryable :: "string \<Rightarrow> database \<Rightarrow> time option" where
  "first_queryable e d = (case row_of r_event e (event_indexing d) of
     None \<Rightarrow> None | Some r \<Rightarrow> first_queryable_at r)"

lemma register_row:
  "row_of r_event e (event_indexing (register_indexing e' d)) =
     (case row_of r_event e (event_indexing d) of
        Some r \<Rightarrow> Some r
      | None \<Rightarrow> if e = e' then Some \<lparr>r_event = e', first_index_observed = (\<not> list_ex (\<lambda>r. v_event r = e') (vector_records d)),
          first_queryable_at = None, last_queryable_at = None\<rparr> else None)"
  by (simp add: register_indexing_def row_of_upsert split: option.split)

lemma receipt_after:
  "row_of r_event e (event_indexing (index_event ev rvs model now d)) =
     map_option (\<lambda>r. if e = ev_id ev then complete_row now r else r)
       (row_of r_event e (event_indexing (register_indexing (ev_id ev) d)))"
proof (cases "row_of r_event e (event_indexing (register_indexing (ev_id ev) d))")
  case None
  then show ?thesis unfolding index_event_receipts by (simp add: row_of_update_rows)
next
  case (Some r)
  then have "r_event r = e" by (rule row_of_SomeD [THEN conjunct2])
  with Some show ?thesis unfolding index_event_receipts by (simp add: row_of_update_rows)
qed

lemma indexed_after: "indexed_event (ev_id ev) (index_event ev rvs model now d)"
  unfolding indexed_event_def receipt_after register_row
  by (simp add: complete_row_def split: option.split)

lemma indexed_kept: "indexed_event e d \<Longrightarrow> indexed_event e (index_event ev rvs model now d)"
  unfolding indexed_event_def receipt_after register_row
  by (auto simp: complete_row_def split: option.splits)

lemma first_kept:
  assumes "index_inv d" and "first_queryable e d = Some t"
  shows "first_queryable e (index_event ev rvs model now d) = Some t"
proof -
  obtain r where r: "row_of r_event e (event_indexing d) = Some r" "first_queryable_at r = Some t"
    using assms(2) by (auto simp: first_queryable_def split: option.splits)
  then have "first_index_observed r"
    using row_of_SomeD [OF r(1)] assms(1) by (auto simp: index_inv_def)
  with r show ?thesis by (simp add: first_queryable_def receipt_after register_row complete_row_def)
qed

lemma core_receipts:
  "same_core d d' \<Longrightarrow> indexed_event e d' = indexed_event e d \<and> first_queryable e d' = first_queryable e d
     \<and> index_inv d' = index_inv d"
  by (simp add: same_core_def indexed_event_def first_queryable_def index_inv_def)

lemma ensure_core:
  "indexed_event e (ensure_incident i s t ti d) = indexed_event e d"
  "first_queryable e (ensure_incident i s t ti d) = first_queryable e d"
  "index_inv (ensure_incident i s t ti d) = index_inv d"
  by (simp_all add: indexed_event_def first_queryable_def index_inv_def)

lemma records_ok: "list_all (\<lambda>rv. record_ok (fst rv)) (zip (records_for_event ev stamp) vs)"
  using zip_all [OF records_all] by (rule list.pred_mono_strong) simp

lemma handle_receipts:
  assumes "index_inv (edb s)" and "handle cfg value s = (r, s')"
  shows "index_inv (edb s')"
    and "indexed_event e (edb s) \<Longrightarrow> indexed_event e (edb s')"
    and "first_queryable e (edb s) = Some t \<Longrightarrow> first_queryable e (edb s') = Some t"
  using assms(2)
  by (cases rule: handle_cases;
      use assms(1) in \<open>simp add: dead_letter_frame ensure_core core_receipts index_event_inv records_ok indexed_kept first_kept\<close>)+

text \<open>C25. Handling any message, however it ends, keeps the shape of the index (one row per key, the key of its event
  and chunk index), never loses the receipt of an indexed event, and never moves the moment an event first
  became queryable.\<close>

theorem handling_keeps_receipts:
  assumes "index_inv (edb s)" and "handle cfg value s = (r, s')"
  shows "index_inv (edb s') \<and> (indexed_event e (edb s) \<longrightarrow> indexed_event e (edb s'))
    \<and> (\<forall>t. first_queryable e (edb s) = Some t \<longrightarrow> first_queryable e (edb s') = Some t)"
  using handle_receipts [OF assms] by blast

subsection \<open>Redelivery\<close>

text \<open>What a redelivery may change: the stamps of the rows, the last completion, the heartbeats.\<close>

definition undate :: "vector_row \<Rightarrow> vector_row" where
  "undate r = r\<lparr>v_indexed_at := 0\<rparr>"

definition undated :: "database \<Rightarrow> database" where
  "undated d = d\<lparr>vector_records := map undate (vector_records d),
     event_indexing := map (\<lambda>r. r\<lparr>last_queryable_at := None\<rparr>) (event_indexing d), heartbeats := [], heartbeat_log := []\<rparr>"

definition absorbed :: "vector_row \<Rightarrow> vector_row list \<Rightarrow> bool" where
  "absorbed new t \<longleftrightarrow> (case row_of chunk_id (chunk_id new) t of
     None \<Rightarrow> False | Some r \<Rightarrow> undate (overwrite_row new r) = undate r)"

lemma undate_simps [simp]: "chunk_id (undate r) = chunk_id r" "v_event (undate r) = v_event r"
    "chunk_index (undate r) = chunk_index r" "undate (undate r) = undate r"
    "undate (overwrite_row new (undate r)) = undate (overwrite_row new r)"
  by (simp_all add: undate_def overwrite_row_def)

lemma absorbed_upsert:
  "absorbed new t \<Longrightarrow> map undate (upsert chunk_id new (overwrite_row new) t) = map undate t"
  by (induction t) (auto simp: absorbed_def table_simps split: if_splits)

lemma row_of_undated: "row_of chunk_id k (map undate t) = map_option undate (row_of chunk_id k t)"
  by (induction t) (auto simp: table_simps)

lemma absorbed_undated:
  assumes "map undate t = map undate t'"
  shows "absorbed new t = absorbed new t'"
proof -
  have "absorbed new u \<longleftrightarrow> (case row_of chunk_id (chunk_id new) (map undate u) of
      None \<Rightarrow> False | Some r \<Rightarrow> undate (overwrite_row new r) = undate r)" for u
    by (auto simp: absorbed_def row_of_undated split: option.splits)
  with assms show ?thesis by simp
qed

lemma absorbed_writes:
  "list_all (\<lambda>rv. absorbed (written model now rv) (vector_records d)) rvs \<Longrightarrow>
     map undate (vector_records (write_chunks rvs model now d)) = map undate (vector_records d)"
proof (induction rvs arbitrary: d)
  case (Cons rv rvs)
  let ?d1 = "upsert_record ((fst rv)\<lparr>rec_indexed_at := now\<rparr>) (snd rv) model d"
  have same: "map undate (vector_records ?d1) = map undate (vector_records d)"
    using Cons.prems by (simp add: upsert_record_rows absorbed_upsert)
  then have "list_all (\<lambda>rv. absorbed (written model now rv) (vector_records ?d1)) rvs"
    using Cons.prems absorbed_undated [OF same] by simp
  from Cons.IH [OF this] same show ?case by (simp add: write_chunks_Cons)
qed simp

lemma indexed_rows_absorb:
  assumes len: "length vs = length (chunk_text (ev_text ev) None)" and inv: "index_inv d"
  shows "list_all (\<lambda>rv. absorbed (written model now2 rv)
      (vector_records (index_event ev (zip (records_for_event ev s1) vs) model now1 d)))
    (zip (records_for_event ev s2) vs)"
  unfolding list_all_length
proof (intro allI impI)
  fix i assume "i < length (zip (records_for_event ev s2) vs)"
  then have i: "i < length vs" using len by simp
  show "absorbed (written model now2 (zip (records_for_event ev s2) vs ! i))
      (vector_records (index_event ev (zip (records_for_event ev s1) vs) model now1 d))"
    using indexed_row [OF len inv, of i s1 model now1] i len
    by (simp add: absorbed_def records_nth record_for_def)
      (simp add: merged_def undate_def overwrite_row_def written_def row_of_record_def split: option.split)
qed

lemma map_undate_filter: "(\<And>r. P (undate r) = P r) \<Longrightarrow> map undate (filter P t) = filter P (map undate t)"
  by (induction t) simp_all

lemma undate_orphans:
  "map undate (filter (\<lambda>r. \<not> (v_event r = e \<and> n \<le> chunk_index r)) t) =
     filter (\<lambda>r. \<not> (v_event r = e \<and> n \<le> chunk_index r)) (map undate t)"
  by (rule map_undate_filter) simp

lemma reindex_rows:
  fixes s1 now1 :: time and model :: "string option"
  assumes len: "length vs = length (chunk_text (ev_text ev) None)" and inv: "index_inv d"
  defines "d1 \<equiv> index_event ev (zip (records_for_event ev s1) vs) model now1 d"
  shows "map undate (vector_records (index_event ev (zip (records_for_event ev s2) vs) model now2 d1)) =
    map undate (vector_records d1)"
proof -
  let ?rvs = "zip (records_for_event ev s2) vs" and ?P = "\<lambda>r. \<not> (v_event r = ev_id ev \<and> length vs \<le> chunk_index r)"
  have n: "length ?rvs = length vs" using len by simp
  have "map undate (vector_records (write_chunks ?rvs model now2 (register_indexing (ev_id ev) d1))) =
      map undate (vector_records d1)"
    using absorbed_writes [of model now2 "register_indexing (ev_id ev) d1" ?rvs]
      indexed_rows_absorb [OF len inv, of model now2 s1 now1 s2] by (simp add: d1_def)
  then have "map undate (vector_records (index_event ev ?rvs model now2 d1)) = filter ?P (map undate (vector_records d1))"
    unfolding index_event_rows n undate_orphans by simp
  also have "\<dots> = map undate (filter ?P (vector_records d1))" by (rule undate_orphans [symmetric])
  also have "filter ?P (vector_records d1) = vector_records d1"
    unfolding d1_def index_event_rows using len by (simp add: filter_id_conv)
  finally show ?thesis .
qed

lemma index_event_tables:
  "incidents (index_event ev rvs model now d) =
     incidents (ensure_incident (ev_incident ev) (ev_service ev) (ev_ts ev) (no_title ev) d)"
  "incident_services (index_event ev rvs model now d) =
     incident_services (ensure_incident (ev_incident ev) (ev_service ev) (ev_ts ev) (no_title ev) d)"
  "incident_events (index_event ev rvs model now d) =
     (case ev_incident ev of None \<Rightarrow> incident_events d
      | Some i \<Rightarrow> if i = [] then incident_events d else insert_once (i, ev_id ev) (incident_events d))"
  "llm_budget (index_event ev rvs model now d) = llm_budget d"
  "index_stats (index_event ev rvs model now d) = index_stats d"
  "heartbeats (index_event ev rvs model now d) = heartbeats d"
  "heartbeat_log (index_event ev rvs model now d) = heartbeat_log d"
  by (simp_all add: index_event_def Let_def complete_indexing_def link_event_def delete_orphans_def
      register_indexing_def ensure_incident_def no_title_def split: option.split)

lemma ensure_rows_twice:
  "incidents d1 = incidents (ensure_incident i s t ti d) \<Longrightarrow> incidents (ensure_incident i s t ti d1) = incidents d1"
  "incident_services d1 = incident_services (ensure_incident i s t ti d) \<Longrightarrow>
     incident_services (ensure_incident i s t ti d1) = incident_services d1"
  by (auto simp: ensure_incident_def ensure_rows_idempotent split: option.splits)

lemma receipts_twice:
  "map (\<lambda>r. r\<lparr>last_queryable_at := None\<rparr>) (event_indexing
      (index_event ev rvs2 model now2 (index_event ev rvs1 model now1 d))) =
   map (\<lambda>r. r\<lparr>last_queryable_at := None\<rparr>) (event_indexing (index_event ev rvs1 model now1 d))"
proof -
  let ?d1 = "index_event ev rvs1 model now1 d"
  have present: "indexed_event (ev_id ev) ?d1" by (rule indexed_after)
  have keep: "upsert key new (\<lambda>r. r) t = t" if "row_of key (key new) t \<noteq> None" for key :: "receipt \<Rightarrow> string" and new t
    using that by (induction t) (auto simp: table_simps)
  have reg: "event_indexing (register_indexing (ev_id ev) ?d1) = event_indexing ?d1"
    unfolding register_indexing_def using present
    by (simp add: indexed_event_def keep split: option.splits)
  have twice: "(complete_row now2 (complete_row now1 r))\<lparr>last_queryable_at := None\<rparr> =
      (complete_row now1 r)\<lparr>last_queryable_at := None\<rparr>" for r
    by (cases "first_queryable_at r") (simp_all add: complete_row_def)
  show ?thesis
    unfolding index_event_receipts [of ev rvs2 model now2] reg
    unfolding index_event_receipts [of ev rvs1 model now1]
    by (auto simp: update_rows_def twice)
qed

lemma reindex_undated:
  assumes "length vs = length (chunk_text (ev_text ev) None)" and "index_inv d"
  shows "undated (index_event ev (zip (records_for_event ev s2) vs) model now2
      (index_event ev (zip (records_for_event ev s1) vs) model now1 d)) =
    undated (index_event ev (zip (records_for_event ev s1) vs) model now1 d)"
  unfolding undated_def
  by (rule database.equality)
    (simp_all add: reindex_rows [OF assms] receipts_twice index_event_tables ensure_rows_twice split: option.split)

lemma undated_core: "same_core d d' \<Longrightarrow> undated d' = undated d"
  by (simp add: same_core_def undated_def)

lemma undated_index_event:
  "same_core d d' \<Longrightarrow> undated (index_event ev rvs model now d') = undated (index_event ev rvs model now d)"
proof -
  assume c: "same_core d d'"
  have w: "vector_records (write_chunks rvs model now d1) = vector_records (write_chunks rvs model now d2)"
    if "vector_records d1 = vector_records d2" for d1 d2
    using that by (induction rvs arbitrary: d1 d2) (simp_all add: write_chunks_Cons upsert_record_def Let_def)
  have "vector_records (index_event ev rvs model now d') = vector_records (index_event ev rvs model now d)"
    unfolding index_event_rows using c
    by (simp add: same_core_def w [of "register_indexing (ev_id ev) d'" "register_indexing (ev_id ev) d"])
  moreover have "event_indexing (index_event ev rvs model now d') = event_indexing (index_event ev rvs model now d)"
    using c by (simp add: index_event_receipts register_indexing_def same_core_def)
  moreover have "incidents (index_event ev rvs model now d') = incidents (index_event ev rvs model now d)"
    "incident_services (index_event ev rvs model now d') = incident_services (index_event ev rvs model now d)"
    "incident_events (index_event ev rvs model now d') = incident_events (index_event ev rvs model now d)"
    using c by (simp_all add: index_event_tables same_core_def ensure_incident_def split: option.split)
  moreover have "llm_budget d' = llm_budget d" "index_stats d' = index_stats d" using c by (simp_all add: same_core_def)
  ultimately show ?thesis unfolding undated_def
    by (intro database.equality) (simp_all add: index_event_tables(4,5))
qed

lemma encode_attempts_value:
  assumes "\<And>w vs w'. call_service enc texts w = (Inr vs, w') \<Longrightarrow> vs = f texts"
    and "encode_attempts enc texts k n w = (Inr vs, w')"
  shows "vs = f texts"
  using assms(2)
proof (induction n arbitrary: k w)
  case (Suc n)
  obtain r1 w1 where c: "call_service enc texts w = (r1, w1)" by force
  with Suc assms(1) show ?case by (cases r1) (auto split: if_splits)
qed simp

text \<open>C24. Redelivery is absorbed: handling the same message again, read both times as the same event (so it carries
  its own id), both times successfully and with an encoder that gives the same vectors for the same texts, leaves the same database up to the stamps of the
  rewritten rows, the time of the last completion and the heartbeats; in particular no row, receipt, incident
  or link is duplicated and \<^verbatim>\<open>first_queryable_at\<close> is the one of the first time.\<close>

theorem redelivery_is_absorbed:
  assumes "index_inv (edb s)" and "parse_now cfg value s = Inr ev"
    and "handle cfg value s = (Inr (), s1)" and "es_streak s1 = 0"
    and "parse_now cfg value s1 = Inr ev"
    and "handle cfg value s1 = (Inr (), s2)" and "es_streak s2 = 0"
    and det: "\<And>texts w vs w'. call_service (encode cfg) texts w = (Inr vs, w') \<Longrightarrow> vs = f texts"
  shows "undated (edb s2) = undated (edb s1)"
  using assms(3)
proof (cases rule: handle_cases)
  case (blank ev')
  with assms(2) have ev: "ev' = ev" "chunk_text (ev_text ev) None = []" by simp_all
  from assms(6) show ?thesis
  proof (cases rule: handle_cases)
    case (blank ev'')
    with assms(5) have ev'': "ev'' = ev" by simp
    have "edb s2 = edb s1"
      using blank \<open>edb s1 = _\<close> unfolding ev ev''
      by (intro database.equality) (simp_all add: ensure_incident_def ensure_rows_idempotent split: option.splits)
    then show ?thesis by simp
  qed (use assms(5) ev in auto)
next
  case (success ev' vs now w0 w1)
  with assms(2) have ev: "ev' = ev" by simp
  have vs: "vs = f (chunk_text (ev_text ev) None)"
    using success(4) unfolding ev by (rule encode_attempts_value [rotated]) (rule det)
  note first = success [unfolded ev]
  from assms(6) show ?thesis
  proof (cases rule: handle_cases)
    case (success ev'' vs2 now2 w02 w12)
    with assms(5) have ev'': "ev'' = ev" by simp
    have vs2: "vs2 = vs"
      using success(4) unfolding ev'' vs by (rule encode_attempts_value [rotated]) (rule det)
    have "undated (edb s2) = undated (index_event ev (zip (records_for_event ev (clock (es_world s1))) vs)
        (model_name cfg) now2 (edb s1))"
      using success(8) unfolding ev'' vs2 by (rule undated_core)
    also have "\<dots> = undated (index_event ev (zip (records_for_event ev (clock (es_world s1))) vs) (model_name cfg) now2
        (index_event ev (zip (records_for_event ev (clock (es_world s))) vs) (model_name cfg) now (edb s)))"
      by (rule undated_index_event) (rule first(8))
    also have "\<dots> = undated (index_event ev (zip (records_for_event ev (clock (es_world s))) vs) (model_name cfg) now (edb s))"
      by (rule reindex_undated) (use first(5) assms(1) in \<open>simp_all add: vectors_ok_def\<close>)
    also have "\<dots> = undated (edb s1)" by (rule undated_core [OF first(8), symmetric])
    finally show ?thesis .
  qed (use assms(5,7) first in \<open>auto dest: dead_letter_frame(3)\<close>)
qed (use assms(2,4) in \<open>auto dest: dead_letter_frame(3)\<close>)

subsection \<open>Nothing is committed and lost\<close>

definition dead_lettered :: "'e embed_config \<Rightarrow> string \<Rightarrow> 'e embed_state \<Rightarrow> bool" where
  "dead_lettered cfg value s \<longleftrightarrow> (\<exists>err now. \<lparr>d_topic = dlq_topic cfg,
     d_value = dumps cfg (build_deadletter err value (source_topic cfg) now), d_key = None\<rparr> \<in> set (acked (es_producer s)))"

definition embed_settled :: "'e embed_config \<Rightarrow> string \<Rightarrow> 'e embed_state \<Rightarrow> bool" where
  "embed_settled cfg value s \<longleftrightarrow> dead_lettered cfg value s
     \<or> (\<exists>k t ev. parse cfg k t value = Inr ev \<and> (chunk_text (ev_text ev) None = [] \<or> indexed_event (ev_id ev) (edb s)))"

lemma dead_lettered_mono:
  "set (acked (es_producer s)) \<subseteq> set (acked (es_producer s')) \<Longrightarrow> dead_lettered cfg v s \<Longrightarrow> dead_lettered cfg v s'"
  by (auto simp: dead_lettered_def)

lemma handle_acked:
  assumes "handle cfg value s = (r, s')"
  shows "set (acked (es_producer s)) \<subseteq> set (acked (es_producer s'))"
  using assms by (cases rule: handle_cases; force dest: dead_letter_acked(1))

lemma handle_indexed:
  assumes "handle cfg value s = (r, s')" and "indexed_event e (edb s)"
  shows "indexed_event e (edb s')"
  using assms(1)
  by (cases rule: handle_cases;
      use assms(2) in \<open>simp add: dead_letter_frame ensure_core core_receipts indexed_kept\<close>)

lemma handle_keeps_settled:
  "handle cfg value s = (r, s') \<Longrightarrow> embed_settled cfg u s \<Longrightarrow> embed_settled cfg u s'"
  using handle_indexed dead_lettered_mono [OF handle_acked] unfolding embed_settled_def by blast

lemma handle_settles:
  assumes "handle cfg value s = (Inr (), s')"
  shows "embed_settled cfg value s'"
  using assms
proof (cases rule: handle_cases)
  case (unreadable e)
  from dead_letter_acked(2) [OF unreadable(2)] show ?thesis by (auto simp: embed_settled_def dead_lettered_def)
next
  case (gave_up ev e w1)
  from dead_letter_acked(2) [OF gave_up(3)] show ?thesis by (auto simp: embed_settled_def dead_lettered_def)
next
  case (success ev vs now w0 w1)
  with core_receipts [OF success(8)] have "indexed_event (ev_id ev) (edb s')" by (simp add: indexed_after)
  with success(1) show ?thesis unfolding embed_settled_def parse_now_def by blast
qed (auto simp: embed_settled_def parse_now_def)

lemma beat_hook_keeps: "beat_hook s = (r, s') \<Longrightarrow> embed_settled cfg u s \<Longrightarrow> embed_settled cfg u s'"
proof -
  assume b: "beat_hook s = (r, s')" and u: "embed_settled cfg u s"
  obtain x h w where w: "beat (es_heartbeat s) (es_world s) = (x, h, w)" by (metis prod_cases3)
  with b have "es_world s' = w" "es_producer s' = es_producer s" by (auto simp: beat_hook_def)
  with u core_receipts [OF conjunct1 [OF beat_core [OF w]]] show ?thesis
    by (auto simp: embed_settled_def dead_lettered_def)
qed

lemma flush_embedder_keeps: "flush_embedder cfg s = (r, s') \<Longrightarrow> embed_settled cfg u s \<Longrightarrow> embed_settled cfg u s'"
proof -
  assume f: "flush_embedder cfg s = (r, s')" and u: "embed_settled cfg u s"
  then have "dead_lettered cfg u s \<Longrightarrow> dead_lettered cfg u s'"
    by (intro dead_lettered_mono [of s s']) (auto simp: flush_embedder_def dest: set_mp [OF flush_all_acked])
  with f u show ?thesis by (auto simp: flush_embedder_def embed_settled_def)
qed

interpretation embedder: output_first "embedder_loop cfg limit idle every broker" "\<lambda>s. True"
  "embed_settled cfg" "embed_settled cfg" "flush_embedder cfg"
  for cfg :: "'e embed_config" and limit idle every broker
  by unfold_locales
    (auto simp: embedder_loop_def intro: handle_settles handle_keeps_settled flush_embedder_keeps beat_hook_keeps)

text \<open>No message is committed and lost: every message whose offset the embedder commits has been indexed (its
  event has a completed receipt), has no text to index, or has been acknowledged by the broker as a dead
  letter carrying it unchanged, whichever calls and deliveries failed and however the loop ended.\<close>

theorem committed_messages_are_kept:
  assumes "m \<in> set (committed (snd (consume_loop (embedder_loop cfg limit idle every broker) is (start_embedder w) now)))"
    and "m_value m = Inr value"
  shows "embed_settled cfg value (inner (snd (consume_loop (embedder_loop cfg limit idle every broker) is (start_embedder w) now)))"
  by (rule embedder.committed_is_settled [OF assms TrueI])

subsection \<open>The dead-letter breaker\<close>

fun handle_all :: "'e embed_config \<Rightarrow> string list \<Rightarrow> ('e embed_state, unit) call" where
  "handle_all cfg [] s = (Inr (), s)"
| "handle_all cfg (v # vs) s =
     (case handle cfg v s of (Inl e, s1) \<Rightarrow> (Inl e, s1) | (Inr u, s1) \<Rightarrow> handle_all cfg vs s1)"

definition embeddable :: "'e embed_config \<Rightarrow> string \<Rightarrow> bool" where
  "embeddable cfg v \<longleftrightarrow> (\<forall>k t. case parse cfg k t v of Inl e \<Rightarrow> False | Inr ev \<Rightarrow> chunk_text (ev_text ev) None \<noteq> [])"

lemma embeddableD:
  "embeddable cfg v \<Longrightarrow> \<exists>ev. parse_now cfg v s = Inr ev \<and> chunk_text (ev_text ev) None \<noteq> []"
  by (drule spec2 [OF iffD1 [OF embeddable_def], of cfg v "es_parses s" "clock (es_world s)"])
    (simp add: parse_now_def split: sum.splits)

definition broken_encoder :: "'e embed_config \<Rightarrow> bool" where
  "broken_encoder cfg \<longleftrightarrow> (\<forall>texts e. isl (fst (encode cfg texts e)))"

lemma broken_attempts: "broken_encoder cfg \<Longrightarrow> encode_attempts (encode cfg) texts k n w \<noteq> (Inr vs, w')"
proof (induction n arbitrary: k w)
  case (Suc n)
  obtain r1 w1 where c: "call_service (encode cfg) texts w = (r1, w1)" by force
  have "isl (fst (call_service (encode cfg) texts w))"
    using Suc.prems by (simp add: call_service_def broken_encoder_def split: prod.split) (metis fst_conv)
  with c Suc show ?case by (cases r1) auto
qed simp

lemma broken_step:
  assumes "broken_encoder cfg" and "embeddable cfg v" and "in_flight (es_producer s) = []"
    and "handle cfg v s = (r, s')"
  shows "in_flight (es_producer s') = [] \<and> length (acked (es_producer s')) \<le> Suc (length (acked (es_producer s)))
    \<and> (r = Inr () \<longrightarrow> es_streak s' = Suc (es_streak s) \<and> es_streak s' < MAX_CONSECUTIVE_DEADLETTERS)"
  using assms(4)
proof (cases rule: handle_cases)
  case (gave_up ev e w1)
  from dead_letter_acked(3) [OF gave_up(3)] dead_letter_frame(3,4) [OF gave_up(3)] assms(3) show ?thesis by auto
next
  case (success ev vs now w0 w1)
  with broken_attempts [OF assms(1)] show ?thesis by blast
qed (use embeddableD [OF assms(2), of s] assms(3) in auto)

text \<open>C39. A broken encoder does not drain the topic: over any sequence of messages that are all readable and all have
  text (an unreadable one in between resets the count, see \<open>poison_defeats_the_breaker\<close>) the worker
  stops before it has dead-lettered more than ten messages in a row, raising and leaving the rest of the
  topic uncommitted; it returns normally only from fewer than ten.\<close>

theorem breaker_stops_the_drain:
  assumes "broken_encoder cfg" and "list_all (embeddable cfg) vs" and "in_flight (es_producer s) = []"
    and "es_streak s < MAX_CONSECUTIVE_DEADLETTERS"
  shows "case handle_all cfg vs s of (r, s') \<Rightarrow>
     length (acked (es_producer s')) + es_streak s \<le> length (acked (es_producer s)) + MAX_CONSECUTIVE_DEADLETTERS
     \<and> (r = Inr () \<longrightarrow> es_streak s + length vs < MAX_CONSECUTIVE_DEADLETTERS)"
  using assms(2-)
proof (induction vs arbitrary: s)
  case (Cons v vs)
  obtain r1 s1 where h: "handle cfg v s = (r1, s1)" by force
  from broken_step [OF assms(1) _ Cons.prems(2) h] Cons.prems(1) have
    b: "in_flight (es_producer s1) = []" "length (acked (es_producer s1)) \<le> Suc (length (acked (es_producer s)))"
    "r1 = Inr () \<Longrightarrow> es_streak s1 = Suc (es_streak s) \<and> es_streak s1 < MAX_CONSECUTIVE_DEADLETTERS" by auto
  show ?case
  proof (cases r1)
    case (Inl e)
    with h b(2) Cons.prems(3) show ?thesis by auto
  next
    case (Inr u)
    with b(3) have s1: "es_streak s1 = Suc (es_streak s)" "es_streak s1 < MAX_CONSECUTIVE_DEADLETTERS" by auto
    from Cons.IH [of s1] Cons.prems(1) b(1) s1(2) have
      "case handle_all cfg vs s1 of (r, s') \<Rightarrow>
         length (acked (es_producer s')) + es_streak s1 \<le> length (acked (es_producer s1)) + MAX_CONSECUTIVE_DEADLETTERS
         \<and> (r = Inr () \<longrightarrow> es_streak s1 + length vs < MAX_CONSECUTIVE_DEADLETTERS)" by simp
    with h Inr s1(1) b(2) show ?thesis by (auto split: prod.splits)
  qed
qed simp

text \<open>
  But an unreadable message in between resets the count: a broken encoder with one unreadable message
  after every nine readable ones drains any number of messages into the dead-letter topic.
\<close>

lemma all_reports_good: "reports_of cfg = (\<lambda>n d. None) \<Longrightarrow> \<exists>p'. produce_sync (reports_of cfg) t v k p = (Inr (), p')"
  by (simp add: produce_sync_def Let_def)

lemma dead_letter_sent:
  assumes "reports_of cfg = (\<lambda>n d. None)"
    and "(if systemic then es_streak s + 1 else 0) < MAX_CONSECUTIVE_DEADLETTERS"
  shows "\<exists>s'. dead_letter cfg err v systemic s = (Inr (), s') \<and> es_streak s' = (if systemic then es_streak s + 1 else 0)"
  using all_reports_good [OF assms(1), of "dlq_topic cfg"
      "dumps cfg (build_deadletter err v (source_topic cfg) (isoformat (clock (es_world s))))" None "es_producer s"] assms(2)
  by (auto simp: dead_letter_def Let_def)

lemma good_step:
  assumes "reports_of cfg = (\<lambda>n d. None)" and "broken_encoder cfg" and "attempts cfg \<noteq> 0" and "embeddable cfg v"
    and "Suc (es_streak s) < MAX_CONSECUTIVE_DEADLETTERS"
  shows "\<exists>s'. handle cfg v s = (Inr (), s') \<and> es_streak s' = Suc (es_streak s)"
proof -
  obtain ev where ev: "parse_now cfg v s = Inr ev" "chunk_text (ev_text ev) None \<noteq> []"
    using embeddableD [OF assms(4)] by blast
  define w0 where "w0 = note_version ev (es_world s)"
  define texts where "texts = map rec_text (records_for_event ev (clock w0))"
  obtain r1 w1 where e: "encode_attempts (encode cfg) texts 0 (attempts cfg) w0 = (r1, w1)" by force
  then obtain x where x: "r1 = Inl x" using broken_attempts [OF assms(2)] by (cases r1) auto
  let ?s1 = "s\<lparr>es_parses := Suc (es_parses s), es_world := w1\<rparr>"
  have "handle cfg v s = dead_letter cfg (gave_up cfg x) v True ?s1"
    using ev e x assms(3) by (simp add: handle_def w0_def [symmetric] texts_def [symmetric] Let_def)
  with dead_letter_sent [OF assms(1), of True ?s1] assms(5) show ?thesis by simp
qed

lemma bad_step:
  "reports_of cfg = (\<lambda>n d. None) \<Longrightarrow> (\<And>k t. parse cfg k t v = Inl e) \<Longrightarrow>
     \<exists>s'. handle cfg v s = (Inr (), s') \<and> es_streak s' = 0"
  using dead_letter_sent [of cfg False "s\<lparr>es_parses := Suc (es_parses s)\<rparr>"]
  by (simp add: handle_def parse_now_def MAX_CONSECUTIVE_DEADLETTERS_def)

lemma handle_all_append:
  "handle_all cfg (us @ vs) s = (case handle_all cfg us s of (Inl e, s1) \<Rightarrow> (Inl e, s1) | (Inr u, s1) \<Rightarrow> handle_all cfg vs s1)"
  by (induction us arbitrary: s) (auto split: prod.split sum.split)

lemma good_run:
  assumes "reports_of cfg = (\<lambda>n d. None)" and "broken_encoder cfg" and "attempts cfg \<noteq> 0" and "embeddable cfg v"
  shows "es_streak s + n < MAX_CONSECUTIVE_DEADLETTERS \<Longrightarrow>
    \<exists>s'. handle_all cfg (replicate n v) s = (Inr (), s') \<and> es_streak s' = es_streak s + n"
proof (induction n arbitrary: s)
  case (Suc n)
  then obtain s1 where s1: "handle cfg v s = (Inr (), s1)" "es_streak s1 = Suc (es_streak s)"
    using good_step [OF assms, of s] by auto
  with Suc.IH [of s1] Suc.prems show ?case by simp
qed simp

lemma poison_defeats_the_breaker:
  assumes "reports_of cfg = (\<lambda>n d. None)" and "broken_encoder cfg" and "attempts cfg \<noteq> 0"
    and "embeddable cfg good" and "\<And>k t. parse cfg k t bad = Inl e" and "es_streak s = 0"
  shows "fst (handle_all cfg (concat (replicate k (replicate 9 good @ [bad]))) s) = Inr ()"
  using assms(6)
proof (induction k arbitrary: s)
  case (Suc k)
  obtain s1 where s1: "handle_all cfg (replicate 9 good) s = (Inr (), s1)"
    using good_run [OF assms(1-4), of s 9] Suc.prems by (auto simp: MAX_CONSECUTIVE_DEADLETTERS_def)
  obtain s2 where s2: "handle cfg bad s1 = (Inr (), s2)" "es_streak s2 = 0"
    using bad_step [OF assms(1,5)] by blast
  show ?case using Suc.IH [OF s2(2)] s1 s2(1) by (simp add: handle_all_append)
qed simp

subsection \<open>Witnesses\<close>

definition demo_start :: "unit embed_state" where
  "demo_start = start_embedder (start_world empty_database 2000000 ())"

definition demo_once :: "unit embed_state" where
  "demo_once = snd (handle demo_config ''note'' demo_start)"

definition demo_twice :: "unit embed_state" where
  "demo_twice = snd (handle demo_config ''note'' demo_once)"

lemma demo_dim: "\<not> list_ex (\<lambda>v. length v \<noteq> EMBEDDING_DIM) [replicate 768 (0::real)]"
  by (simp add: EMBEDDING_DIM_def)

lemma demo_handle: "fst (handle demo_config ''note'' s) = Inr () \<and> es_streak (snd (handle demo_config ''note'' s)) = 0"
proof -
  have t: "ev_text demo_note = ''we look''" by (simp add: demo_note_def)
  have p: "parse_now demo_config ''note'' s = Inr demo_note" "attempts demo_config = 3"
    by (simp_all add: demo_config_def parse_now_def EMBED_ATTEMPTS_def)
  have c: "encode_attempts (encode demo_config) texts 0 3 w =
      (Inr (map (\<lambda>t. replicate 768 0) texts), w\<lparr>clock := clock w + 5, env := env w\<rparr>)" for texts w
    by (simp add: numeral_3_eq_3 call_service_def demo_config_def)
  show ?thesis
    by (simp add: handle_def p c Let_def index_vectors_def t demo_chunks EMBEDDING_DIM_def list_ex_iff
        records_for_event_def split: prod.split)
qed

theorem handling_keeps_receipts_witness: "index_inv (edb demo_once)"
proof -
  have "index_inv (edb demo_start)" by (simp add: demo_start_def start_embedder_def index_inv_empty)
  moreover have "handle demo_config ''note'' demo_start = (fst (handle demo_config ''note'' demo_start), demo_once)"
    by (simp add: demo_once_def)
  ultimately show ?thesis using handling_keeps_receipts by blast
qed

theorem redelivery_is_absorbed_witness: "undated (edb demo_twice) = undated (edb demo_once)"
proof (rule redelivery_is_absorbed)
  show "index_inv (edb demo_start)" by (simp add: demo_start_def start_embedder_def index_inv_empty)
  show "parse_now demo_config ''note'' demo_start = Inr demo_note" "parse_now demo_config ''note'' demo_once = Inr demo_note"
    by (simp_all add: demo_config_def parse_now_def)
  show "handle demo_config ''note'' demo_start = (Inr (), demo_once)" "es_streak demo_once = 0"
    using demo_handle [of demo_start] by (simp_all add: demo_once_def prod_eq_iff)
  show "handle demo_config ''note'' demo_once = (Inr (), demo_twice)" "es_streak demo_twice = 0"
    using demo_handle [of demo_once] by (simp_all add: demo_twice_def prod_eq_iff)
  show "call_service (encode demo_config) texts w = (Inr vs, w') \<Longrightarrow> vs = map (\<lambda>t. replicate 768 0) texts"
    for texts w vs w' by (auto simp: call_service_def demo_config_def)
qed

definition demo_poll :: poll_item where
  "demo_poll = \<lparr>stopped = False, clock_reading = 0,
     polled = Record \<lparr>m_topic = NORMALIZED_TOPIC, m_partition = 0, m_offset = 0, m_value = Inr ''note''\<rparr>\<rparr>"

theorem committed_messages_are_kept_witness:
  "embed_settled demo_config ''note'' (inner (snd (consume_loop (embedder_loop demo_config (Some 1) None DEFAULT_COMMIT_EVERY (\<lambda>m. Inr ())) [demo_poll]
      (start_embedder (start_world empty_database 2000000 ())) 0)))"
proof (rule committed_messages_are_kept)
  let ?m = "\<lparr>m_topic = NORMALIZED_TOPIC, m_partition = 0, m_offset = 0, m_value = Inr ''note''\<rparr> :: message"
  show "m_value ?m = Inr ''note''" by simp
  obtain s1 where h: "handle demo_config ''note'' (start_embedder (start_world empty_database 2000000 ())) = (Inr (), s1)"
    using demo_handle [of "start_embedder (start_world empty_database 2000000 ())"] by (metis prod.collapse)
  show "?m \<in> set (committed (snd (consume_loop (embedder_loop demo_config (Some 1) None DEFAULT_COMMIT_EVERY (\<lambda>m. Inr ())) [demo_poll]
      (start_embedder (start_world empty_database 2000000 ())) 0)))"
    by (simp add: consume_loop_def demo_poll_def start_loop_def full_def embedder_loop_def handle_record_def run_inner_def h
        run_hook_def note_handled_def Let_def DEFAULT_COMMIT_EVERY_def finish_def commit_unless_auto_def commit_pending_def
        flush_embedder_def)
qed

definition broken_config :: "unit embed_config" where
  "broken_config = demo_config\<lparr>encode := (\<lambda>texts e. (Inl TimeoutError, 5, e))\<rparr>"

theorem breaker_stops_the_drain_witness:
  "fst (handle_all broken_config (replicate 10 ''note'') demo_start) \<noteq> Inr ()"
proof -
  have "embeddable broken_config ''note''"
    by (simp add: embeddable_def broken_config_def demo_config_def) (simp add: demo_note_def demo_chunks)
  then have "list_all (embeddable broken_config) (replicate 10 ''note'')" by (simp add: list_all_iff)
  from breaker_stops_the_drain [OF _ this, of demo_start] show ?thesis
    by (simp add: broken_encoder_def broken_config_def demo_start_def start_embedder_def new_producer_def
        MAX_CONSECUTIVE_DEADLETTERS_def split: prod.splits)
qed

end
