(* ===== verification/ThreadAgent.thy ===== *)
theory ThreadAgent
  imports Investigate Timeframe Budget Heartbeat
begin

section \<open>Answers in Slack threads (\<^verbatim>\<open>freshet/autopilot/thread_agent.py\<close>)\<close>

text \<open>
  The questions people ask under a brief: which threads are open, which messages are questions,
  the answer over retrieved and own evidence, and the throttled poll. Slack's replies and posts,
  the model and the search engine are parameters; \<open>shows\<close> is \<^verbatim>\<open>str(exc)\<close>. The poll returns the
  replies it answered (their number is the code's result), so that the theorem can say that no
  reply is answered twice, over any number of polls.
\<close>

definition MAX_QUESTION_CHARS :: nat where
  "MAX_QUESTION_CHARS = 500"

definition POLL_INTERVAL_S :: real where
  "POLL_INTERVAL_S = 30"

definition RATE_LIMIT_BACKOFF_S :: real where
  "RATE_LIMIT_BACKOFF_S = 60"

definition THREAD_WINDOW_HOURS :: int where
  "THREAD_WINDOW_HOURS = 24"

definition ABSTAIN_REPLY :: string where
  "ABSTAIN_REPLY = ''I don'' @ [CHR 0x27] @ ''t have enough relevant indexed evidence to answer that confidently.''"

text \<open>A message of a thread; every Slack message has a timestamp, the other fields may be missing.\<close>

record reply =
  bot_id :: "string option"
  subtype :: "string option"
  reply_ts :: string
  reply_text :: "string option"

definition is_human_reply :: "reply \<Rightarrow> string \<Rightarrow> bool" where
  "is_human_reply m thread_ts \<longleftrightarrow>
     \<not> (truthy (bot_id m) \<or> truthy (subtype m)) \<and> reply_ts m \<noteq> thread_ts
     \<and> strip (case reply_text m of None \<Rightarrow> [] | Some t \<Rightarrow> t) \<noteq> []"

text \<open>Strings compare by code points.\<close>

fun str_le :: "string \<Rightarrow> string \<Rightarrow> bool" where
  "str_le [] ys = True"
| "str_le (x # xs) [] = False"
| "str_le (x # xs) (y # ys) = (code x < code y \<or> x = y \<and> str_le xs ys)"

definition str_max :: "string \<Rightarrow> string \<Rightarrow> string" where
  "str_max a b = (if str_le b a then a else b)"

definition with_window :: "string \<Rightarrow> string option \<Rightarrow> string" where
  "with_window answer window =
     (if truthy window
      then answer @ newline @ newline @ ''_time filter: '' @ (case window of None \<Rightarrow> [] | Some w \<Rightarrow> w)
             @ '' (inferred from your question)_''
      else answer)"

record 'e thread_agent =
  ta_engine :: search_engine
  ta_embedder :: "'e embedder"
  ta_composer :: "string \<Rightarrow> cited list \<Rightarrow> ('e world, string) call"
  ta_replies :: "('e, string \<times> string \<times> string, reply list) service"
  ta_post :: "('e, string \<times> string \<times> string, unit) service"
  ta_shows :: "exn \<Rightarrow> string"

definition thread_evidence :: "search_engine \<Rightarrow> string \<Rightarrow> nat \<Rightarrow> database \<Rightarrow> cited list" where
  "thread_evidence eng i limit d = take limit (map cited.truncate (fetch_incident_updates eng i None d))"

definition merge_evidence :: "cited list \<Rightarrow> hybrid_result \<Rightarrow> cited list" where
  "merge_evidence own r =
     (if abstained r then own
      else own @ filter (\<lambda>h. event_id h \<notin> event_id ` set own) (map cited.truncate (hits r)))"

definition answer_question ::
  "'e thread_agent \<Rightarrow> string \<Rightarrow> string option \<Rightarrow> ('e world, string) call" where
  "answer_question ta question0 incident_id w =
     (let question = take MAX_QUESTION_CHARS question0 in
      case infer_window question (clock w) of
        Inl e \<Rightarrow> (Inl e, w)
      | Inr win \<Rightarrow>
          let since = map_option fst win; window = map_option snd win in
          (case hybrid_search (ta_engine ta) (ta_embedder ta) question 6 None since None None w of
             (Inl e, w1) \<Rightarrow> (Inl e, w1)
           | (Inr r, w1) \<Rightarrow>
               let own = (if truthy incident_id
                          then thread_evidence (ta_engine ta) (the incident_id) 8 (db w1) else []);
                   evidence = merge_evidence own r
               in if evidence = [] then (Inr (with_window ABSTAIN_REPLY window), w1)
                  else (case ta_composer ta question evidence w1 of
                          (Inl e, w2) \<Rightarrow> (Inl e, w2)
                        | (Inr a, w2) \<Rightarrow> (Inr (with_window (if a = [] then NO_EVIDENCE else a) window), w2))))"

definition is_rate_limit :: "'e thread_agent \<Rightarrow> exn \<Rightarrow> bool" where
  "is_rate_limit ta e \<longleftrightarrow> contains ''ratelimited'' (ta_shows ta e) \<or> contains ''429'' (ta_shows ta e)"

subsection \<open>One poll\<close>

definition thread_open :: "time \<Rightarrow> incident \<Rightarrow> bool" where
  "thread_open now r \<longleftrightarrow> slack_ts r \<noteq> None
     \<and> (case brief_delivered_at r of None \<Rightarrow> False | Some t \<Rightarrow> now - hours THREAD_WINDOW_HOURS < t)"

text \<open>The thread of a row: incident, thread, last answered reply, channel.\<close>

definition open_threads :: "string \<Rightarrow> nat \<Rightarrow> time \<Rightarrow> incident list \<Rightarrow> (string \<times> string \<times> string option \<times> string) list" where
  "open_threads channel limit now t =
     map (\<lambda>r. (inc_id r, the (slack_ts r), thread_seen_ts r, the (coalesce (slack_channel_id r) (Some channel))))
       (take limit (sort_key (\<lambda>r. - the (brief_delivered_at r)) (filter (thread_open now) t)))"

definition mark_seen :: "string \<Rightarrow> string \<Rightarrow> 'e world \<Rightarrow> 'e world" where
  "mark_seen seen i w =
     w\<lparr>db := (db w)\<lparr>incidents := update_rows (\<lambda>r. inc_id r = i) (\<lambda>r. r\<lparr>thread_seen_ts := Some seen\<rparr>) (incidents (db w))\<rparr>\<rparr>"

text \<open>How a thread ends: on to the next, the whole poll is over (the budget), or a raise.\<close>

datatype thread_end = NextThread | PollOver | PollRaised exn

fun answer_messages ::
  "'e thread_agent \<Rightarrow> string \<Rightarrow> string \<Rightarrow> string \<Rightarrow> reply list \<Rightarrow> string option \<Rightarrow> 'e world
     \<Rightarrow> thread_end \<times> string list \<times> 'e world" where
  "answer_messages ta i thread channel [] seen w = (NextThread, [], w)"
| "answer_messages ta i thread channel (m # ms) seen w =
     (if \<not> is_human_reply m thread then answer_messages ta i thread channel ms seen w
      else if truthy seen \<and> str_le (reply_ts m) (the seen) then answer_messages ta i thread channel ms seen w
      else case answer_question ta (the (reply_text m)) (Some i) w of
        (Inl e, w1) \<Rightarrow> (if e = BudgetExhausted then PollOver else PollRaised e, [], w1)
      | (Inr a, w1) \<Rightarrow>
          (case call_service (ta_post ta) (channel, thread, a) w1 of
             (Inl e, w2) \<Rightarrow> (if is_rate_limit ta e then PollRaised RateLimited else NextThread, [], w2)
           | (Inr u, w2) \<Rightarrow>
               let newest = (if truthy seen then str_max (the seen) (reply_ts m) else reply_ts m)
               in (case answer_messages ta i thread channel ms (Some newest) (mark_seen newest i w2) of
                     (e, answered, w3) \<Rightarrow> (e, reply_ts m # answered, w3))))"

fun poll_rows ::
  "'e thread_agent \<Rightarrow> (string \<times> string \<times> string option \<times> string) list \<Rightarrow> 'e world
     \<Rightarrow> unit res \<times> (string \<times> string) list \<times> 'e world" where
  "poll_rows ta [] w = (Inr (), [], w)"
| "poll_rows ta ((i, thread, seen, channel) # rows) w =
     (case call_service (ta_replies ta) (channel, thread, if truthy seen then the seen else thread) w of
        (Inl e, w1) \<Rightarrow> if is_rate_limit ta e then (Inl RateLimited, [], w1) else poll_rows ta rows w1
      | (Inr ms, w1) \<Rightarrow>
          (case answer_messages ta i thread channel ms seen w1 of
             (PollOver, answered, w2) \<Rightarrow> (Inr (), map (Pair i) answered, w2)
           | (PollRaised e, answered, w2) \<Rightarrow> (Inl e, map (Pair i) answered, w2)
           | (NextThread, answered, w2) \<Rightarrow>
               (case poll_rows ta rows w2 of
                  (r, later, w3) \<Rightarrow> (r, map (Pair i) answered @ later, w3))))"

definition poll_threads ::
  "'e thread_agent \<Rightarrow> string \<Rightarrow> nat \<Rightarrow> 'e world \<Rightarrow> unit res \<times> (string \<times> string) list \<times> 'e world" where
  "poll_threads ta channel limit w =
     poll_rows ta (open_threads channel limit (clock w) (incidents (db w))) w"

definition thread_poller ::
  "'e thread_agent \<Rightarrow> string \<Rightarrow> clock_throttle \<Rightarrow> 'e world
     \<Rightarrow> unit res \<times> (string \<times> string) list \<times> clock_throttle \<times> 'e world" where
  "thread_poller ta channel th w =
     (if \<not> throttle_due th (monotonic w) then (Inr (), [], th, w)
      else let th1 = throttle_arm th (monotonic w) in
        case poll_threads ta channel 20 w of
          (Inr u, answered, w1) \<Rightarrow> (Inr (), answered, th1, w1)
        | (Inl e, answered, w1) \<Rightarrow>
            if e = RateLimited
            then (Inr (), answered, th1\<lparr>th_next := monotonic w1 + RATE_LIMIT_BACKOFF_S\<rparr>, w1)
            else (Inl e, answered, th1, w1))"

subsection \<open>Timestamps as strings\<close>

lemma code_inj: "code c = code d \<longleftrightarrow> c = d"
  by (simp add: code_def)

lemma str_le_refl [simp]: "str_le x x"
  by (induction x) auto

lemma str_le_total: "\<not> str_le x y \<Longrightarrow> str_le y x"
  by (induction x y rule: str_le.induct) (auto simp: not_less le_less code_inj)

lemma str_le_trans: "str_le x y \<Longrightarrow> str_le y z \<Longrightarrow> str_le x z"
proof (induction x y arbitrary: z rule: str_le.induct)
  case (3 x xs y ys)
  then show ?case by (cases z) auto
qed auto

definition later :: "string \<Rightarrow> string \<Rightarrow> bool" where
  "later a b \<longleftrightarrow> \<not> str_le b a"

lemma later_trans: "later a b \<Longrightarrow> later b c \<Longrightarrow> later a c"
  unfolding later_def using str_le_trans str_le_total by blast

lemma later_irrefl [simp]: "\<not> later a a"
  by (simp add: later_def)

text \<open>Above what a row says was answered last.\<close>

definition above_seen :: "string option \<Rightarrow> string \<Rightarrow> bool" where
  "above_seen seen x \<longleftrightarrow> (truthy seen \<longrightarrow> later (the seen) x)"

definition seen_of :: "string \<Rightarrow> incident list \<Rightarrow> string option" where
  "seen_of i t = (case row_of inc_id i t of None \<Rightarrow> None | Some r \<Rightarrow> thread_seen_ts r)"

definition last_answered :: "string option \<Rightarrow> string list \<Rightarrow> string option" where
  "last_answered seen xs = (if xs = [] then seen else Some (last xs))"

definition answers_ok :: "string option \<Rightarrow> string list \<Rightarrow> bool" where
  "answers_ok seen xs \<longleftrightarrow> sorted_wrt later xs \<and> (\<forall>x \<in> set xs. x \<noteq> [] \<and> above_seen seen x)"

lemma answers_ok_Nil [simp]: "answers_ok seen []"
  by (simp add: answers_ok_def)

lemma answers_ok_Cons:
  assumes "x \<noteq> []" and "above_seen seen x" and "answers_ok (Some x) xs"
  shows "answers_ok seen (x # xs)"
proof -
  have "later x y" if "y \<in> set xs" for y
    using that assms(1,3) by (auto simp: answers_ok_def above_seen_def truthy_def)
  moreover from this assms(2) have "above_seen seen y" if "y \<in> set xs" for y
    using that unfolding above_seen_def by (metis later_trans)
  ultimately show ?thesis using assms by (simp add: answers_ok_def)
qed

lemma answers_ok_append:
  assumes "answers_ok seen xs" and "answers_ok (last_answered seen xs) ys"
  shows "answers_ok seen (xs @ ys)"
proof (cases "xs = []")
  case True
  with assms show ?thesis by (simp add: last_answered_def)
next
  case False
  have ys: "later (last xs) y" if "y \<in> set ys" for y
    using that assms False by (auto simp: answers_ok_def above_seen_def last_answered_def truthy_def)
  have "x = last xs \<or> later x (last xs)" if "x \<in> set xs" for x
  proof -
    have "xs = butlast xs @ [last xs]" using False by simp
    moreover from this have "x \<in> set (butlast xs) \<or> x = last xs" using that by (metis in_set_conv_decomp_last append_Nil2 set_ConsD rotate1.simps(2) set_rotate1)
    ultimately show ?thesis using assms(1) unfolding answers_ok_def
      by (metis sorted_wrt_append list.set_intros(1))
  qed
  then have "later x y" if "x \<in> set xs" "y \<in> set ys" for x y
    using that ys by (metis later_trans)
  moreover have "above_seen seen y" if "y \<in> set ys" for y
    using ys [OF that] assms(1) last_in_set [OF False] unfolding answers_ok_def above_seen_def by (metis later_trans)
  ultimately show ?thesis using assms by (auto simp: answers_ok_def sorted_wrt_append)
qed

lemma answers_distinct: "answers_ok seen xs \<Longrightarrow> distinct xs"
  unfolding answers_ok_def by (induction xs arbitrary: seen) (auto simp: above_seen_def)

subsection \<open>No reply is answered twice\<close>

text \<open>Slack gives every reply a timestamp.\<close>

definition stamped :: "'e thread_agent \<Rightarrow> bool" where
  "stamped ta \<longleftrightarrow> (\<forall>q e ms. fst (ta_replies ta q e) = Inr ms \<longrightarrow> list_all (\<lambda>m. reply_ts m \<noteq> []) ms)"

text \<open>The answers of one incident within a poll.\<close>

definition answers_of :: "string \<Rightarrow> (string \<times> string) list \<Rightarrow> string list" where
  "answers_of i xs = map snd (filter (\<lambda>p. fst p = i) xs)"

lemma answers_of_append [simp]: "answers_of i (xs @ ys) = answers_of i xs @ answers_of i ys"
  by (simp add: answers_of_def)

lemma answers_of_pairs [simp]: "answers_of i (map (Pair j) xs) = (if i = j then xs else [])"
  by (simp add: answers_of_def comp_def)

lemma answers_of_Nil [simp]: "answers_of i [] = []"
  by (simp add: answers_of_def)

definition polled_ok :: "(string \<times> string) list \<Rightarrow> incident list \<Rightarrow> incident list \<Rightarrow> bool" where
  "polled_ok xs t t' \<longleftrightarrow> map inc_id t' = map inc_id t
     \<and> (\<forall>i. answers_ok (seen_of i t) (answers_of i xs) \<and> seen_of i t' = last_answered (seen_of i t) (answers_of i xs))"

lemma polled_ok_Nil: "polled_ok [] t t"
  by (simp add: polled_ok_def last_answered_def)

lemma polled_ok_append: "polled_ok xs t t1 \<Longrightarrow> polled_ok ys t1 t2 \<Longrightarrow> polled_ok (xs @ ys) t t2"
  unfolding polled_ok_def by (auto intro: answers_ok_append simp: last_answered_def)

lemma answers_distinct_all: "(\<And>i. distinct (answers_of i xs)) \<Longrightarrow> distinct xs"
proof (induction xs)
  case (Cons p xs)
  have "distinct (answers_of i xs)" for i
    using Cons.prems [of i] by (auto simp: answers_of_def split: if_splits)
  moreover have "snd p \<notin> set (answers_of (fst p) xs)"
    using Cons.prems [of "fst p"] by (simp add: answers_of_def)
  then have "p \<notin> set xs" by (auto simp: answers_of_def image_iff)
  ultimately show ?case using Cons.IH by simp
qed simp

text \<open>Any number of polls, with pauses between them; a poll that raises is followed by the next, as after
  a restart of the worker.\<close>

fun poll_many :: "'e thread_agent \<Rightarrow> string \<Rightarrow> time list \<Rightarrow> 'e world \<Rightarrow> (string \<times> string) list \<times> 'e world" where
  "poll_many ta channel [] w = ([], w)"
| "poll_many ta channel (pause # pauses) w =
     (case poll_threads ta channel 20 w of
        (r, xs, w1) \<Rightarrow> (case poll_many ta channel pauses (sleep pause w1) of (ys, w2) \<Rightarrow> (xs @ ys, w2)))"

locale thread_narrator = narrator compose for compose :: "string \<Rightarrow> cited list \<Rightarrow> ('e world, string) call" +
  fixes ta :: "'e thread_agent"
  assumes composer_of: "ta_composer ta = compose"
begin

lemma answer_question_frame:
  assumes "answer_question ta q i w = (r, w')"
  shows "incidents (db w') = incidents (db w)"
proof -
  have h: "db w1 = db w" if "hybrid_search eng emb q' k srv since flr ex w = (r1, w1)" for eng emb q' k srv since flr ex r1 w1
    using hybrid_search_frame [OF that] by simp
  have c: "incidents (db w2) = incidents (db w1)" if "compose q' ev w1 = (r2, w2)" for q' ev r2 w1 w2
    using composeD [OF that] by (simp add: same_but_budget_incidents)
  show ?thesis
    using assms by (auto simp: answer_question_def Let_def composer_of split: sum.splits prod.splits if_splits dest!: h c)
qed

lemma seen_mark:
  "row_of inc_id i (incidents (db w)) \<noteq> None \<Longrightarrow>
     seen_of j (incidents (db (mark_seen x i w))) = (if j = i then Some x else seen_of j (incidents (db w)))"
  by (auto simp: mark_seen_def seen_of_def row_of_update_rows split: option.splits dest: row_of_SomeD)

lemma ids_mark: "map inc_id (incidents (db (mark_seen x i w))) = map inc_id (incidents (db w))"
  by (simp add: mark_seen_def update_rows_def)

lemma row_of_ids: "map inc_id t = map inc_id t' \<Longrightarrow> row_of inc_id i t = None \<longleftrightarrow> row_of inc_id i t' = None"
  unfolding row_of_None_iff by (metis list.set_map)

lemma answer_messages_result:
  "answer_messages ta i thread chan ms seen w = (e, xs, w') \<Longrightarrow> row_of inc_id i (incidents (db w)) \<noteq> None \<Longrightarrow>
   seen_of i (incidents (db w)) = seen \<Longrightarrow> list_all (\<lambda>m. reply_ts m \<noteq> []) ms \<Longrightarrow>
     answers_ok seen xs \<and> map inc_id (incidents (db w')) = map inc_id (incidents (db w))
     \<and> (\<forall>j. seen_of j (incidents (db w')) = (if j = i then last_answered seen xs else seen_of j (incidents (db w))))"
proof (induction ms arbitrary: seen w e xs w')
  case Nil
  then show ?case by (auto simp: last_answered_def)
next
  case (Cons m ms)
  show ?case
  proof (cases "\<not> is_human_reply m thread \<or> truthy seen \<and> str_le (reply_ts m) (the seen)")
    case True
    then have "answer_messages ta i thread chan ms seen w = (e, xs, w')" using Cons.prems(1) by (auto split: if_splits)
    from Cons.IH [OF this] Cons.prems show ?thesis by simp
  next
    case False
    obtain r1 w1 where a: "answer_question ta (the (reply_text m)) (Some i) w = (r1, w1)" by force
    note f1 = answer_question_frame [OF a]
    show ?thesis
    proof (cases r1)
      case (Inl x)
      then have "xs = []" "w' = w1" using Cons.prems(1) False a by auto
      with f1 Cons.prems show ?thesis by (auto simp: last_answered_def)
    next
      case (Inr ans)
      obtain r2 w2 where p: "call_service (ta_post ta) (chan, thread, ans) w1 = (r2, w2)" by force
      have f2: "incidents (db w2) = incidents (db w)" using call_serviceD [OF p] f1 by simp
      show ?thesis
      proof (cases r2)
        case (Inl x)
        then have "xs = []" "w' = w2" using Cons.prems(1) False a Inr p by auto
        with f2 Cons.prems show ?thesis by (auto simp: last_answered_def)
      next
        case ok: (Inr u)
        have above: "above_seen seen (reply_ts m)" using False by (auto simp: above_seen_def later_def)
        then have newest: "(if truthy seen then str_max (the seen) (reply_ts m) else reply_ts m) = reply_ts m"
          by (auto simp: above_seen_def later_def str_max_def)
        let ?w = "mark_seen (reply_ts m) i w2"
        obtain e3 ys w3 where r: "answer_messages ta i thread chan ms (Some (reply_ts m)) ?w = (e3, ys, w3)"
          by (metis prod_cases3)
        then have xs: "xs = reply_ts m # ys" and w': "w' = w3"
          using Cons.prems(1) False a Inr p ok newest by (auto simp: Let_def)
        have row: "row_of inc_id i (incidents (db w2)) \<noteq> None" using f2 Cons.prems(2) by simp
        have "row_of inc_id i (incidents (db ?w)) \<noteq> None"
          using row row_of_ids [OF ids_mark, of i "reply_ts m" i w2] by simp
        from Cons.IH [OF r this] seen_mark [OF row] Cons.prems(4) have
          IH: "answers_ok (Some (reply_ts m)) ys" "map inc_id (incidents (db w3)) = map inc_id (incidents (db ?w))"
          "\<And>j. seen_of j (incidents (db w3)) = (if j = i then last_answered (Some (reply_ts m)) ys
             else seen_of j (incidents (db w)))"
          using f2 by simp_all
        have "answers_ok seen xs" unfolding xs
          by (rule answers_ok_Cons) (use Cons.prems(4) above IH(1) in simp_all)
        moreover have "last_answered (Some (reply_ts m)) ys = last_answered seen xs"
          by (simp add: xs last_answered_def)
        moreover have "map inc_id (incidents (db w3)) = map inc_id (incidents (db w))"
          using IH(2) f2 by (simp add: ids_mark)
        ultimately show ?thesis using IH(3) w' by simp
      qed
    qed
  qed
qed

lemma poll_rows_result:
  "poll_rows ta rows w = (r, xs, w') \<Longrightarrow> stamped ta \<Longrightarrow> distinct (map fst rows) \<Longrightarrow>
   (\<forall>(i, thread, seen, chan) \<in> set rows. row_of inc_id i (incidents (db w)) \<noteq> None \<and> seen_of i (incidents (db w)) = seen) \<Longrightarrow>
     polled_ok xs (incidents (db w)) (incidents (db w'))"
proof (induction rows arbitrary: w r xs w')
  case Nil
  then show ?case by (simp add: polled_ok_Nil)
next
  case (Cons row rows)
  obtain i thread seen chan where row: "row = (i, thread, seen, chan)" by (metis prod_cases4)
  obtain r1 w1 where c: "call_service (ta_replies ta) (chan, thread, if truthy seen then the seen else thread) w = (r1, w1)"
    by force
  have f1: "incidents (db w1) = incidents (db w)" using call_serviceD [OF c] by simp
  have rest: "distinct (map fst rows)" using Cons.prems(3) by simp
  show ?case
  proof (cases r1)
    case (Inl e)
    show ?thesis
    proof (cases "is_rate_limit ta e")
      case True
      with Cons.prems(1) row c Inl f1 show ?thesis by (auto simp: polled_ok_Nil)
    next
      case False
      with Cons.prems(1) row c Inl have "poll_rows ta rows w1 = (r, xs, w')" by simp
      from Cons.IH [OF this Cons.prems(2) rest] Cons.prems(4) f1 show ?thesis by auto
    qed
  next
    case (Inr ms)
    have "fst (ta_replies ta (chan, thread, if truthy seen then the seen else thread) (env w)) = Inr ms"
      using c Inr by (auto simp: call_service_def split: prod.splits)
    then have ts: "list_all (\<lambda>m. reply_ts m \<noteq> []) ms" using Cons.prems(2) unfolding stamped_def by blast
    obtain e ys w2 where m: "answer_messages ta i thread chan ms seen w1 = (e, ys, w2)" by (metis prod_cases3)
    have here: "row_of inc_id i (incidents (db w1)) \<noteq> None" "seen_of i (incidents (db w1)) = seen"
      using Cons.prems(4) row f1 by auto
    note am = answer_messages_result [OF m here ts]
    have own: "polled_ok (map (Pair i) ys) (incidents (db w)) (incidents (db w2))"
      using am f1 here(2) by (auto simp: polled_ok_def last_answered_def)
    show ?thesis
    proof (cases "e = NextThread")
      case False
      then have "xs = map (Pair i) ys" "w' = w2"
        using Cons.prems(1) row c Inr m by (cases e; auto)+
      with own show ?thesis by simp
    next
      case True
      obtain r3 zs w3 where z: "poll_rows ta rows w2 = (r3, zs, w3)" by (metis prod_cases3)
      have "\<forall>(i', thread', seen', chan') \<in> set rows.
          row_of inc_id i' (incidents (db w2)) \<noteq> None \<and> seen_of i' (incidents (db w2)) = seen'"
      proof (clarify, rule conjI)
        fix i' t' s' c' assume r: "(i', t', s', c') \<in> set rows"
        then have "i' \<noteq> i" using Cons.prems(3) row by (force simp: image_iff)
        have old: "seen_of i' (incidents (db w)) = s'" using r Cons.prems(4) by fastforce
        have "\<forall>j. seen_of j (incidents (db w2)) = (if j = i then last_answered seen ys else seen_of j (incidents (db w)))"
          using am unfolding f1 by blast
        from this [THEN spec, of i'] old \<open>i' \<noteq> i\<close> show "seen_of i' (incidents (db w2)) = s'" by presburger
        have "row_of inc_id i' (incidents (db w)) \<noteq> None" using r Cons.prems(4) by fastforce
        moreover have "map inc_id (incidents (db w2)) = map inc_id (incidents (db w))"
          using am unfolding f1 by blast
        ultimately show "row_of inc_id i' (incidents (db w2)) \<noteq> None"
          using row_of_ids [of "incidents (db w2)" "incidents (db w)" i'] by simp
      qed
      from Cons.IH [OF z Cons.prems(2) rest this] have "polled_ok zs (incidents (db w2)) (incidents (db w3))" .
      with own have "polled_ok (map (Pair i) ys @ zs) (incidents (db w)) (incidents (db w3))" by (rule polled_ok_append)
      moreover have "xs = map (Pair i) ys @ zs" "w' = w3" using Cons.prems(1) row c Inr m True z by auto
      ultimately show ?thesis by simp
    qed
  qed
qed

lemma open_threads_rows:
  assumes "keyed inc_id t"
  shows "distinct (map fst (open_threads channel limit now t))"
    and "\<forall>(i, thread, seen, chan) \<in> set (open_threads channel limit now t).
      row_of inc_id i t \<noteq> None \<and> seen_of i t = seen"
proof -
  let ?rs = "take limit (sort_key (\<lambda>r. - the (brief_delivered_at r)) (filter (thread_open now) t))"
  have "inj_on inc_id (set t)" "distinct t" using assms by (auto simp: keyed_def distinct_map)
  moreover have sub: "set ?rs \<subseteq> set t" by (auto dest: in_set_takeD)
  ultimately have "inj_on inc_id (set ?rs)" "distinct ?rs" by (auto intro: inj_on_subset distinct_take)
  then show "distinct (map fst (open_threads channel limit now t))"
    by (simp add: open_threads_def comp_def distinct_map)
  show "\<forall>(i, thread, seen, chan) \<in> set (open_threads channel limit now t). row_of inc_id i t \<noteq> None \<and> seen_of i t = seen"
  proof clarify
    fix i thread seen chan assume "(i, thread, seen, chan) \<in> set (open_threads channel limit now t)"
    then obtain r where r: "r \<in> set t" "inc_id r = i" "thread_seen_ts r = seen" using sub by (auto simp: open_threads_def)
    then have "row_of inc_id i t = Some r" using assms by (simp add: row_of_Some_iff)
    with r(3) show "row_of inc_id i t \<noteq> None \<and> seen_of i t = seen" by (simp add: seen_of_def)
  qed
qed

lemma poll_threads_result:
  assumes "stamped ta" and "keyed inc_id (incidents (db w))" and "poll_threads ta channel limit w = (r, xs, w')"
  shows "polled_ok xs (incidents (db w)) (incidents (db w'))"
  using poll_rows_result [OF _ assms(1) open_threads_rows(1) [OF assms(2)] open_threads_rows(2) [OF assms(2)]] assms(3)
  unfolding poll_threads_def by blast

lemma polled_keyed: "polled_ok xs t t' \<Longrightarrow> keyed inc_id t \<Longrightarrow> keyed inc_id t'"
  by (simp add: polled_ok_def keyed_def)

lemma poll_many_result:
  "stamped ta \<Longrightarrow> keyed inc_id (incidents (db w)) \<Longrightarrow>
     polled_ok (fst (poll_many ta channel pauses w)) (incidents (db w)) (incidents (db (snd (poll_many ta channel pauses w))))"
proof (induction pauses arbitrary: w)
  case Nil
  then show ?case by (simp add: polled_ok_Nil)
next
  case (Cons pause pauses)
  obtain r xs w1 where p: "poll_threads ta channel 20 w = (r, xs, w1)" by (metis prod_cases3)
  have first: "polled_ok xs (incidents (db w)) (incidents (db w1))" by (rule poll_threads_result [OF Cons.prems p])
  have "keyed inc_id (incidents (db (sleep pause w1)))" using polled_keyed [OF first Cons.prems(2)] by simp
  from Cons.IH [OF Cons.prems(1) this] have
    "polled_ok (fst (poll_many ta channel pauses (sleep pause w1))) (incidents (db w1))
       (incidents (db (snd (poll_many ta channel pauses (sleep pause w1)))))" by simp
  from polled_ok_append [OF first this] p show ?case by (simp add: case_prod_beta)
qed

lemma polls_distinct:
  assumes "stamped ta" and "keyed inc_id (incidents (db w))"
  shows "distinct (fst (poll_many ta channel pauses w))"
    and "sorted_wrt later (answers_of i (fst (poll_many ta channel pauses w)))"
proof -
  have ok: "answers_ok (seen_of i (incidents (db w))) (answers_of i (fst (poll_many ta channel pauses w)))" for i
    using poll_many_result [OF assms] by (simp add: polled_ok_def)
  show "distinct (fst (poll_many ta channel pauses w))" by (rule answers_distinct_all) (rule answers_distinct [OF ok])
  show "sorted_wrt later (answers_of i (fst (poll_many ta channel pauses w)))" using ok by (simp add: answers_ok_def)
qed

end

text \<open>The agent as the autopilot runs it, with the budgeted composer.\<close>

definition system_agent ::
  "search_engine \<Rightarrow> 'e embedder \<Rightarrow> ('e, string, response) service \<Rightarrow> int \<Rightarrow> int
     \<Rightarrow> ('e, string \<times> string \<times> string, reply list) service \<Rightarrow> ('e, string \<times> string \<times> string, unit) service
     \<Rightarrow> (exn \<Rightarrow> string) \<Rightarrow> 'e thread_agent" where
  "system_agent eng emb client hcap dcap replies post show_exn =
     \<lparr>ta_engine = eng, ta_embedder = emb, ta_composer = system_composer client hcap dcap, ta_replies = replies,
      ta_post = post, ta_shows = show_exn\<rparr>"

interpretation system_threads: thread_narrator "system_composer client hcap dcap"
    "system_agent eng emb client hcap dcap replies post show_exn"
  for client hcap dcap eng emb replies post show_exn
  by unfold_locales (simp add: system_agent_def)

text \<open>C21. No reply is answered twice: over any number of polls with the budgeted composer, whatever Slack, the model
  and the search do, and with a fresh start after every poll that raised, the answered replies are distinct;
  those of one thread are answered in the order of their timestamps.\<close>

theorem no_reply_is_answered_twice:
  assumes "stamped (system_agent eng emb client hcap dcap replies post show_exn)"
    and "keyed inc_id (incidents (db w))"
  shows "let answered = fst (poll_many (system_agent eng emb client hcap dcap replies post show_exn) channel pauses w)
    in distinct answered \<and> sorted_wrt later (map snd (filter (\<lambda>p. fst p = i) answered))"
  using assms unfolding Let_def answers_of_def [symmetric] by (simp add: system_threads.polls_distinct)

definition demo_replies :: "reply list" where
  "demo_replies = [\<lparr>bot_id = None, subtype = None, reply_ts = ''1'', reply_text = Some ''brief''\<rparr>,
     \<lparr>bot_id = None, subtype = None, reply_ts = ''2'', reply_text = Some ''status?''\<rparr>]"

definition demo_agent :: "unit thread_agent" where
  "demo_agent = system_agent toy_engine toy_embedder (\<lambda>m e. (Inl TimeoutError, 0, e)) 0 0
     (\<lambda>q e. (Inr demo_replies, 0, e)) (\<lambda>q e. (Inr (), 0, e)) (\<lambda>e. [])"

definition demo_thread :: database where
  "demo_thread = empty_database\<lparr>incidents := [\<lparr>inc_id = ''api:x'', inc_title = ''api'', opened_at = 0, resolved_at = None,
     resolution_summary = None, brief_as_of = None, primary_service = Some ''api'', auto_opened = True,
     briefed_at = Some 0, postmortem_at = None, slack_ts = Some ''1'', brief_delivered_at = Some 0,
     postmortem_delivered_at = None, progress_at = None, progress_delivered_at = None, progress_needed = False,
     brief_due_at = None, postmortem_needed = False, thread_seen_ts = None, slack_channel_id = None\<rparr>]\<rparr>"

theorem no_reply_is_answered_twice_witness:
  "let answered = fst (poll_many demo_agent ''C'' [0, 0] (start_world demo_thread 0 ()))
   in distinct answered \<and> sorted_wrt later (map snd (filter (\<lambda>p. fst p = ''api:x'') answered))"
proof -
  have "stamped demo_agent"
    by (simp add: stamped_def demo_agent_def system_agent_def demo_replies_def)
  moreover have "keyed inc_id (incidents (db (start_world demo_thread 0 ())))"
    by (simp add: demo_thread_def keyed_def)
  ultimately show ?thesis
    unfolding demo_agent_def by (rule no_reply_is_answered_twice)
qed

end
