(* ===== verification/Autopilot.thy ===== *)
theory Autopilot
  imports Delivery ThreadAgent Kafka Embedding
begin

section \<open>The autopilot process (\<^verbatim>\<open>freshet/autopilot/__main__.py\<close>)\<close>

text \<open>
  The process around the handler: what one Kafka record does, the idle tick (a throttled drain,
  the answers in Slack threads, the housekeeping), the loop configuration and the start-up. The
  property joins the loop's offsets with the handler's promises: whatever the broker will not deliver again was
  either set aside, by what the clock and the table said when it was handled, or has its intent on record
  in the database, however the process ends.
\<close>

record 'e agent =
  ag_world :: "'e world"
  ag_drain :: clock_throttle
  ag_threads :: clock_throttle
  ag_maintain :: clock_throttle

type_synonym 'e thread_poll = "clock_throttle \<Rightarrow> 'e world \<Rightarrow> unit res \<times> clock_throttle \<times> 'e world"

text \<open>\<^verbatim>\<open>_handle\<close>; \<open>loads\<close> is \<^verbatim>\<open>json.loads\<close>.\<close>

definition agent_handle :: "'e autopilot \<Rightarrow> time \<Rightarrow> (string \<Rightarrow> json res) \<Rightarrow> string \<Rightarrow> ('e agent, unit) call" where
  "agent_handle ap window loads raw s =
     (case handle_and_drain ap window (loads raw) (ag_world s) of
        (r, w) \<Rightarrow> unit_of (r, s\<lparr>ag_world := w\<rparr>))"

definition budget_prune :: "('e world, unit) call" where
  "budget_prune w = (Inr (), w\<lparr>db := prune_budget (clock w) (db w)\<rparr>)"

definition poll_if :: "'e thread_poll option \<Rightarrow> ('e agent, unit) call" where
  "poll_if threads s =
     (case threads of
        None \<Rightarrow> (Inr (), s)
      | Some poll \<Rightarrow>
          (case poll (ag_threads s) (ag_world s) of (r, th, w) \<Rightarrow> (r, s\<lparr>ag_threads := th, ag_world := w\<rparr>)))"

definition maintain_now :: "'e agent \<Rightarrow> 'e agent" where
  "maintain_now s =
     (case maintenance (ag_maintain s) (Some budget_prune) (ag_world s) of
        (passed, th, w) \<Rightarrow> s\<lparr>ag_maintain := th, ag_world := w\<rparr>)"

text \<open>\<^verbatim>\<open>_idle\<close>.\<close>

definition agent_idle :: "'e autopilot \<Rightarrow> 'e thread_poll option \<Rightarrow> ('e agent, unit) call" where
  "agent_idle ap threads s =
     (case throttled_drain ap (ag_drain s) (ag_world s) of
        (Inl e, th, w) \<Rightarrow> (Inl e, s\<lparr>ag_drain := th, ag_world := w\<rparr>)
      | (Inr n, th, w) \<Rightarrow>
          (case poll_if threads (s\<lparr>ag_drain := th, ag_world := w\<rparr>) of
             (Inl e, s1) \<Rightarrow> (Inl e, s1)
           | (Inr u, s1) \<Rightarrow> (Inr (), maintain_now s1)))"

definition agent_loop ::
  "'e autopilot \<Rightarrow> time \<Rightarrow> (string \<Rightarrow> json res) \<Rightarrow> 'e thread_poll option \<Rightarrow> nat option \<Rightarrow> (message \<Rightarrow> unit res)
     \<Rightarrow> 'e agent loop_config" where
  "agent_loop ap window loads threads limit broker =
     \<lparr>handler = agent_handle ap window loads, max_messages = limit, auto_commit = False, idle_timeout = None,
      commit_every = 1, pre_commit = None, idle_hook = Some (agent_idle ap threads), after_handler = None,
      broker_commit = (\<lambda>m s. (broker m, s))\<rparr>"

definition start_agent :: "'e world \<Rightarrow> 'e agent" where
  "start_agent w = \<lparr>ag_world = w, ag_drain = new_throttle DRAIN_INTERVAL_S,
     ag_threads = new_throttle POLL_INTERVAL_S, ag_maintain = new_throttle MAINTENANCE_INTERVAL_S\<rparr>"

subsection \<open>Start-up\<close>

text \<open>What the process finds outside: the environment variables, the model API, Slack, the search engine and the
  broker.\<close>

record 'e surroundings =
  api_key :: "string option"
  slack_bot_token :: "string option"
  slack_channel_var :: "string option"
  slack_sdk :: bool
  model_api :: "('e, string, response) service"
  slack_posts :: "('e, post_request, post_response option) service"
  slack_replies :: "('e, string \<times> string \<times> string, reply list) service"
  slack_answers :: "('e, string \<times> string \<times> string, unit) service"
  exn_text :: "exn \<Rightarrow> string"
  search :: search_engine
  backends :: "'e embedding_env"
  json_loads :: "string \<Rightarrow> json res"
  commit_offset :: "message \<Rightarrow> unit res"
  hour_cap :: int
  day_cap :: int

definition thread_agent_of :: "'e surroundings \<Rightarrow> 'e embedder \<Rightarrow> 'e thread_agent" where
  "thread_agent_of sur emb =
     system_agent (search sur) emb (model_api sur) (hour_cap sur) (day_cap sur) (slack_replies sur)
       (slack_answers sur) (exn_text sur)"

definition thread_hook :: "'e thread_agent \<Rightarrow> string \<Rightarrow> 'e thread_poll" where
  "thread_hook ta chan th w = (case thread_poller ta chan th w of (r, answered, th1, w1) \<Rightarrow> (r, th1, w1))"

text \<open>\<^verbatim>\<open>threads\<close> is bound only when Slack is configured; its replies are read through the SDK.\<close>

definition threads_of :: "'e surroundings \<Rightarrow> string \<Rightarrow> 'e embedder \<Rightarrow> 'e thread_poll option res" where
  "threads_of sur kind emb =
     (if kind = ''slack'' \<and> truthy (slack_bot_token sur) then
        if slack_sdk sur then
          Inr (Some (thread_hook (thread_agent_of sur emb)
            (case slack_channel_var sur of None \<Rightarrow> ''#general'' | Some c \<Rightarrow> c)))
        else Inl ImportError
      else Inr None)"

definition make_composer :: "'e surroundings \<Rightarrow> unit res" where
  "make_composer sur = (if truthy (api_key sur) then Inr () else Inl RuntimeError)"

text \<open>\<^verbatim>\<open>main\<close> up to the loop: what it builds, in the order it builds it. The test of the key after
  \<^verbatim>\<open>check_index_model\<close> is never the one that stops it.\<close>

definition build_agent ::
  "'e surroundings \<Rightarrow> string \<Rightarrow> string \<Rightarrow> database \<Rightarrow> ('e autopilot \<times> 'e thread_poll option) res" where
  "build_agent sur embedder_kind kind d =
     and_then (make_embedder (backends sur) embedder_kind) (\<lambda>emb.
     and_then (make_composer sur) (\<lambda>u.
     and_then (make_sink kind (slack_bot_token sur) (slack_channel_var sur) (slack_sdk sur) (slack_posts sur)) (\<lambda>sink.
     and_then (check_index_model emb d) (\<lambda>warning.
     if \<not> truthy (api_key sur) then Inl (OtherError ''SystemExit'')
     else and_then (threads_of sur kind emb) (\<lambda>threads.
       Inr (autopilot_with (search sur) (model_api sur) (hour_cap sur) (day_cap sur) (Some emb) sink, threads))))))"

lemma missing_key_is_a_runtime_error:
  "make_embedder (backends sur) embedder_kind = Inr emb \<Longrightarrow> \<not> truthy (api_key sur) \<Longrightarrow>
     build_agent sur embedder_kind kind d = Inl RuntimeError"
  by (simp add: build_agent_def make_composer_def)

definition autopilot_main ::
  "'e surroundings \<Rightarrow> string \<Rightarrow> string \<Rightarrow> time \<Rightarrow> nat option \<Rightarrow> poll_item list \<Rightarrow> 'e world \<Rightarrow> time
     \<Rightarrow> (loop_end \<times> 'e agent loop_state) res" where
  "autopilot_main sur embedder_kind kind window limit is w now =
     and_then (build_agent sur embedder_kind kind (db w)) (\<lambda>(ap, threads).
       Inr (consume_loop (agent_loop ap window (json_loads sur) threads limit (commit_offset sur)) is (start_agent w) now))"


subsection \<open>Answering questions moves on\<close>

context thread_narrator begin

lemma answer_question_moves:
  assumes "answer_question ta q i w = (r, w')"
  shows "moves_on w w'"
proof -
  have h: "clock w \<le> clock w1" if "hybrid_search eng emb q' k srv since flr ex w = (r1, w1)" for eng emb q' k srv since flr ex r1 w1
    using hybrid_search_frame [OF that] by simp
  have c: "clock w1 \<le> clock w2" if "compose q' ev w1 = (r2, w2)" for q' ev r2 w1 w2
    using composeD [OF that] by simp
  have "clock w \<le> clock w'"
    using assms by (auto simp: answer_question_def Let_def composer_of split: sum.splits prod.splits if_splits dest!: h c)
  with answer_question_frame [OF assms] show ?thesis by (simp add: moves_on_def)
qed

lemma mark_seen_moves: "moves_on w (mark_seen x i w)"
proof -
  have "evolves t (update_rows (\<lambda>r. inc_id r = i) (\<lambda>r. r\<lparr>thread_seen_ts := Some x\<rparr>) t)" for t
    by (rule evolves_update) (simp_all add: evolution_simps)
  then show ?thesis by (simp add: mark_seen_def moves_on_def)
qed

lemma service_moves: "call_service svc q w = (r, w') \<Longrightarrow> moves_on w w'"
  by (auto simp: moves_on_def dest: call_serviceD)

lemma answer_messages_moves: "answer_messages ta i thread chan ms seen w = (e, xs, w') \<Longrightarrow> moves_on w w'"
proof (induction ms arbitrary: seen w e xs w')
  case (Cons m ms)
  show ?case
  proof (cases "\<not> is_human_reply m thread \<or> truthy seen \<and> str_le (reply_ts m) (the seen)")
    case True
    then have "answer_messages ta i thread chan ms seen w = (e, xs, w')" using Cons.prems by (auto split: if_splits)
    then show ?thesis by (rule Cons.IH)
  next
    case False
    obtain r1 w1 where a: "answer_question ta (the (reply_text m)) (Some i) w = (r1, w1)" by force
    note m1 = answer_question_moves [OF a]
    show ?thesis
    proof (cases r1)
      case (Inl x)
      with Cons.prems False a m1 show ?thesis by auto
    next
      case (Inr ans)
      obtain r2 w2 where p: "call_service (ta_post ta) (chan, thread, ans) w1 = (r2, w2)" by force
      have m2: "moves_on w w2" using m1 service_moves [OF p] by (rule moves_on_trans)
      show ?thesis
      proof (cases r2)
        case (Inl x)
        with Cons.prems False a Inr p m2 show ?thesis by auto
      next
        case ok: (Inr u)
        define newest where "newest = (if truthy seen then str_max (the seen) (reply_ts m) else reply_ts m)"
        obtain e3 ys w3 where r: "answer_messages ta i thread chan ms (Some newest) (mark_seen newest i w2) = (e3, ys, w3)"
          by (metis prod_cases3)
        then have "w' = w3" using Cons.prems False a Inr p ok by (auto simp: Let_def newest_def)
        with moves_on_trans [OF m2 moves_on_trans [OF mark_seen_moves Cons.IH [OF r]]] show ?thesis by simp
      qed
    qed
  qed
qed simp

lemma poll_rows_moves: "poll_rows ta opened w = (r, xs, w') \<Longrightarrow> moves_on w w'"
proof (induction opened arbitrary: w r xs w')
  case (Cons row opened)
  obtain i thread seen chan where row: "row = (i, thread, seen, chan)" by (metis prod_cases4)
  obtain r1 w1 where c: "call_service (ta_replies ta) (chan, thread, if truthy seen then the seen else thread) w = (r1, w1)"
    by force
  note m1 = service_moves [OF c]
  show ?case
  proof (cases r1)
    case (Inl e)
    with Cons row c m1 show ?thesis by (auto split: if_splits intro: moves_on_trans [OF m1])
  next
    case (Inr ms)
    obtain e ys w2 where a: "answer_messages ta i thread chan ms seen w1 = (e, ys, w2)" by (metis prod_cases3)
    have m2: "moves_on w w2" using m1 answer_messages_moves [OF a] by (rule moves_on_trans)
    have "w' = w2 \<or> (\<exists>r3 zs. poll_rows ta opened w2 = (r3, zs, w'))"
      using Cons.prems row c Inr a by (cases e) (auto split: prod.splits)
    with m2 Cons.IH show ?thesis by (auto intro: moves_on_trans)
  qed
qed simp

lemma thread_poller_moves: "thread_poller ta chan th w = (r, xs, th', w') \<Longrightarrow> moves_on w w'"
  by (auto simp: thread_poller_def poll_threads_def Let_def split: if_splits prod.splits sum.splits dest: poll_rows_moves)

end


subsection \<open>What a handled message has left\<close>

text \<open>
  The events the handler sets aside in the world in which it finds them: an \<^verbatim>\<open>opened\<close> event that is more than a
  day old, an \<^verbatim>\<open>in_progress\<close> or \<^verbatim>\<open>resolved\<close> event from before its incident's opening, a \<^verbatim>\<open>resolved\<close> event of an
  incident that is not in the table, an event without an incident, an unknown type.
\<close>

definition set_aside :: "lifecycle_event \<Rightarrow> 'e world \<Rightarrow> bool" where
  "set_aside ev w \<longleftrightarrow>
     (if le_type ev = ''opened'' then
        le_incident ev = [] \<or> MAX_BRIEF_AGE_S < total_seconds (clock w - event_ts (clock w) ev)
      else if le_type ev = ''in_progress'' then le_incident ev = [] \<or> predates_opening (clock w) ev (db w)
      else if le_type ev = ''resolved'' then
        row_of inc_id (le_incident ev) (incidents (db w)) = None \<or> predates_opening (clock w) ev (db w)
      else True)"

text \<open>The debts of any other event, each owed or already paid.\<close>

definition debts_kept :: "lifecycle_event \<Rightarrow> 'e world \<Rightarrow> bool" where
  "debts_kept ev w \<longleftrightarrow>
     (case row_of inc_id (le_incident ev) (incidents (db w)) of
        None \<Rightarrow> False
      | Some q \<Rightarrow>
          if le_type ev = ''opened'' then owed_or_done (brief_due_at q \<noteq> None) (brief_delivered_at q)
          else if le_type ev = ''in_progress'' then
            owed_or_done (brief_due_at q \<noteq> None) (brief_delivered_at q)
            \<and> owed_or_done (progress_needed q) (progress_delivered_at q)
          else resolved_at q \<noteq> None \<and> owed_or_done (postmortem_needed q) (postmortem_delivered_at q))"

definition agent_inv :: "'e world \<Rightarrow> 'e agent \<Rightarrow> bool" where
  "agent_inv w0 s \<longleftrightarrow> keyed inc_id (incidents (db w0)) \<and> moves_on w0 (ag_world s)"

text \<open>For the loop: the message was handled in some world of the run, from which this one has moved on.\<close>

definition message_kept :: "(string \<Rightarrow> json res) \<Rightarrow> 'e world \<Rightarrow> string \<Rightarrow> 'e agent \<Rightarrow> bool" where
  "message_kept loads w0 raw s \<longleftrightarrow>
     (\<exists>ev w1. and_then (loads raw) event_of_json = Inr ev \<and> moves_on w0 w1 \<and> moves_on w1 (ag_world s)
        \<and> (set_aside ev w1 \<or> debts_kept ev (ag_world s)))"

lemma debts_kept_moves:
  assumes m: "moves_on w w'" and k: "keyed inc_id (incidents (db w))" and kept: "debts_kept ev w"
  shows "debts_kept ev w'"
proof -
  obtain q where q: "row_of inc_id (le_incident ev) (incidents (db w)) = Some q"
    using kept by (auto simp: debts_kept_def split: option.splits)
  from m k q obtain q' where q': "row_of inc_id (le_incident ev) (incidents (db w')) = Some q'" and ev: "row_evolves q q'"
    unfolding moves_on_def evolves_def by blast
  have "owed_or_done (brief_due_at q \<noteq> None) (brief_delivered_at q)
      \<Longrightarrow> owed_or_done (brief_due_at q' \<noteq> None) (brief_delivered_at q')"
    using ev by (cases "brief_delivered_at q'") (auto simp: owed_or_done_def row_evolves_def stays_def)
  moreover have "owed_or_done (progress_needed q) (progress_delivered_at q)
      \<Longrightarrow> owed_or_done (progress_needed q') (progress_delivered_at q')"
    and "owed_or_done (postmortem_needed q) (postmortem_delivered_at q)
      \<Longrightarrow> owed_or_done (postmortem_needed q') (postmortem_delivered_at q')"
    and "resolved_at q \<noteq> None \<Longrightarrow> resolved_at q' \<noteq> None"
    using ev by (auto simp: owed_or_done_def row_evolves_def stays_def)
  ultimately show ?thesis using kept q q' by (simp add: debts_kept_def split: if_splits)
qed

lemma agent_inv_moves: "agent_inv w0 s \<Longrightarrow> moves_on (ag_world s) (ag_world s') \<Longrightarrow> agent_inv w0 s'"
  by (auto simp: agent_inv_def intro: moves_on_trans)

lemma agent_inv_keyed: "agent_inv w0 s \<Longrightarrow> keyed inc_id (incidents (db (ag_world s)))"
  by (auto simp: agent_inv_def moves_on_def evolves_keyed)

lemma message_kept_moves:
  "moves_on (ag_world s) (ag_world s') \<Longrightarrow> agent_inv w0 s \<Longrightarrow> message_kept loads w0 raw s
     \<Longrightarrow> message_kept loads w0 raw s'"
  unfolding message_kept_def by (meson agent_inv_keyed debts_kept_moves moves_on_trans)

locale autopilot_process = autopilot_run compose ap
  for compose :: "string \<Rightarrow> update list \<Rightarrow> ('e world, string) call" and ap :: "'e autopilot" +
  fixes threads :: "'e thread_poll option"
  assumes poll_moves: "threads = Some poll \<Longrightarrow> poll th w = (r, th', w') \<Longrightarrow> moves_on w w'"
begin

lemma agent_handle_moves:
  "agent_handle ap window loads raw s = (r, s') \<Longrightarrow> moves_on (ag_world s) (ag_world s')"
  by (auto simp: agent_handle_def unit_of_def split: prod.splits sum.splits dest: handle_and_drain_moves)

lemma maintain_moves: "moves_on (ag_world s) (ag_world (maintain_now s))"
proof -
  have "incidents (prune_budget now d) = incidents d" "incidents (prune_log now d) = incidents d" for now d
    by (simp_all add: prune_budget_def prune_log_def)
  then show ?thesis
    by (auto simp: maintain_now_def maintenance_def budget_prune_def Let_def moves_on_def split: if_splits)
qed

lemma poll_if_moves: "poll_if threads s = (r, s') \<Longrightarrow> moves_on (ag_world s) (ag_world s')"
  by (auto simp: poll_if_def split: option.splits prod.splits dest: poll_moves)

lemma agent_idle_moves:
  assumes "agent_idle ap threads s = (r, s')"
  shows "moves_on (ag_world s) (ag_world s')"
proof -
  obtain r1 th w where d: "throttled_drain ap (ag_drain s) (ag_world s) = (r1, th, w)" by (metis prod_cases3)
  have m1: "moves_on (ag_world s) w"
    using d by (auto simp: throttled_drain_def split: if_splits prod.splits dest: drain_due_briefs_moves)
  define s0 where "s0 = s\<lparr>ag_drain := th, ag_world := w\<rparr>"
  obtain r2 s1 where p: "poll_if threads s0 = (r2, s1)" by force
  have m2: "moves_on (ag_world s) (ag_world s1)"
    using m1 poll_if_moves [OF p] by (simp add: s0_def moves_on_trans)
  have "ag_world s' \<in> {w, ag_world s1, ag_world (maintain_now s1)}"
    using assms d p unfolding agent_idle_def by (cases r1; cases r2) (auto simp: s0_def)
  with m1 m2 moves_on_trans [OF m2 maintain_moves] show ?thesis by auto
qed

lemma handled_event_debts:
  assumes h: "handle_event ap window ev w = (Inr (), w')" and k: "keyed inc_id (incidents (db w))"
    and concerned: "\<not> set_aside ev w"
  shows "debts_kept ev w'"
proof -
  consider (opened) "le_type ev = ''opened''" | (progress) "le_type ev = ''in_progress''" | (resolved) "le_type ev = ''resolved''"
    using concerned unfolding set_aside_def by presburger
  then show ?thesis
  proof cases
    case opened
    then have "w' = ensure_and_schedule window ev w"
      using h concerned by (auto simp: handle_event_def handle_opened_def set_aside_def)
    with scheduled_row [of ev window w] concerned opened show ?thesis by (auto simp: set_aside_def debts_kept_def)
  next
    case progress
    then have "handle_in_progress ap window ev w = (Inr (), w')" using h by (simp add: handle_event_def)
    from progress_intent [OF this k] concerned progress show ?thesis by (auto simp: set_aside_def debts_kept_def)
  next
    case resolved
    then have run: "handle_resolved ap ev w = (Inr (), w')" using h by (simp add: handle_event_def)
    from concerned resolved obtain q where q: "row_of inc_id (le_incident ev) (incidents (db w)) = Some q"
      and "\<not> predates_opening (clock w) ev (db w)" by (auto simp: set_aside_def)
    from resolution_intent [OF run k this(2) q] resolved show ?thesis by (auto simp: debts_kept_def)
  qed
qed

lemma handled_message_debts:
  assumes run: "agent_handle ap window loads raw s = (Inr (), s')" and k: "keyed inc_id (incidents (db (ag_world s)))"
  shows "\<exists>v ev. loads raw = Inr v \<and> event_of_json v = Inr ev \<and> (set_aside ev (ag_world s) \<or> debts_kept ev (ag_world s'))"
proof -
  obtain n where d: "handle_and_drain ap window (loads raw) (ag_world s) = (Inr n, ag_world s')"
    using run by (auto simp: agent_handle_def unit_of_def split: prod.splits sum.splits)
  then obtain w1 where h: "handle_lifecycle ap window (loads raw) (ag_world s) = (Inr (), w1)"
    and rest: "drain_due_briefs ap DRAIN_LIMIT INDEX_TIMEOUT w1 = (Inr n, ag_world s')"
    by (auto simp: handle_and_drain_def split: prod.splits sum.splits)
  then obtain v ev where v: "loads raw = Inr v" "event_of_json v = Inr ev"
    and e: "handle_event ap window ev (ag_world s) = (Inr (), w1)"
    by (auto simp: handle_lifecycle_def split: sum.splits)
  have k1: "keyed inc_id (incidents (db w1))"
    using handle_lifecycle_moves [OF h] k evolves_keyed by (auto simp: moves_on_def)
  from handled_event_debts [OF e k] debts_kept_moves [OF drain_due_briefs_moves [OF rest] k1] v show ?thesis by blast
qed

lemma handled_message_kept:
  assumes run: "agent_handle ap window loads raw s = (Inr (), s')" and inv: "agent_inv w0 s"
  shows "message_kept loads w0 raw s'"
  using handled_message_debts [OF run agent_inv_keyed [OF inv]] inv agent_handle_moves [OF run]
  by (auto simp: message_kept_def agent_inv_def and_then_def)

end

sublocale autopilot_process \<subseteq> loop: output_first "agent_loop ap window loads threads limit broker"
  "agent_inv w0" "message_kept loads w0" "message_kept loads w0" "\<lambda>s. (Inr (), s)"
  for window loads limit broker w0
proof unfold_locales
  show "broker_commit (agent_loop ap window loads threads limit broker) m s = (r, s') \<Longrightarrow> agent_inv w0 s
      \<Longrightarrow> agent_inv w0 s'" for m s s' r by (auto simp: agent_loop_def)
qed (auto simp: agent_loop_def intro: handled_message_kept message_kept_moves [OF agent_handle_moves]
    message_kept_moves [OF agent_idle_moves] agent_inv_moves [OF _ agent_handle_moves]
    agent_inv_moves [OF _ agent_idle_moves])

context autopilot_process begin

text \<open>A record the broker will not deliver again, seen at the moment the loop came to it.\<close>

lemma past_message_debts:
  assumes run: "consume_loop (agent_loop ap window loads threads limit broker) is (start_agent w) now = (e, s)"
    and key: "keyed inc_id (incidents (db w))" and order: "offsets_in_order (records_of is)"
    and k: "k < length is" "polled (is ! k) = Record m" and past: "committed_past s m"
  shows "\<exists>s1 raw v ev. consume_loop (agent_loop ap window loads threads limit broker) (take k is) (start_agent w) now = (Polling, s1)
    \<and> m_value m = Inr raw \<and> loads raw = Inr v \<and> event_of_json v = Inr ev
    \<and> (set_aside ev (ag_world (inner s1)) \<or> debts_kept ev (ag_world (inner s)))"
proof -
  note reached = committed_past_reached [OF run order k past]
  obtain s1 raw x where first: "consume_loop (agent_loop ap window loads threads limit broker) (take k is) (start_agent w) now
      = (Polling, s1)" and raw: "m_value m = Inr raw"
    and hd: "handler (agent_loop ap window loads threads limit broker) raw (inner s1) = (Inr (), x)"
    by (rule loop.handled_at [OF run k reached])
  from hd have h: "agent_handle ap window loads raw (inner s1) = (Inr (), x)" by (simp add: agent_loop_def)
  have start: "agent_inv w (start_agent w)" using key by (simp add: agent_inv_def start_agent_def)
  have k1: "keyed inc_id (incidents (db (ag_world (inner s1))))"
    using agent_inv_keyed [OF loop.loop_keeps_inv [OF start]] first by (metis snd_conv)
  from handled_message_debts [OF h k1] obtain v ev where v: "loads raw = Inr v" "event_of_json v = Inr ev"
    and d: "set_aside ev (ag_world (inner s1)) \<or> debts_kept ev (ag_world x)" by blast
  have kx: "keyed inc_id (incidents (db (ag_world x)))"
    using agent_handle_moves [OF h] k1 evolves_keyed by (auto simp: moves_on_def)
  have "agent_inv (ag_world x) (inner s)"
  proof (rule loop.handled_at [OF run k reached, where ?w0.0 = "ag_world x"])
    fix s1' raw' x'
    assume "consume_loop (agent_loop ap window loads threads limit broker) (take k is) (start_agent w) now = (Polling, s1')"
      "m_value m = Inr raw'" "handler (agent_loop ap window loads threads limit broker) raw' (inner s1') = (Inr (), x')"
      and keep: "agent_inv (ag_world x) x' \<Longrightarrow> agent_inv (ag_world x) (inner s)"
    with first raw h have "x' = x" by (simp add: agent_loop_def)
    with keep kx show ?thesis by (simp add: agent_inv_def)
  qed
  then have "debts_kept ev (ag_world x) \<Longrightarrow> debts_kept ev (ag_world (inner s))"
    using debts_kept_moves kx by (auto simp: agent_inv_def)
  with first raw v d show ?thesis by blast
qed

end


subsection \<open>The process as it is started\<close>

lemma thread_hook_moves:
  "thread_hook (system_agent eng emb client hcap dcap replies post show_exn) chan th w = (r, th', w') \<Longrightarrow> moves_on w w'"
  by (auto simp: thread_hook_def split: prod.splits dest: system_threads.thread_poller_moves)

interpretation slack_process: autopilot_process "system_composer client hcap dcap"
    "autopilot_with eng client hcap dcap emb (slack_sink cfg slack_client)"
    "map_option (thread_hook (system_agent eng' emb' client hcap dcap replies post show_exn)) chan"
  for client hcap dcap eng emb cfg slack_client eng' emb' replies post show_exn chan
  by unfold_locales (auto simp: thread_hook_moves)

interpretation stdout_process: autopilot_process "system_composer client hcap dcap"
    "autopilot_with eng client hcap dcap emb stdout_sink"
    "map_option (thread_hook (system_agent eng' emb' client hcap dcap replies post show_exn)) chan"
  for client hcap dcap eng emb eng' emb' replies post show_exn chan
  by unfold_locales (auto simp: thread_hook_moves)

lemma build_agentE:
  assumes "build_agent sur embedder_kind kind d = Inr (ap, threads)"
  obtains (terminal) emb chan where
    "ap = autopilot_with (search sur) (model_api sur) (hour_cap sur) (day_cap sur) (Some emb) stdout_sink"
    "threads = map_option (thread_hook (thread_agent_of sur emb)) chan"
  | (slack) emb cfg chan where
    "ap = autopilot_with (search sur) (model_api sur) (hour_cap sur) (day_cap sur) (Some emb) (slack_sink cfg (slack_posts sur))"
    "threads = map_option (thread_hook (thread_agent_of sur emb)) chan"
proof -
  from assms obtain emb sink where
    s: "make_sink kind (slack_bot_token sur) (slack_channel_var sur) (slack_sdk sur) (slack_posts sur) = Inr sink"
    and ap: "ap = autopilot_with (search sur) (model_api sur) (hour_cap sur) (day_cap sur) (Some emb) sink"
    and t: "threads_of sur kind emb = Inr threads"
    by (auto simp: build_agent_def and_then_Inr_iff split: if_splits)
  have "threads = None \<or> (\<exists>chan. threads = Some (thread_hook (thread_agent_of sur emb) chan))"
    using t by (auto simp: threads_of_def split: if_splits)
  then obtain chan where "threads = map_option (thread_hook (thread_agent_of sur emb)) chan"
    by (metis option.simps(8,9))
  with ap s show thesis by (cases rule: make_sink_cases [OF s]) (use terminal slack in blast)+
qed

lemma autopilot_mainD:
  assumes "autopilot_main sur embedder_kind kind window limit is w now = Inr (e, s)" and "keyed inc_id (incidents (db w))"
  shows "agent_inv w (inner s)"
    and "offsets_in_order (records_of is) \<Longrightarrow> k < length is \<Longrightarrow> polled (is ! k) = Record m \<Longrightarrow> committed_past s m \<Longrightarrow>
      \<exists>s1 raw v ev. autopilot_main sur embedder_kind kind window limit (take k is) w now = Inr (Polling, s1)
        \<and> m_value m = Inr raw \<and> json_loads sur raw = Inr v \<and> event_of_json v = Inr ev
        \<and> (set_aside ev (ag_world (inner s1)) \<or> debts_kept ev (ag_world (inner s)))"
proof -
  from assms(1) obtain ap threads where b: "build_agent sur embedder_kind kind (db w) = Inr (ap, threads)"
    and run: "consume_loop (agent_loop ap window (json_loads sur) threads limit (commit_offset sur)) is (start_agent w) now = (e, s)"
    by (auto simp: autopilot_main_def and_then_Inr_iff)
  have start: "agent_inv w (start_agent w)" using assms(2) by (simp add: agent_inv_def start_agent_def)
  have main: "autopilot_main sur embedder_kind kind window limit js w now
      = Inr (consume_loop (agent_loop ap window (json_loads sur) threads limit (commit_offset sur)) js (start_agent w) now)" for js
    by (simp add: autopilot_main_def b)
  from b show "agent_inv w (inner s)"
  proof (cases rule: build_agentE)
    case (terminal emb chan)
    from stdout_process.loop.loop_keeps_inv [OF start] run show ?thesis
      unfolding terminal(1) terminal(2) [unfolded thread_agent_of_def] by (metis snd_conv)
  next
    case (slack emb cfg chan)
    from slack_process.loop.loop_keeps_inv [OF start] run show ?thesis
      unfolding slack(1) slack(2) [unfolded thread_agent_of_def] by (metis snd_conv)
  qed
  assume past: "offsets_in_order (records_of is)" "k < length is" "polled (is ! k) = Record m" "committed_past s m"
  from b show "\<exists>s1 raw v ev. autopilot_main sur embedder_kind kind window limit (take k is) w now = Inr (Polling, s1)
        \<and> m_value m = Inr raw \<and> json_loads sur raw = Inr v \<and> event_of_json v = Inr ev
        \<and> (set_aside ev (ag_world (inner s1)) \<or> debts_kept ev (ag_world (inner s)))"
  proof (cases rule: build_agentE)
    case (terminal emb chan)
    note t = terminal(1) terminal(2) [unfolded thread_agent_of_def]
    from stdout_process.past_message_debts [OF run [unfolded t] assms(2) past] show ?thesis by (simp add: main t)
  next
    case (slack emb cfg chan)
    note t = slack(1) slack(2) [unfolded thread_agent_of_def]
    from slack_process.past_message_debts [OF run [unfolded t] assms(2) past] show ?thesis by (simp add: main t)
  qed
qed

text \<open>C2. The process never forgets: whatever it polls and whatever the database clock, the model, Slack, the search
  and the broker do, however the loop ends, the incident table evolves from the start of the process to its end. A
  delivered brief, update or postmortem keeps its delivery stamp and its thread, an owed one stays owed until it is
  delivered, a resolution keeps its time, and the row invariant is preserved.\<close>

theorem process_never_forgets:
  assumes "autopilot_main sur embedder_kind kind window limit is w now = Inr (e, s)" and "keyed inc_id (incidents (db w))"
  shows "evolves (incidents (db w)) (incidents (db (ag_world (inner s)))) \<and> clock w \<le> clock (ag_world (inner s))"
  using autopilot_mainD(1) [OF assms] by (simp add: agent_inv_def moves_on_def)

text \<open>C3. No committed event is lost. Take any record the broker will not deliver again, because the process has
  committed its offset or a later one of its partition. The process was still polling when it came to the record,
  and read a lifecycle event from it. Unless the event was set aside by what the clock and the table said at that
  moment (an \<^verbatim>\<open>opened\<close> event more than a day old, an event from before the opening of its incident, a resolution of an
  incident not in the table, an event of no incident or of an unknown type), its intent is on record in the
  database at the end, however the process ends: the brief of an \<^verbatim>\<open>opened\<close> event, brief and progress update of an
  \<^verbatim>\<open>in_progress\<close> event, the resolution and the postmortem of a \<^verbatim>\<open>resolved\<close> event are owed or delivered.\<close>

theorem committed_intents_are_durable:
  assumes "autopilot_main sur embedder_kind kind window limit is w now = Inr (e, s)" and "keyed inc_id (incidents (db w))"
    and "offsets_in_order (records_of is)" and "k < length is" "polled (is ! k) = Record m" and "committed_past s m"
  shows "\<exists>s1 raw v ev. autopilot_main sur embedder_kind kind window limit (take k is) w now = Inr (Polling, s1)
    \<and> m_value m = Inr raw \<and> json_loads sur raw = Inr v \<and> event_of_json v = Inr ev
    \<and> (set_aside ev (ag_world (inner s1)) \<or> debts_kept ev (ag_world (inner s)))"
  by (rule autopilot_mainD(2) [OF assms])

text \<open>A keyless rehearsal: an \<^verbatim>\<open>opened\<close> event on an empty database, with the stub embedder and the terminal.\<close>

definition demo_surroundings :: "json \<Rightarrow> unit surroundings" where
  "demo_surroundings v = \<lparr>api_key = Some ''key'', slack_bot_token = None, slack_channel_var = None, slack_sdk = False,
     model_api = demo_client, slack_posts = (\<lambda>q e. (Inl TimeoutError, 0, e)), slack_replies = (\<lambda>q e. (Inr [], 0, e)),
     slack_answers = (\<lambda>q e. (Inr (), 0, e)), exn_text = (\<lambda>e. []), search = toy_engine,
     backends = \<lparr>stub_numbers = (\<lambda>t i. 0), import_transformers = Inl ImportError,
     load_transformer = (\<lambda>n. Inl ImportError), int_of = (\<lambda>s. None), torch_threads = None, has_torch = False, float_of = (\<lambda>t. None),
       floor_override = None, centered_override = None\<rparr>,
     json_loads = (\<lambda>raw. Inr v), commit_offset = (\<lambda>m. Inr ()),
     hour_cap = 1, day_cap = 1\<rparr>"

definition demo_start :: "unit world" where
  "demo_start = start_world empty_database 0 ()"

lemma drain_nothing:
  "due_incidents limit (clock w) (incidents (db w)) = [] \<Longrightarrow> pending_followups (ap_engine ap) limit (clock w) (incidents (db w)) = []
     \<Longrightarrow> drain_due_briefs ap limit timeout w = (Inr 0, w)"
  by (simp add: drain_due_briefs_def drain_pending_followups_def)

definition demo_scheduled :: "lifecycle_event \<Rightarrow> unit world" where
  "demo_scheduled ev = ensure_and_schedule 60000000 ev demo_start"

lemma demo_opened:
  assumes "event_of_json v = Inr ev" and "le_type ev = ''opened''" and "event_ts 0 ev = 0" and "le_incident ev \<noteq> []"
  shows "handle_and_drain ap 60000000 (Inr v) demo_start = (Inr 0, demo_scheduled ev)"
proof -
  let ?w = "demo_scheduled ev"
  have "incidents (db ?w) = [(new_incident (le_incident ev) (le_title ev) 0 (le_service ev))\<lparr>brief_due_at := Some 60000000\<rparr>]"
    and "clock ?w = 0"
    by (simp_all add: demo_scheduled_def ensure_and_schedule_def demo_start_def ensure_incident_def ensure_incident_rows_def
        schedule_brief_def update_rows_def new_incident_def empty_database_def assms(3,4))
  then have "drain_due_briefs ap DRAIN_LIMIT INDEX_TIMEOUT ?w = (Inr 0, ?w)"
    by (intro drain_nothing) (simp_all add: due_incidents_def due_now_def pending_followups_def followup_pending_def
        new_incident_def)
  moreover have "handle_event ap 60000000 ev demo_start = (Inr (), ?w)"
    using assms(2,3) by (simp add: handle_event_def handle_opened_def demo_scheduled_def demo_start_def MAX_BRIEF_AGE_S_def
        total_seconds_def)
  ultimately show ?thesis by (simp add: handle_and_drain_def handle_lifecycle_def assms(1))
qed

lemma demo_run:
  assumes "event_of_json v = Inr ev" and "le_type ev = ''opened''" and "event_ts 0 ev = 0" and "le_incident ev \<noteq> []"
  shows "\<exists>s. autopilot_main (demo_surroundings v) ''stub'' ''stdout'' 60000000 None [demo_record 0 0 ''x''] demo_start 0
       = Inr (Polling, s)
     \<and> committed s = [\<lparr>m_topic = ''t'', m_partition = 0, m_offset = 0, m_value = Inr ''x''\<rparr>]
     \<and> ag_world (inner s) = demo_scheduled ev"
proof -
  let ?ap = "autopilot_with toy_engine demo_client 1 1 (Some (stub_embedder (\<lambda>t i. 0))) stdout_sink"
  have b: "build_agent (demo_surroundings v) ''stub'' ''stdout'' (db demo_start) = Inr (?ap, None)"
    by (simp add: build_agent_def demo_surroundings_def make_embedder_def base_embedder_def override_with_def
        make_composer_def make_sink_def check_index_model_def threads_of_def truthy_def demo_start_def stub_embedder_def
        empty_database_def)
  have h: "agent_handle ?ap 60000000 (json_loads (demo_surroundings v)) ''x'' (start_agent demo_start)
      = (Inr (), (start_agent demo_start)\<lparr>ag_world := demo_scheduled ev\<rparr>)"
    using demo_opened [OF assms, of ?ap] by (simp add: agent_handle_def demo_surroundings_def start_agent_def unit_of_def)
  show ?thesis
    by (simp add: autopilot_main_def b consume_loop_def start_loop_def demo_record_def agent_loop_def full_def
        handle_record_def run_inner_def h run_hook_def note_handled_def commit_pending_def partition_of_def)
      (simp add: demo_surroundings_def full_def)
qed

lemma demo_event_opened:
  "event_of_json (json_of_event (demo_event ''opened'')) = Inr (demo_event ''opened'')"
  "le_type (demo_event ''opened'') = ''opened''" "event_ts 0 (demo_event ''opened'') = 0" "le_incident (demo_event ''opened'') \<noteq> []"
  by (simp_all add: event_roundtrip demo_event_now) (simp add: demo_event_def)

theorem process_never_forgets_witness:
  "\<exists>s. autopilot_main (demo_surroundings (json_of_event (demo_event ''opened''))) ''stub'' ''stdout'' 60000000 None
       [demo_record 0 0 ''x''] demo_start 0 = Inr (Polling, s) \<and> evolves (incidents (db demo_start)) (incidents (db (ag_world (inner s))))"
proof -
  obtain s where s: "autopilot_main (demo_surroundings (json_of_event (demo_event ''opened''))) ''stub'' ''stdout'' 60000000 None [demo_record 0 0 ''x'']
      demo_start 0 = Inr (Polling, s)" using demo_run [OF demo_event_opened] by blast
  have "keyed inc_id (incidents (db demo_start))" by (simp add: demo_start_def empty_database_def keyed_def)
  from process_never_forgets [OF s this] s show ?thesis by blast
qed

lemma demo_first: "autopilot_main (demo_surroundings v) ''stub'' ''stdout'' 60000000 None [] demo_start 0 = Inr (Polling, s1)
    \<Longrightarrow> ag_world (inner s1) = demo_start"
  by (auto simp: autopilot_main_def and_then_Inr_iff consume_loop_def start_loop_def agent_loop_def full_def start_agent_def)

theorem committed_intents_are_durable_witness:
  "\<exists>s ev. autopilot_main (demo_surroundings (json_of_event (demo_event ''opened''))) ''stub'' ''stdout'' 60000000 None
       [demo_record 0 0 ''x''] demo_start 0 = Inr (Polling, s) \<and> committed s \<noteq> [] \<and> le_type ev = ''opened''
     \<and> \<not> set_aside ev demo_start \<and> debts_kept ev (ag_world (inner s))"
proof -
  let ?sur = "demo_surroundings (json_of_event (demo_event ''opened''))" and ?is = "[demo_record 0 0 ''x'']"
  let ?m = "\<lparr>m_topic = ''t'', m_partition = 0, m_offset = 0, m_value = Inr ''x''\<rparr>"
  obtain s where s: "autopilot_main ?sur ''stub'' ''stdout'' 60000000 None ?is demo_start 0 = Inr (Polling, s)"
    and c: "committed s = [?m]" using demo_run [OF demo_event_opened] by blast
  have k: "keyed inc_id (incidents (db demo_start))" by (simp add: demo_start_def empty_database_def keyed_def)
  have "offsets_in_order (records_of ?is)" "polled (?is ! 0) = Record ?m" "0 < length ?is"
    by (simp_all add: offsets_in_order_def records_of_def demo_record_def)
  moreover have "committed_past s ?m" by (simp add: committed_past_def c)
  ultimately obtain s1 v ev where first: "autopilot_main ?sur ''stub'' ''stdout'' 60000000 None (take 0 ?is) demo_start 0 = Inr (Polling, s1)"
    and v: "json_loads ?sur ''x'' = Inr v" "event_of_json v = Inr ev"
    and d: "set_aside ev (ag_world (inner s1)) \<or> debts_kept ev (ag_world (inner s))"
    using committed_intents_are_durable [OF s k, of 0 ?m] by auto
  have ev: "ev = demo_event ''opened''" using v by (auto simp: demo_surroundings_def event_roundtrip)
  have "ag_world (inner s1) = demo_start" using demo_first [of _ s1] first by simp
  moreover have "\<not> set_aside ev demo_start"
    by (simp add: ev set_aside_def demo_start_def demo_event_now) (simp add: demo_event_def MAX_BRIEF_AGE_S_def total_seconds_def)
  moreover have "le_type ev = ''opened''" by (simp add: ev demo_event_def)
  ultimately show ?thesis using s c d by (metis list.distinct(1))
qed

end
