(* ===== verification/Statuspage.thy ===== *)
theory Statuspage
  imports Regex Iso
begin

section \<open>Status feeds (\<^verbatim>\<open>freshet/ingest/statuspage.py\<close>, \<^verbatim>\<open>freshet/ingest/sources.py\<close>)\<close>

text \<open>
  An Atom feed becomes a list of incident updates. The XML parser, \<^verbatim>\<open>html.unescape\<close>, the hash and
  the machine's time zone (for a stamp without offset) are parameters; the patterns are those of
  the code. The theorems: every update is dated by its own stamp or by the entry's revision, and
  keeps its identity when updates with other markers are put before it. The lemmas at the end
  evaluate the year rule where it goes wrong.
\<close>

record incident_update =
  iu_provider :: string
  iu_incident :: string
  iu_update :: string
  iu_created_at :: time
  iu_status :: string
  iu_text :: string
  iu_name :: string
  iu_body_digest :: string

definition dedup_key :: "incident_update \<Rightarrow> string" where
  "dedup_key u = iu_provider u @ '':'' @ iu_incident u @ '':'' @ iu_update u"

definition partition_key :: "incident_update \<Rightarrow> string" where
  "partition_key u = iu_provider u @ '':'' @ iu_incident u"

subsection \<open>Patterns\<close>

definition word_char :: re where
  "word_char = Cls is_word"

definition digit :: re where
  "digit = Cls is_digit"

definition INCIDENT_ID :: re where
  "INCIDENT_ID = alt [seq [lit_i ''incident/'', Grp 1 (some word_char)],
     seq [lit_i ''/incident'', opt (lit_i ''s''), lit_i ''/'',
          Grp 2 (some (Cls (\<lambda>c. is_word c \<or> c = CHR ''-'')))]]"

definition TAG :: re where
  "TAG = seq [ch CHR ''<'', some (none_of ''>''), ch CHR ''>'']"

definition SPACES :: re where
  "SPACES = some space"

definition UPDATE_BLOCK :: re where
  "UPDATE_BLOCK = seq [lit_i ''<small>'', Grp 1 (many_lazy any_char), lit_i ''</small>'', many space,
     lit_i ''<br'', many space, opt (ch CHR ''/''), ch CHR ''>'', many space,
     lit_i ''<strong>'', Grp 2 (many_lazy any_char), lit_i ''</strong>'', many space, ch CHR ''-'', many space,
     Grp 3 (many_lazy any_char), alt [Ahead True (lit_i ''<small>''), TextEnd]]"

definition STATUS_LINE :: re where
  "STATUS_LINE = seq [lit_i ''<b>'', many space, lit_i ''status:'', many space,
     Grp 1 (some_lazy (none_of ''<'')), many space, lit_i ''</b>'', Grp 2 (many any_char)]"

definition COMPONENTS :: re where
  "COMPONENTS = seq [lit_i ''<b>'', many space, lit_i ''affected components'', many space, lit_i ''</b>'',
     many any_char, TextEnd]"

definition WHEN :: re where
  "WHEN = seq [Grp 1 (seq [Cls is_upper, Cls is_lower, Cls is_lower]), some space,
     Grp 2 (Cat digit (opt digit)), many space, ch CHR '','', many space,
     Grp 3 (Cat digit (opt digit)), ch CHR '':'', Grp 4 (Cat digit digit), many space,
     Grp 5 (seq [Cls is_upper, Cls is_upper, upto_times 3 (Cls is_upper)])]"

definition FALLBACK_MAX_CHARS :: nat where
  "FALLBACK_MAX_CHARS = 2000"

definition MONTHS :: "(string \<times> int) list" where
  "MONTHS = [(''Jan'', 1), (''Feb'', 2), (''Mar'', 3), (''Apr'', 4), (''May'', 5), (''Jun'', 6),
     (''Jul'', 7), (''Aug'', 8), (''Sep'', 9), (''Oct'', 10), (''Nov'', 11), (''Dec'', 12)]"

definition OFFSETS :: "(string \<times> int) list" where
  "OFFSETS = [(''UTC'', 0), (''GMT'', 0), (''UT'', 0), (''Z'', 0), (''EST'', -5), (''EDT'', -4), (''CDT'', -5),
     (''MST'', -7), (''MDT'', -6), (''PST'', -8), (''PDT'', -7), (''CET'', 1), (''CEST'', 2), (''EET'', 2),
     (''EEST'', 3), (''WET'', 0), (''WEST'', 1), (''JST'', 9), (''KST'', 9), (''HKT'', 8), (''SGT'', 8), (''MSK'', 3),
     (''AEST'', 10), (''AEDT'', 11), (''AWST'', 8), (''NZST'', 12), (''NZDT'', 13), (''BRT'', -3), (''ART'', -3)]"

subsection \<open>Stamps\<close>

definition plain :: "string \<Rightarrow> string" where
  "plain markup = strip (sub SPACES (\<lambda>w g. '' '') (sub TAG (\<lambda>w g. '' '') markup))"

text \<open>\<^verbatim>\<open>.astimezone(UTC)\<close> reads a stamp without offset in the machine's time zone; only \<^verbatim>\<open>ValueError\<close>
  and \<^verbatim>\<open>AttributeError\<close> are caught.\<close>

definition parse_iso :: "(time \<Rightarrow> time res) \<Rightarrow> string \<Rightarrow> time option res" where
  "parse_iso machine_zone raw =
     (case fromisoformat (replace_z raw) of
        None \<Rightarrow> Inr None
      | Some (t, offset) \<Rightarrow>
          (case (case offset of Some o' \<Rightarrow> checked_time (t - o') | None \<Rightarrow> machine_zone t) of
             Inr t' \<Rightarrow> Inr (Some t')
           | Inl e \<Rightarrow> if e = ValueError \<or> e = AttributeError then Inr None else Inl e))"

text \<open>A stamp after its own revision means the year rolled over; one too old is dropped.\<close>

definition not_too_old :: "time \<Rightarrow> time \<Rightarrow> time option res" where
  "not_too_old anchor stamp =
     and_then (checked_time (anchor - days 400)) (\<lambda>oldest. Inr (if stamp < oldest then None else Some stamp))"

definition resolve_year :: "int \<Rightarrow> int \<Rightarrow> int \<Rightarrow> int \<Rightarrow> int \<Rightarrow> time \<Rightarrow> time option res" where
  "resolve_year mon day hour minute off anchor =
     (case make_time (year_of anchor) mon day hour minute off of
        None \<Rightarrow> Inr None
      | Some local_stamp \<Rightarrow>
          and_then (checked_time local_stamp) (\<lambda>stamp.
          and_then (checked_time (anchor + minutes 1)) (\<lambda>newest.
          if newest < stamp
          then (case make_time (year_of anchor - 1) mon day hour minute off of
                  None \<Rightarrow> Inr None
                | Some local_stamp' \<Rightarrow> and_then (checked_time local_stamp') (not_too_old anchor))
          else not_too_old anchor stamp)))"

definition parse_when :: "string \<Rightarrow> time \<Rightarrow> time option res" where
  "parse_when raw anchor =
     (case search WHEN (plain raw) of
        None \<Rightarrow> Inr None
      | Some (before, m, g, after) \<Rightarrow>
          (case (map_of MONTHS (group_text 1 g), map_of OFFSETS (group_text 5 g)) of
             (Some mon, Some off) \<Rightarrow>
               resolve_year mon (int_of_digits (group_text 2 g)) (int_of_digits (group_text 3 g))
                 (int_of_digits (group_text 4 g)) off anchor
           | _ \<Rightarrow> Inr None))"

subsection \<open>Entries\<close>

text \<open>The texts of an entry's children; \<^verbatim>\<open>_text\<close> strips, a missing child is empty.\<close>

record atom_entry =
  e_id :: "string option"
  e_updated :: "string option"
  e_published :: "string option"
  e_title :: "string option"
  e_content :: "string option"

definition node_text :: "string option \<Rightarrow> string" where
  "node_text t = (case t of None \<Rightarrow> [] | Some s \<Rightarrow> strip s)"

record feed_lib =
  xml_entries :: "string \<Rightarrow> atom_entry list option"
  unescape :: "string \<Rightarrow> string"
  blake :: "string \<Rightarrow> string"
  machine_zone :: "time \<Rightarrow> time res"

definition make_update ::
  "feed_lib \<Rightarrow> string \<Rightarrow> string \<Rightarrow> string \<Rightarrow> time \<Rightarrow> string \<Rightarrow> string \<Rightarrow> string \<Rightarrow> incident_update" where
  "make_update lib provider i name stamp status body identity =
     \<lparr>iu_provider = provider, iu_incident = i, iu_update = blake lib identity, iu_created_at = stamp,
      iu_status = status, iu_text = body, iu_name = name, iu_body_digest = blake lib body\<rparr>"

text \<open>\<^verbatim>\<open>seen_markers\<close>: the ordinal of a marker among the equal ones before it.\<close>

definition next_ordinal :: "string \<Rightarrow> (string \<times> nat) list \<Rightarrow> nat" where
  "next_ordinal marker seen = (case map_of seen marker of None \<Rightarrow> 0 | Some n \<Rightarrow> Suc n)"

definition identity_of :: "string \<Rightarrow> nat \<Rightarrow> string" where
  "identity_of marker ordinal = marker @ ''#'' @ digits_of ordinal"

definition block_update ::
  "feed_lib \<Rightarrow> string \<Rightarrow> string \<Rightarrow> string \<Rightarrow> time \<Rightarrow> groups \<Rightarrow> nat \<Rightarrow> incident_update res" where
  "block_update lib provider i name revised g n =
     and_then (parse_when (group_text 1 g) revised) (\<lambda>stamp.
       Inr (make_update lib provider i name (case stamp of None \<Rightarrow> revised | Some t \<Rightarrow> t)
         (lower (plain (group_text 2 g))) (plain (group_text 3 g)) (identity_of (plain (group_text 1 g)) n)))"

fun block_updates ::
  "feed_lib \<Rightarrow> string \<Rightarrow> string \<Rightarrow> string \<Rightarrow> time \<Rightarrow> (string \<times> nat) list \<Rightarrow> groups list
     \<Rightarrow> incident_update list res" where
  "block_updates lib provider i name revised seen [] = Inr []"
| "block_updates lib provider i name revised seen (g # gs) =
     (let marker = plain (group_text 1 g); n = next_ordinal marker seen in
      and_then (block_update lib provider i name revised g n) (\<lambda>u.
      and_then (block_updates lib provider i name revised ((marker, n) # seen) gs) (\<lambda>us. Inr (u # us))))"

definition incident_id_of :: "string \<Rightarrow> string option" where
  "incident_id_of s =
     (case search INCIDENT_ID s of
        None \<Rightarrow> None
      | Some (b, m, g, a) \<Rightarrow> Some (if group_text 1 g = [] then group_text 2 g else group_text 1 g))"

definition revised_of :: "feed_lib \<Rightarrow> atom_entry \<Rightarrow> time option res" where
  "revised_of lib e = parse_iso (machine_zone lib)
     (if node_text (e_updated e) = [] then node_text (e_published e) else node_text (e_updated e))"

text \<open>The three shapes of content: update blocks, one status line, prose.\<close>

definition single_update ::
  "feed_lib \<Rightarrow> string \<Rightarrow> string \<Rightarrow> string \<Rightarrow> time \<Rightarrow> string \<Rightarrow> incident_update list" where
  "single_update lib provider i name revised markup =
     (case search STATUS_LINE markup of
        Some (b, m, g, a) \<Rightarrow>
          let status = lower (plain (group_text 1 g))
          in [make_update lib provider i name revised status
                (plain (sub COMPONENTS (\<lambda>w h. []) (group_text 2 g))) (''status:'' @ status)]
      | None \<Rightarrow>
          let prose = strip (take FALLBACK_MAX_CHARS (plain markup))
          in if prose = [] then []
             else [make_update lib provider i name revised ''unknown'' prose
                     (''revision:'' @ isoformat revised)])"

definition entry_updates :: "feed_lib \<Rightarrow> string \<Rightarrow> atom_entry \<Rightarrow> incident_update list res" where
  "entry_updates lib provider e =
     and_then (revised_of lib e) (\<lambda>revision.
       case (incident_id_of (node_text (e_id e)), revision) of
         (Some i, Some revised) \<Rightarrow>
           let name = node_text (e_title e);
               markup = unescape lib (node_text (e_content e));
               blocks = map snd (findall UPDATE_BLOCK markup)
           in if blocks \<noteq> [] then block_updates lib provider i name revised [] blocks
              else Inr (single_update lib provider i name revised markup)
       | _ \<Rightarrow> Inr [])"

fun all_updates :: "feed_lib \<Rightarrow> string \<Rightarrow> atom_entry list \<Rightarrow> incident_update list res" where
  "all_updates lib provider [] = Inr []"
| "all_updates lib provider (e # es) =
     and_then (entry_updates lib provider e) (\<lambda>us.
     and_then (all_updates lib provider es) (\<lambda>vs. Inr (us @ vs)))"

text \<open>\<^verbatim>\<open>feed[:2048].upper()\<close> contains the declaration: its letters may be of either case.\<close>

definition has_doctype :: "string \<Rightarrow> bool" where
  "has_doctype feed \<longleftrightarrow> contains ''<!doctype'' (lower (take 2048 feed))"

definition parse_atom :: "feed_lib \<Rightarrow> string \<Rightarrow> string \<Rightarrow> incident_update list res" where
  "parse_atom lib provider feed =
     (if has_doctype feed then Inr []
      else case xml_entries lib feed of
        None \<Rightarrow> Inr []
      | Some es \<Rightarrow> and_then (all_updates lib provider es) (\<lambda>us. Inr (sort_key iu_created_at us)))"

subsection \<open>Dates\<close>

text \<open>A date of the year before the anchor's is at most the zone's distance after the anchor.\<close>

lemma last_year_before:
  assumes "make_time (year_of anchor - 1) m d h mi off = Some t" and "-8 \<le> off"
  shows "t \<le> anchor + hours 8"
proof -
  note t = make_timeD [OF assms(1)]
  have "to_ordinal (year_of anchor - 1) m d \<le> days_before_year (year_of anchor)"
    using ordinal_in_year(2) [of "year_of anchor - 1" m d] t by simp
  with t year_starts_before [of anchor] assms(2) show ?thesis by (simp add: algebra_simps)
qed


lemma not_too_old_Some: "not_too_old anchor stamp = Inr (Some t) \<Longrightarrow> t = stamp \<and> anchor - days 400 \<le> t"
  by (auto simp: not_too_old_def and_then_Inr_iff split: if_splits)

lemma resolve_year_bounds:
  assumes "resolve_year m d h mi off anchor = Inr (Some t)" and "-8 \<le> off"
  shows "anchor - days 400 \<le> t \<and> t \<le> anchor + hours 8"
proof -
  obtain s where s: "make_time (year_of anchor) m d h mi off = Some s"
    using assms(1) by (cases "make_time (year_of anchor) m d h mi off") (auto simp: resolve_year_def)
  show ?thesis
  proof (cases "anchor + minutes 1 < s")
    case False
    with assms(1) s have "not_too_old anchor s = Inr (Some t)"
      by (auto simp: resolve_year_def and_then_Inr_iff)
    from not_too_old_Some [OF this] False show ?thesis by simp
  next
    case True
    with assms(1) s obtain s' where s': "make_time (year_of anchor - 1) m d h mi off = Some s'"
        "not_too_old anchor s' = Inr (Some t)"
      by (auto simp: resolve_year_def and_then_Inr_iff split: option.splits)
    from not_too_old_Some [OF s'(2)] last_year_before [OF s'(1) assms(2)] show ?thesis by simp
  qed
qed

text \<open>C28. A stamp without a year is read back exactly: an instant that lies at most a minute after the revision and
  less than a year before it, and whose year, in the zone it was written in, is the revision's year in UTC or the
  year before, is recovered; only a 29 February read in the next year has no reading and falls back to the revision.
  The condition on the year is needed (\<open>new_year_in_tokyo_is_dated_a_year_early\<close>).\<close>

theorem yearless_stamps_are_resolved:
  assumes "make_time y m d h mi off = Some t"
    and "t \<le> anchor + minutes 1" and "anchor + minutes 1 < t + days 365"
    and "year_of anchor = y \<or> year_of anchor = y + 1"
    and "MIN_TIME + days 400 \<le> anchor" and "anchor \<le> MAX_TIME - days 400"
  shows "resolve_year m d h mi off anchor
    = Inr (if year_of anchor = y \<or> valid_date (y + 1) m d then Some t else None)"
proof -
  have ranges: "checked_time t = Inr t" "checked_time (anchor + minutes 1) = Inr (anchor + minutes 1)"
      "not_too_old anchor t = Inr (Some t)"
    using assms by (simp_all add: not_too_old_def checked_time_def MIN_TIME_def MAX_TIME_def)
  show ?thesis
  proof (cases "year_of anchor = y")
    case True
    with assms(1,2) ranges show ?thesis by (simp add: resolve_year_def)
  next
    case False
    then have y: "year_of anchor = y + 1" using assms(4) by simp
    show ?thesis
    proof (cases "valid_date (y + 1) m d")
      case False
      with y \<open>year_of anchor \<noteq> y\<close> make_time_next_year [OF assms(1)] show ?thesis by (simp add: resolve_year_def)
    next
      case True
      define t' where "t' = t + days (to_ordinal (y + 1) m d - to_ordinal y m d)"
      have t': "make_time (y + 1) m d h mi off = Some t'"
        using make_time_next_year [OF assms(1)] True by (simp add: t'_def)
      have "t + days 365 \<le> t'" "t' \<le> t + days 366"
        using ordinal_next_year [of m y d] True by (auto simp: t'_def valid_date_def)
      then have "checked_time t' = Inr t'" "anchor + minutes 1 < t'"
        using assms by (simp_all add: checked_time_def MIN_TIME_def MAX_TIME_def)
      with y True t' assms(1) ranges show ?thesis by (simp add: resolve_year_def)
    qed
  qed
qed

text \<open>31 December 2023, 23:50 in New York, in an entry revised on 1 January at 05:00 UTC.\<close>

theorem yearless_stamps_are_resolved_witness:
  "resolve_year 12 31 23 50 (-5) 1704085200000000 = Inr (Some 1704084600000000)"
proof -
  have "make_time 2023 12 31 23 50 (-5) = Some 1704084600000000" by code_simp
  moreover have "year_of 1704085200000000 = 2024" by code_simp
  moreover have "valid_date 2024 12 31" by code_simp
  ultimately show ?thesis
    using yearless_stamps_are_resolved [of 2023 12 31 23 50 "-5" 1704084600000000 1704085200000000]
    by (simp add: MIN_TIME_def MAX_TIME_def)
qed

text \<open>The case the rule misses: 1 January, 00:30 in Tokyo, is still the old year in UTC, and the stamp is put a
  year (here 365 days) before the event.\<close>

lemma new_year_in_tokyo_is_dated_a_year_early:
  "make_time 2024 1 1 0 30 9 = Some 1704036600000000
   \<and> resolve_year 1 1 0 30 9 1704036660000000 = Inr (Some (1704036600000000 - days 365))"
  by code_simp

subsection \<open>Well-formed updates\<close>

definition id_word :: "string \<Rightarrow> bool" where
  "id_word i \<longleftrightarrow> i \<noteq> [] \<and> list_all (\<lambda>c. is_word c \<or> c = CHR ''-'') i"

lemma captured_word:
  assumes "u \<in> set (matches (Grp n (some (Cls p))) st)" and "\<And>c. p c \<Longrightarrow> is_word c \<or> c = CHR ''-''"
  obtains i where "id_word i" and "snd (snd u) = (n, i) # snd (snd st)"
proof -
  from assms(1) obtain b a g where v: "(b, a, g) \<in> set (matches (some (Cls p)) st)"
      "u = (b, a, (n, take (length (rest st) - length a) (rest st)) # g)"
    by auto
  note m = some_class_matches [OF v(1)]
  have "group_free (some (Cls p))" by (simp add: some_def many_def)
  from group_free_matches [OF this v(1)] have g: "g = snd (snd st)" by simp
  have "\<forall>c \<in> set (take (length (rest st) - length a) (rest st)). p c"
    using consumes_only_take [of p "fst st" "rest st" "snd (snd st)" b a g] m by simp
  moreover have "take (length (rest st) - length a) (rest st) \<noteq> []" using m by auto
  ultimately have "id_word (take (length (rest st) - length a) (rest st))"
    using assms(2) by (auto simp: id_word_def list_all_iff)
  with v(2) g that show thesis by simp
qed

lemma incident_id_word:
  assumes "incident_id_of s = Some i"
  shows "id_word i"
proof -
  obtain b m g a where "search INCIDENT_ID s = Some (b, m, g, a)"
      and i: "i = (if group_text 1 g = [] then group_text 2 g else group_text 1 g)"
    using assms by (auto simp: incident_id_of_def split: option.splits)
  then obtain b0 s0 b' where "(b', a, g) \<in> set (matches INCIDENT_ID (b0, s0, []))"
    using find_from_matched unfolding search_def by blast
  then consider (urn) v where "v \<in> set (matches (lit_i ''incident/'') (b0, s0, []))"
      "(b', a, g) \<in> set (matches (Grp 1 (some word_char)) v)"
    | (url) v1 v2 v3 where "v1 \<in> set (matches (lit_i ''/incident'') (b0, s0, []))"
      "v2 \<in> set (matches (opt (lit_i ''s'')) v1)" "v3 \<in> set (matches (lit_i ''/'') v2)"
      "(b', a, g) \<in> set (matches (Grp 2 (some (Cls (\<lambda>c. is_word c \<or> c = CHR ''-'')))) v3)"
    unfolding INCIDENT_ID_def by (auto simp del: matches.simps(6))
  then show ?thesis
  proof cases
    case urn
    have "snd (snd v) = []" using group_free_matches [OF _ urn(1)] by simp
    with captured_word [OF urn(2) [unfolded word_char_def]] obtain j where "id_word j" "g = [(1, j)]" by auto
    with i show ?thesis by (auto simp: group_text_def id_word_def)
  next
    case url
    have "snd (snd v3) = []"
      using group_free_matches [OF _ url(1)] group_free_matches [OF _ url(2)] group_free_matches [OF _ url(3)]
      by (simp add: opt_def)
    with captured_word [OF url(4)] obtain j where "id_word j" "g = [(2, j)]" by auto
    with i show ?thesis by (auto simp: group_text_def)
  qed
qed

text \<open>What an entry with the given incident and revision may give.\<close>

definition update_ok :: "feed_lib \<Rightarrow> string \<Rightarrow> string \<Rightarrow> time \<Rightarrow> incident_update \<Rightarrow> bool" where
  "update_ok lib provider i revised u \<longleftrightarrow>
     iu_provider u = provider \<and> iu_incident u = i \<and> id_word i \<and> iu_body_digest u = blake lib (iu_text u)
     \<and> revised - days 400 \<le> iu_created_at u \<and> iu_created_at u \<le> revised + hours 8"

lemma make_update_ok:
  "id_word i \<Longrightarrow> revised - days 400 \<le> stamp \<Longrightarrow> stamp \<le> revised + hours 8 \<Longrightarrow>
     update_ok lib provider i revised (make_update lib provider i name stamp status body ident)"
  by (simp add: update_ok_def make_update_def)

lemma offsets_range: "map_of OFFSETS tz = Some off \<Longrightarrow> -8 \<le> off"
  by (drule map_of_SomeD) (auto simp: OFFSETS_def)

lemma parse_when_bounds:
  assumes "parse_when raw anchor = Inr (Some t)"
  shows "anchor - days 400 \<le> t \<and> t \<le> anchor + hours 8"
  using assms offsets_range resolve_year_bounds unfolding parse_when_def
  by (auto split: option.splits prod.splits)

lemma block_updates_ok:
  "block_updates lib provider i name revised seen gs = Inr us \<Longrightarrow> id_word i \<Longrightarrow>
     list_all (update_ok lib provider i revised) us"
proof (induction gs arbitrary: seen us)
  case (Cons g gs)
  then obtain u us' seen' where u: "block_update lib provider i name revised g (next_ordinal (plain (group_text 1 g)) seen) = Inr u"
      and us': "block_updates lib provider i name revised seen' gs = Inr us'" and us: "us = u # us'"
    by (auto simp: Let_def and_then_Inr_iff)
  from u obtain stamp where "parse_when (group_text 1 g) revised = Inr stamp"
      and "u = make_update lib provider i name (case stamp of None \<Rightarrow> revised | Some t \<Rightarrow> t)
         (lower (plain (group_text 2 g))) (plain (group_text 3 g))
         (identity_of (plain (group_text 1 g)) (next_ordinal (plain (group_text 1 g)) seen))"
    by (auto simp: block_update_def and_then_Inr_iff)
  then have "update_ok lib provider i revised u"
    using parse_when_bounds Cons.prems(2) by (auto intro!: make_update_ok split: option.splits)
  with Cons.IH [OF us' Cons.prems(2)] us show ?case by simp
qed simp

lemma single_update_ok:
  "id_word i \<Longrightarrow> list_all (update_ok lib provider i revised) (single_update lib provider i name revised markup)"
  by (auto simp: single_update_def Let_def intro!: make_update_ok split: option.split)

definition entry_gives :: "feed_lib \<Rightarrow> string \<Rightarrow> atom_entry \<Rightarrow> incident_update \<Rightarrow> bool" where
  "entry_gives lib provider e u \<longleftrightarrow>
     (case (incident_id_of (node_text (e_id e)), revised_of lib e) of
        (Some i, Inr (Some revised)) \<Rightarrow> update_ok lib provider i revised u
      | _ \<Rightarrow> False)"

lemma entry_updates_ok:
  assumes "entry_updates lib provider e = Inr us"
  shows "list_all (entry_gives lib provider e) us"
proof -
  obtain revision where r: "revised_of lib e = Inr revision" using assms
    by (auto simp: entry_updates_def and_then_Inr_iff)
  show ?thesis
  proof (cases "incident_id_of (node_text (e_id e)) = None \<or> revision = None")
    case True
    with assms r show ?thesis by (auto simp: entry_updates_def split: option.splits)
  next
    case False
    then obtain i revised where i: "incident_id_of (node_text (e_id e)) = Some i" and rev: "revision = Some revised" by auto
    have "list_all (update_ok lib provider i revised) us"
      using assms r i rev block_updates_ok [OF _ incident_id_word [OF i]] single_update_ok [OF incident_id_word [OF i]]
      by (auto simp: entry_updates_def Let_def split: if_splits)
    with i r rev show ?thesis by (simp add: entry_gives_def [abs_def])
  qed
qed

lemma all_updates_ok:
  "all_updates lib provider es = Inr us \<Longrightarrow> list_all (\<lambda>u. list_ex (\<lambda>e. entry_gives lib provider e u) es) us"
proof (induction es arbitrary: us)
  case (Cons e es)
  then obtain vs ws where v: "entry_updates lib provider e = Inr vs" and w: "all_updates lib provider es = Inr ws"
      and us: "us = vs @ ws"
    by (auto simp: and_then_Inr_iff)
  from entry_updates_ok [OF v] Cons.IH [OF w] show ?case by (auto simp: us list_all_iff)
qed simp

text \<open>C27. What a feed yields: the updates of a parsed feed are in the order of their dates; each carries the given
  provider, a nonempty incident id of word characters and hyphens read off an entry of the feed and the digest
  of its own text, and is dated between 400 days before and 8 hours after that entry's exact revision.\<close>

theorem parsed_updates_are_well_formed:
  assumes "parse_atom lib provider feed = Inr us"
  shows "sorted (map iu_created_at us) \<and> list_all (\<lambda>u. iu_provider u = provider \<and> id_word (iu_incident u)
      \<and> iu_body_digest u = blake lib (iu_text u)
      \<and> (case xml_entries lib feed of None \<Rightarrow> False | Some es \<Rightarrow> list_ex (\<lambda>e.
           incident_id_of (node_text (e_id e)) = Some (iu_incident u)
           \<and> (case revised_of lib e of Inr (Some revised) \<Rightarrow>
                revised - days 400 \<le> iu_created_at u \<and> iu_created_at u \<le> revised + hours 8 | _ \<Rightarrow> False)) es)) us"
proof (cases "us = []")
  case False
  with assms obtain es vs where es: "xml_entries lib feed = Some es" and vs: "all_updates lib provider es = Inr vs"
      and us: "us = sort_key iu_created_at vs"
    by (auto simp: parse_atom_def and_then_Inr_iff split: if_splits option.splits)
  have "iu_provider u = provider \<and> id_word (iu_incident u) \<and> iu_body_digest u = blake lib (iu_text u)
      \<and> list_ex (\<lambda>e. incident_id_of (node_text (e_id e)) = Some (iu_incident u)
           \<and> (case revised_of lib e of Inr (Some revised) \<Rightarrow>
                revised - days 400 \<le> iu_created_at u \<and> iu_created_at u \<le> revised + hours 8 | _ \<Rightarrow> False)) es"
    if u: "u \<in> set us" for u
  proof -
    obtain e where e: "e \<in> set es" "entry_gives lib provider e u"
      using u all_updates_ok [OF vs] by (auto simp: us list_all_iff list_ex_iff)
    from e(2) obtain i revised where "incident_id_of (node_text (e_id e)) = Some i" "revised_of lib e = Inr (Some revised)"
        "update_ok lib provider i revised u"
      unfolding entry_gives_def by (simp split: option.splits sum.splits)
    with e(1) show ?thesis unfolding update_ok_def list_ex_iff by auto
  qed
  then show ?thesis by (simp add: es list_all_iff us)
qed simp

definition demo_lib :: feed_lib where
  "demo_lib = \<lparr>xml_entries = (\<lambda>feed. Some [\<lparr>e_id = Some ''tag:status.x.com,2005:Incident/77'',
       e_updated = Some ''2024-08-18T12:00:00Z'', e_published = None, e_title = Some ''API errors'', e_content = Some feed\<rparr>]),
     unescape = (\<lambda>s. s), blake = (\<lambda>s. s), machine_zone = Inr\<rparr>"

definition demo_feed :: string where
  "demo_feed = ''<small>Aug 18, 11:42 UTC</small><br><strong>Resolved</strong>-ok''"

definition demo_update :: incident_update where
  "demo_update = \<lparr>iu_provider = ''x'', iu_incident = ''77'', iu_update = ''Aug 18, 11:42 UTC#0'',
     iu_created_at = 1723981320000000, iu_status = ''resolved'', iu_text = ''ok'', iu_name = ''API errors'',
     iu_body_digest = ''ok''\<rparr>"

lemma demo_parse: "parse_atom demo_lib ''x'' demo_feed = Inr [demo_update]"
  by code_simp

theorem parsed_updates_are_well_formed_witness:
  "parse_atom demo_lib ''x'' demo_feed = Inr [demo_update] \<and> id_word (iu_incident demo_update)"
  using demo_parse parsed_updates_are_well_formed [OF demo_parse] by simp

text \<open>With no colon in the names of the providers, a deduplication key names one update.\<close>

lemma id_word_no_colon: "id_word i \<Longrightarrow> CHR '':'' \<notin> set i"
proof -
  have "\<not> is_word CHR '':''" by code_simp
  then show "id_word i \<Longrightarrow> ?thesis" by (auto simp: id_word_def list_all_iff)
qed

lemma dedup_key_identifies:
  assumes "dedup_key u = dedup_key v" and "id_word (iu_incident u)" and "id_word (iu_incident v)"
    and "CHR '':'' \<notin> set (iu_provider u)" and "CHR '':'' \<notin> set (iu_provider v)"
  shows "iu_provider u = iu_provider v \<and> iu_incident u = iu_incident v \<and> iu_update u = iu_update v"
proof -
  have "iu_provider u @ CHR '':'' # (iu_incident u @ CHR '':'' # iu_update u)
      = iu_provider v @ CHR '':'' # (iu_incident v @ CHR '':'' # iu_update v)"
    using assms(1) by (simp add: dedup_key_def)
  from split_first_unique [OF this assms(4,5)] show ?thesis
    using split_first_unique [OF _ id_word_no_colon [OF assms(2)] id_word_no_colon [OF assms(3)]] by blast
qed

subsection \<open>Identities\<close>

text \<open>The identities of the blocks of an entry, from their markers alone.\<close>

fun ordinals :: "(string \<times> nat) list \<Rightarrow> string list \<Rightarrow> (string \<times> nat) list" where
  "ordinals seen [] = []"
| "ordinals seen (m # ms) = (m, next_ordinal m seen) # ordinals ((m, next_ordinal m seen) # seen) ms"

definition markers :: "groups list \<Rightarrow> string list" where
  "markers gs = map (\<lambda>g. plain (group_text 1 g)) gs"

lemma block_updates_keys:
  "block_updates lib provider i name revised seen gs = Inr us \<Longrightarrow>
     map dedup_key us = map (\<lambda>(m, n). provider @ '':'' @ i @ '':'' @ blake lib (identity_of m n)) (ordinals seen (markers gs))"
proof (induction gs arbitrary: seen us)
  case (Cons g gs)
  let ?m = "plain (group_text 1 g)"
  from Cons.prems obtain u vs where u: "block_update lib provider i name revised g (next_ordinal ?m seen) = Inr u"
      and vs: "block_updates lib provider i name revised ((?m, next_ordinal ?m seen) # seen) gs = Inr vs"
      and us: "us = u # vs"
    by (auto simp: Let_def and_then_Inr_iff)
  have "dedup_key u = provider @ '':'' @ i @ '':'' @ blake lib (identity_of ?m (next_ordinal ?m seen))"
    using u by (auto simp: block_update_def and_then_Inr_iff make_update_def dedup_key_def)
  with Cons.IH [OF vs] us show ?case by (simp add: markers_def)
qed (simp add: markers_def)

lemma ordinals_cong:
  "(\<And>m. m \<in> set ms \<Longrightarrow> map_of seen m = map_of seen' m) \<Longrightarrow> ordinals seen ms = ordinals seen' ms"
  by (induction ms arbitrary: seen seen') (auto simp: next_ordinal_def)

lemma ordinals_append:
  "set ms \<inter> set ns = {} \<Longrightarrow> (\<And>n. n \<in> set ns \<Longrightarrow> map_of seen n = None) \<Longrightarrow>
     ordinals seen (ms @ ns) = ordinals seen ms @ ordinals [] ns"
proof (induction ms arbitrary: seen)
  case Nil
  then show ?case by (auto intro: ordinals_cong)
next
  case (Cons m ms)
  have "ordinals ((m, next_ordinal m seen) # seen) (ms @ ns)
      = ordinals ((m, next_ordinal m seen) # seen) ms @ ordinals [] ns"
    by (rule Cons.IH) (use Cons.prems in auto)
  then show ?case by simp
qed

lemma ordinals_above:
  "(m, n) \<in> set (ordinals seen ms) \<Longrightarrow> next_ordinal m seen \<le> n"
proof (induction ms arbitrary: seen)
  case (Cons m' ms)
  then consider "m = m'" "n = next_ordinal m seen"
    | "next_ordinal m ((m', next_ordinal m' seen) # seen) \<le> n" by auto
  then show ?case by cases (auto simp: next_ordinal_def split: if_splits option.splits)
qed simp

lemma ordinals_distinct: "distinct (ordinals seen ms)"
proof (induction ms arbitrary: seen)
  case (Cons m ms)
  show ?case using Cons ordinals_above [of m "next_ordinal m seen" "(m, next_ordinal m seen) # seen" ms]
    by (auto simp: next_ordinal_def split: option.splits)
qed simp

lemma identity_inj: "identity_of m n = identity_of m' n' \<Longrightarrow> m = m' \<and> n = n'"
proof -
  have "CHR ''#'' \<notin> set (digits_of k)" for k
    using digits_are_digits [of k] by (auto simp: list_all_iff is_digit_def in_range_def code_def)
  then show "identity_of m n = identity_of m' n' \<Longrightarrow> m = m' \<and> n = n'"
    using split_last_unique [of m "CHR ''#''" "digits_of n" m' "digits_of n'"] digits_of_inj
    by (auto simp: identity_of_def)
qed

lemma ordinals_length [simp]: "length (ordinals seen ms) = length ms"
  by (induction ms arbitrary: seen) simp_all

text \<open>The texts whose digests become the update ids of an entry: its markers, each with its ordinal.\<close>

definition identities :: "groups list \<Rightarrow> string list" where
  "identities gs = map (\<lambda>(m, n). identity_of m n) (ordinals [] (markers gs))"

lemma identities_distinct: "distinct (identities gs)"
  by (auto simp: identities_def distinct_map ordinals_distinct intro!: inj_onI dest: identity_inj)

lemma block_updates_identities:
  assumes "block_updates lib provider i name revised [] gs = Inr us"
  shows "map dedup_key us = map (\<lambda>x. provider @ '':'' @ i @ '':'' @ blake lib x) (identities gs)"
  using block_updates_keys [OF assms] by (simp add: identities_def markers_def case_prod_unfold)

lemma identities_append:
  assumes "set (markers new) \<inter> set (markers old) = {}"
  shows "identities (new @ old) = identities new @ identities old"
  using ordinals_append [OF assms, of "[]"] by (simp add: identities_def markers_def)

lemma identities_length: "length (identities gs) = length gs"
  by (simp add: identities_def markers_def)

text \<open>C34. Updates keep their identity: when updates with other stamps are put before the ones of an entry, and
  the entry's revision and title change, every old update keeps its deduplication key. The texts that are hashed into
  the keys of one entry, each stamp with its ordinal, are pairwise different, however many updates have the same stamp,
  so that two updates of an entry share a key exactly if the six-byte digest collides on two of these texts.\<close>

theorem updates_keep_their_keys:
  assumes "block_updates lib provider i name revised [] old = Inr us"
    and "block_updates lib provider i name' revised' [] (new @ old) = Inr vs"
    and "set (markers new) \<inter> set (markers old) = {}"
  shows "map dedup_key (drop (length new) vs) = map dedup_key us
    \<and> distinct (identities (new @ old)) \<and> length (identities (new @ old)) = length vs
    \<and> (distinct (map dedup_key vs) \<longleftrightarrow> inj_on (blake lib) (set (identities (new @ old))))"
proof (intro conjI)
  let ?key = "\<lambda>x. provider @ '':'' @ i @ '':'' @ blake lib x"
  have vs: "map dedup_key vs = map ?key (identities (new @ old))" by (rule block_updates_identities [OF assms(2)])
  show "map dedup_key (drop (length new) vs) = map dedup_key us"
    using block_updates_identities [OF assms(1)]
    by (simp add: drop_map [symmetric] vs identities_append [OF assms(3)] identities_length)
  show "length (identities (new @ old)) = length vs" using arg_cong [OF vs, of length] by simp
  show "distinct (map dedup_key vs) \<longleftrightarrow> inj_on (blake lib) (set (identities (new @ old)))"
    unfolding vs by (simp add: distinct_map identities_distinct inj_on_def)
qed (rule identities_distinct)

definition demo_old :: "groups list" where
  "demo_old = [[(1, ''Aug 18, 11:42 UTC''), (2, ''Identified''), (3, ''cause found'')]]"

definition demo_new :: "groups list" where
  "demo_new = [[(1, ''Aug 18, 12:10 UTC''), (2, ''Resolved''), (3, ''done'')]]"

theorem updates_keep_their_keys_witness:
  "let us = projr (block_updates demo_lib ''x'' ''77'' ''API'' 1723983000000000 [] demo_old);
       vs = projr (block_updates demo_lib ''x'' ''77'' ''API errors'' 1723984000000000 [] (demo_new @ demo_old))
   in map dedup_key (drop (length demo_new) vs) = map dedup_key us \<and> map dedup_key us = [''x:77:Aug 18, 11:42 UTC#0''] \<and> distinct (map dedup_key vs)"
proof -
  have old: "block_updates demo_lib ''x'' ''77'' ''API'' 1723983000000000 [] demo_old
      = Inr [make_update demo_lib ''x'' ''77'' ''API'' 1723981320000000 ''identified'' ''cause found'' ''Aug 18, 11:42 UTC#0'']"
    by code_simp
  have new: "block_updates demo_lib ''x'' ''77'' ''API errors'' 1723984000000000 [] (demo_new @ demo_old)
      = Inr [make_update demo_lib ''x'' ''77'' ''API errors'' 1723983000000000 ''resolved'' ''done'' ''Aug 18, 12:10 UTC#0'',
          make_update demo_lib ''x'' ''77'' ''API errors'' 1723981320000000 ''identified'' ''cause found'' ''Aug 18, 11:42 UTC#0'']"
    by code_simp
  have "set (markers demo_new) \<inter> set (markers demo_old) = {}" by code_simp
  moreover have "map dedup_key [make_update demo_lib ''x'' ''77'' ''API'' 1723981320000000 ''identified'' ''cause found''
      ''Aug 18, 11:42 UTC#0''] = [''x:77:Aug 18, 11:42 UTC#0'']"
    by (simp add: make_update_def dedup_key_def demo_lib_def)
  moreover have "inj_on (blake demo_lib) (set (identities (demo_new @ demo_old)))" by (simp add: demo_lib_def inj_on_def)
  ultimately show ?thesis
    using updates_keep_their_keys [OF old new] unfolding old new Let_def sum.sel by blast
qed

text \<open>The ordinal counts from the top, so an update that shares the minute of an older one and is put before it
  takes over the older one's key, which moves on to the next.\<close>

lemma a_same_minute_update_takes_the_key:
  "ordinals [] [m] = [(m, 0)]" and "ordinals [] [m, m] = [(m, 0), (m, 1)]"
  by (simp_all add: next_ordinal_def)

end
