(* ===== verification/Timestamps.thy ===== *)
theory Timestamps
  imports Iso
begin

section \<open>Timestamps survive their text form\<close>

text \<open>
  The program hands instants around as text: lifecycle events, receipts, dead letters and reports
  carry \<^verbatim>\<open>isoformat\<close> text, with \<^verbatim>\<open>Z\<close> or \<^verbatim>\<open>+00:00\<close>, and every reader parses it back. Here the
  calendar's conversions are shown to be inverse, and with them the text form.
\<close>

subsection \<open>The calendar\<close>

lemma find_month_spec:
  "0 \<le> n \<Longrightarrow> n < sum_list ls \<Longrightarrow>
     \<exists>k < length ls. find_month m n ls = (m + int k, n - sum_list (take k ls) + 1)
       \<and> 0 \<le> n - sum_list (take k ls) \<and> n - sum_list (take k ls) < ls ! k"
proof (induction ls arbitrary: m n)
  case (Cons l ls)
  show ?case
  proof (cases "n < l")
    case True
    with Cons.prems show ?thesis by (intro exI [of _ 0]) simp
  next
    case False
    with Cons.IH [of "n - l" "m + 1"] Cons.prems obtain k where "k < length ls"
      "find_month (m + 1) (n - l) ls = (m + 1 + int k, n - l - sum_list (take k ls) + 1)"
      "0 \<le> n - l - sum_list (take k ls)" "n - l - sum_list (take k ls) < ls ! k" by auto
    with False show ?thesis by (intro exI [of _ "Suc k"]) simp
  qed
qed simp

lemma days_before_year_mono: "y \<le> y' \<Longrightarrow> days_before_year y \<le> days_before_year y'"
proof (induction y' rule: int_ge_induct)
  case (step y')
  then show ?case using days_before_year_Suc [of y'] by (auto split: if_splits)
qed simp

text \<open>A day of a year, counted from its first.\<close>

lemma find_month_in_year:
  assumes "0 \<le> d" "d < 365 + (if leap_year y then 1 else 0)" "1 \<le> y" "y \<le> 9999"
  shows "case find_month 1 d (month_lengths (leap_year y)) of (m, dd) \<Rightarrow>
     valid_date y m dd \<and> to_ordinal y m dd = days_before_year y + d + 1"
proof -
  have len: "length (month_lengths (leap_year y)) = 12"
    and "sum_list (month_lengths (leap_year y)) = 365 + (if leap_year y then 1 else 0)"
    by (simp_all add: month_lengths_def)
  with assms(1,2) find_month_spec [of d "month_lengths (leap_year y)" 1] obtain k where
    k: "k < 12" "find_month 1 d (month_lengths (leap_year y)) = (1 + int k, d - sum_list (take k (month_lengths (leap_year y))) + 1)"
    "0 \<le> d - sum_list (take k (month_lengths (leap_year y)))"
    "d - sum_list (take k (month_lengths (leap_year y))) < month_lengths (leap_year y) ! k" by auto
  then show ?thesis
    using assms(3,4) by (simp add: valid_date_def to_ordinal_def days_before_month_def days_in_month_def)
qed

lemma last_day: "to_ordinal y 12 31 = days_before_year (y + 1)"
  by (simp add: to_ordinal_def days_before_year_Suc month_sums)

lemma from_ordinal_correct:
  assumes "1 \<le> n" "n \<le> 3652059"
  shows "case from_ordinal n of (y, m, d) \<Rightarrow> valid_date y m d \<and> to_ordinal y m d = n"
proof -
  define q400 where "q400 = (n - 1) div 146097"
  define a where "a = (n - 1) mod 146097"
  define q100 where "q100 = a div 36524"
  define b where "b = a mod 36524"
  define q4 where "q4 = b div 1461"
  define c where "c = b mod 1461"
  define q1 where "q1 = c div 365"
  define d where "d = c mod 365"
  define y where "y = q400 * 400 + q100 * 100 + q4 * 4 + q1 + 1"
  have fo: "from_ordinal n = (if q1 = 4 \<or> q100 = 4 then (y - 1, 12, 31)
      else (y, find_month 1 d (month_lengths (leap_year y))))"
    by (simp add: from_ordinal_def Let_def q400_def a_def q100_def b_def q4_def c_def q1_def d_def y_def)
  have a: "0 \<le> a" "a < 146097" and b: "0 \<le> b" "b < 36524" and c: "0 \<le> c" "c < 1461" and d: "0 \<le> d" "d < 365"
    by (simp_all add: a_def b_def c_def d_def)
  have r: "0 \<le> q400" "0 \<le> q100" "q100 \<le> 4" "0 \<le> q4" "q4 \<le> 24" "0 \<le> q1" "q1 \<le> 4"
    using a b c assms zdiv_mono1 [of a 146096 36524] zdiv_mono1 [of b 36523 1461] zdiv_mono1 [of c 1460 365]
    by (simp_all add: q400_def q100_def q4_def q1_def pos_imp_zdiv_nonneg_iff)
  have n: "n - 1 = 146097 * q400 + a" and a': "a = 36524 * q100 + b" and b': "b = 1461 * q4 + c" and c': "c = 365 * q1 + d"
    by (simp_all add: q400_def a_def q100_def b_def q4_def c_def q1_def d_def)
  have le: "z \<le> 9999" if "days_before_year z < n" for z
  proof (rule ccontr)
    assume "\<not> z \<le> 9999"
    then have "days_before_year 10000 \<le> days_before_year z" by (intro days_before_year_mono) simp
    with that assms(2) show False by (simp add: days_before_year_def)
  qed
  consider (last_of_400) "q100 = 4" | (last_of_4) "q100 \<le> 3" "q1 = 4" | (other) "q100 \<le> 3" "q1 \<le> 3" using r by linarith
  then show ?thesis
  proof cases
    case last_of_400
    with a a' b have "b = 0" by linarith
    then have z: "q4 = 0" "c = 0" "q1 = 0" "d = 0" by (simp_all add: q4_def c_def q1_def d_def)
    define z where "z = q400 * 400 + 400"
    have y: "y - 1 = z" using last_of_400 z by (simp add: y_def z_def)
    have s: "days_before_year z = 146097 * q400 + 36524 * 3 + 1461 * 24 + 365 * 3"
      using year_start [of 3 24 3 q400] by (simp add: z_def add.commute)
    have leap: "leap_year z" by (simp add: leap_year_def z_def)
    have o: "to_ordinal z 12 31 = n" using s leap days_before_year_Suc [of z] n a' \<open>b = 0\<close> last_of_400 by (simp add: last_day)
    have "z \<le> 9999" by (rule le) (use s n a' \<open>b = 0\<close> last_of_400 in simp)
    then show ?thesis using fo last_of_400 y o r by (simp add: valid_date_def days_in_month_def month_lengths_def z_def)
  next
    case last_of_4
    with c c' d have "d = 0" by linarith
    have q4: "q4 < 24"
    proof (rule ccontr)
      assume "\<not> q4 < 24"
      with r have "q4 = 24" by simp
      with b b' c' last_of_4 \<open>d = 0\<close> show False by simp
    qed
    define z where "z = q400 * 400 + q100 * 100 + q4 * 4 + 4"
    have y: "y - 1 = z" using last_of_4 by (simp add: y_def z_def)
    have s: "days_before_year z = 146097 * q400 + 36524 * q100 + 1461 * q4 + 365 * 3"
      using year_start [of q100 q4 3 q400] last_of_4 r by (simp add: z_def ac_simps)
    have leap: "leap_year z"
    proof -
      have "4 dvd z" by (simp add: z_def)
      moreover have "\<not> 100 dvd z"
      proof
        assume "100 dvd z"
        moreover have "z = 100 * (4 * q400 + q100) + (4 * q4 + 4)" by (simp add: z_def)
        ultimately have "100 dvd 4 * q4 + 4" by (metis dvd_add_right_iff dvd_triv_left)
        with zdvd_not_zless [of "4 * q4 + 4" 100] q4 r show False by simp
      qed
      ultimately show ?thesis by (simp add: leap_year_def)
    qed
    have o: "to_ordinal z 12 31 = n"
      using s leap days_before_year_Suc [of z] n a' b' c' \<open>d = 0\<close> last_of_4 by (simp add: last_day)
    have "z \<le> 9999" by (rule le) (use s n a' b' c' \<open>d = 0\<close> last_of_4 in simp)
    then show ?thesis using fo last_of_4 y o r by (simp add: valid_date_def days_in_month_def month_lengths_def z_def)
  next
    case other
    have s: "days_before_year y = 146097 * q400 + 36524 * q100 + 1461 * q4 + 365 * q1"
      using year_start [of q100 q4 q1 q400] other r by (simp add: y_def)
    have "1 \<le> y" using r by (simp add: y_def)
    moreover have "y \<le> 9999" by (rule le) (use s n a' b' c' d in simp)
    ultimately show ?thesis
      using fo other find_month_in_year [of d y] d s n a' b' c' by (auto split: prod.splits if_splits)
  qed
qed

lemma date_of_correct:
  assumes "MIN_TIME \<le> t" "t \<le> MAX_TIME"
  shows "case date_of t of (y, m, d) \<Rightarrow> valid_date y m d \<and> days (to_ordinal y m d - EPOCH_ORDINAL) = days (t div 86400000000)"
proof -
  have "MIN_TIME div 86400000000 \<le> t div 86400000000" "t div 86400000000 \<le> MAX_TIME div 86400000000"
    using assms by (simp_all add: zdiv_mono1)
  then have "1 \<le> t div 86400000000 + EPOCH_ORDINAL" "t div 86400000000 + EPOCH_ORDINAL \<le> 3652059"
    by (simp_all add: MIN_TIME_def MAX_TIME_def EPOCH_ORDINAL_def)
  from from_ordinal_correct [OF this] show ?thesis by (auto simp: date_of_def split: prod.splits)
qed


subsection \<open>Padded numbers\<close>

lemma digits_length: "n < 10 ^ k \<Longrightarrow> 0 < k \<Longrightarrow> length (digits_of n) \<le> k"
proof (induction n arbitrary: k rule: digits_of.induct)
  case (1 n)
  show ?case
  proof (cases "n < 10")
    case True
    then show ?thesis using 1(3) by (subst digits_of.simps) simp
  next
    case False
    obtain j where k: "k = Suc j" using 1(3) by (cases k) auto
    have j: "0 < j" using False 1(2) k by (cases j) auto
    have "n div 10 < 10 ^ j" using 1(2) k by (simp add: less_mult_imp_div_less mult.commute)
    from 1(1) [OF False this j] False k show ?thesis by (subst digits_of.simps) simp
  qed
qed

lemma nat_of_digits_append:
  "nat_of_digits (a @ b) = nat_of_digits a * 10 ^ length b + nat_of_digits b"
proof (induction b rule: rev_induct)
  case (snoc x b)
  then show ?case by (simp add: nat_of_digits_def algebra_simps append_assoc [symmetric] del: append_assoc)
qed (simp add: nat_of_digits_def)

lemma nat_of_zeros: "nat_of_digits (replicate k CHR ''0'') = 0"
  by (induction k) (simp_all add: nat_of_digits_def digit_value_def code_def)

lemma int_of_digits_nat: "int_of_digits s = int (nat_of_digits s)"
  by (induction s rule: rev_induct) (simp_all add: int_of_digits_def nat_of_digits_def)

lemma padded:
  assumes "0 \<le> n" "n < 10 ^ k" "0 < k"
  shows "length (pad_left k CHR ''0'' (show_int n)) = k"
    and "all_digits (pad_left k CHR ''0'' (show_int n))"
    and "int_of_digits (pad_left k CHR ''0'' (show_int n)) = n"
proof -
  have show_int: "show_int n = digits_of (nat n)" using assms(1) by (simp add: show_int_def)
  have "nat n < 10 ^ k" using assms by (simp add: nat_less_iff)
  then have "length (digits_of (nat n)) \<le> k" using assms(3) by (rule digits_length)
  then show "length (pad_left k CHR ''0'' (show_int n)) = k" by (simp add: pad_left_def show_int)
  show "all_digits (pad_left k CHR ''0'' (show_int n))"
    using digits_are_digits [of "nat n"]
    by (auto simp: all_digits_def pad_left_def show_int is_digit_def in_range_def code_def list_all_iff)
  show "int_of_digits (pad_left k CHR ''0'' (show_int n)) = n"
    using assms(1) by (simp add: pad_left_def show_int int_of_digits_nat nat_of_digits_append nat_of_zeros digits_value)
qed

lemma take_padded:
  assumes "0 \<le> n" "n < 10 ^ k" "0 < k"
  shows "take_digits k (pad_left k CHR ''0'' (show_int n) @ r) = Some (n, r)"
  using padded [OF assms] by (simp add: take_digits_def)

lemma take_two: "0 \<le> n \<Longrightarrow> n < 100 \<Longrightarrow> take_digits 2 (two n @ r) = Some (n, r)"
  unfolding two_def by (rule take_padded) simp_all

lemma two_digits: "0 \<le> n \<Longrightarrow> n < 100 \<Longrightarrow> all_digits (two n) \<and> length (two n) = 2 \<and> int_of_digits (two n) = n"
  unfolding two_def using padded [of n 2] by simp

lemma int_of_digits_append: "int_of_digits (a @ b) = int_of_digits a * 10 ^ length b + int_of_digits b"
  by (simp add: int_of_digits_nat nat_of_digits_append)

lemma pad6_digits:
  assumes "0 \<le> n" "n < 1000000"
  shows "all_digits (pad6 n) \<and> length (pad6 n) = 6 \<and> int_of_digits (pad6 n) = n"
proof -
  have r: "0 \<le> n div 10000" "n div 10000 < 100" "0 \<le> n div 100 mod 100" "n div 100 mod 100 < 100"
    "0 \<le> n mod 100" "n mod 100 < 100"
    using assms zdiv_mono1 [of n 999999 10000] by (simp_all add: pos_imp_zdiv_nonneg_iff)
  have "n div 100 div 100 = n div 10000" by (simp add: zdiv_zmult2_eq [symmetric])
  then have "n = n div 10000 * 10000 + n div 100 mod 100 * 100 + n mod 100"
    using div_mult_mod_eq [of n 100] div_mult_mod_eq [of "n div 100" 100] by linarith
  then show ?thesis
    using two_digits [OF r(1,2)] two_digits [OF r(3,4)] two_digits [OF r(5,6)]
    by (simp add: pad6_def all_digits_def int_of_digits_append)
qed

subsection \<open>Text and back\<close>

lemma no_sign: "all_digits s \<Longrightarrow> list_all (\<lambda>c. \<not> is_offset_sign c) s"
  by (auto simp: all_digits_def list_all_iff is_digit_def in_range_def is_offset_sign_def code_def)

lemma until_sign:
  assumes "list_all (\<lambda>c. \<not> is_offset_sign c) s" and "is_offset_sign c"
  shows "takeWhile (\<lambda>c. \<not> is_offset_sign c) (s @ c # r) = s" "dropWhile (\<lambda>c. \<not> is_offset_sign c) (s @ c # r) = c # r"
  using assms by (induction s) auto

lemma fraction_read:
  assumes "0 \<le> us" "us < 1000000"
  shows "iso_fraction (if us = 0 then [] else CHR ''.'' # pad6 us) = Some us"
  using pad6_digits [OF assms] assms by (auto simp: iso_fraction_def)

lemma iso_clock_read:
  assumes "0 \<le> h" "h \<le> 23" "0 \<le> m" "m \<le> 59" "0 \<le> s" "s \<le> 59" "0 \<le> us" "us < 1000000"
  shows "iso_clock (two h @ CHR '':'' # two m @ CHR '':'' # two s @ (if us = 0 then [] else CHR ''.'' # pad6 us))
    = Some (hours h + minutes m + seconds s + us)"
  using assms fraction_read [of us]
  by (simp add: iso_clock_def take_two)

lemma hours_minutes_seconds: "x div 3600 * 3600 + x mod 3600 div 60 * 60 + x mod 60 = x" for x :: int
proof -
  have "x mod 3600 mod 60 = x mod 60" by (rule mod_mod_cancel) simp
  with div_mult_mod_eq [of x 3600] div_mult_mod_eq [of "x mod 3600" 60] show ?thesis by linarith
qed

lemma clock_of_correct:
  "case clock_of t of (h, m, s) \<Rightarrow> 0 \<le> h \<and> h \<le> 23 \<and> 0 \<le> m \<and> m \<le> 59 \<and> 0 \<le> s \<and> s \<le> 59
    \<and> hours h + minutes m + seconds s + t mod 1000000 = t mod 86400000000"
proof -
  define r where "r = t mod 86400000000"
  define x where "x = r div 1000000"
  have r: "0 \<le> r" "r < 86400000000" by (simp_all add: r_def)
  have us: "r mod 1000000 = t mod 1000000" unfolding r_def by (rule mod_mod_cancel) simp
  have x: "0 \<le> x" "x < 86400"
    using r zdiv_mono1 [of r 86399999999 1000000] by (simp_all add: x_def pos_imp_zdiv_nonneg_iff)
  have h: "0 \<le> x div 3600" "x div 3600 \<le> 23"
    using x zdiv_mono1 [of x 86399 3600] by (simp_all add: pos_imp_zdiv_nonneg_iff)
  have m: "0 \<le> x mod 3600 div 60" "x mod 3600 div 60 \<le> 59"
    using zdiv_mono1 [of "x mod 3600" 3599 60] by (simp_all add: pos_imp_zdiv_nonneg_iff)
  have sec: "0 \<le> x mod 60" "x mod 60 \<le> 59" using pos_mod_bound [of 60 x] by simp_all
  have "hours (x div 3600) + minutes (x mod 3600 div 60) + seconds (x mod 60) = seconds x"
    using hours_minutes_seconds [of x] by linarith
  moreover have "seconds x + t mod 1000000 = r" using div_mult_mod_eq [of r 1000000] us by (simp add: x_def)
  ultimately have sum: "hours (x div 3600) + minutes (x mod 3600 div 60) + seconds (x mod 60) + t mod 1000000
      = t mod 86400000000" unfolding r_def by presburger
  have "clock_of t = (x div 3600, x mod 3600 div 60, x mod 60)"
    by (simp add: clock_of_def Let_def x_def r_def)
  then show ?thesis unfolding prod.case using h m sec sum by (simp only: prod.case)
qed

lemma zero_offset: "iso_offset ''+00:00'' = Some (Some 0)" "iso_offset ''Z'' = Some (Some 0)"
  by code_simp+

definition iso_body :: "time \<Rightarrow> string" where
  "iso_body t = (case clock_of t of (h, m, s) \<Rightarrow>
     two h @ CHR '':'' # two m @ CHR '':'' # two s @ (if t mod 1000000 = 0 then [] else CHR ''.'' # pad6 (t mod 1000000)))"

lemma isoformat_body: "isoformat t = fmt_date t @ CHR ''T'' # iso_body t @ ''+00:00''"
  by (simp add: isoformat_def iso_body_def Let_def split: prod.split)

lemma iso_body_read: "iso_clock (iso_body t) = Some (t mod 86400000000)"
  using clock_of_correct [of t] iso_clock_read [of _ _ _ "t mod 1000000"]
  by (auto simp: iso_body_def split: prod.splits)

lemma iso_body_no_sign: "list_all (\<lambda>c. \<not> is_offset_sign c) (iso_body t)"
proof -
  have "list_all (\<lambda>c. \<not> is_offset_sign c) (two n)" if "0 \<le> n" "n < 100" for n
    using two_digits [OF that] no_sign by blast
  moreover have "list_all (\<lambda>c. \<not> is_offset_sign c) (pad6 (t mod 1000000))"
    using pad6_digits [of "t mod 1000000"] no_sign by simp
  moreover have "\<not> is_offset_sign CHR '':''" "\<not> is_offset_sign CHR ''.''" by (simp_all add: is_offset_sign_def)
  ultimately show ?thesis using clock_of_correct [of t] by (auto simp: iso_body_def split: prod.splits)
qed

lemma date_read:
  assumes "MIN_TIME \<le> t" "t \<le> MAX_TIME"
  shows "\<exists>n. iso_date (fmt_date t @ r) = Some (n, r) \<and> days (n - EPOCH_ORDINAL) = days (t div 86400000000)"
proof -
  obtain y m d where d: "date_of t = (y, m, d)" by (metis prod_cases3)
  with date_of_correct [OF assms] have v: "valid_date y m d"
    and o: "days (to_ordinal y m d - EPOCH_ORDINAL) = days (t div 86400000000)" by simp_all
  have md: "1 \<le> m" "m \<le> 12" and dd: "1 \<le> d" "d \<le> days_in_month y m" and y: "1 \<le> y" "y \<le> 9999"
    using v by (auto simp: valid_date_def)
  have "days_in_month y m \<le> 31" using md by (cases rule: month_cases) (simp_all add: month_sums)
  then have "iso_date (fmt_date t @ r) = Some (to_ordinal y m d, r)"
    using v md dd y by (simp add: iso_date_def fmt_date_def d take_padded take_two)
  with o show ?thesis by blast
qed

lemma fromisoformat_body:
  assumes "MIN_TIME \<le> t" "t \<le> MAX_TIME" and "iso_offset off = Some (Some 0)" and "off \<noteq> []" "is_offset_sign (hd off)"
  shows "fromisoformat (fmt_date t @ CHR ''T'' # iso_body t @ off) = Some (t, Some 0)"
proof -
  obtain c r where off: "off = c # r" using assms(4) by (cases off) auto
  obtain n where n: "iso_date (fmt_date t @ CHR ''T'' # iso_body t @ off) = Some (n, CHR ''T'' # iso_body t @ off)"
    "days (n - EPOCH_ORDINAL) = days (t div 86400000000)"
    using date_read [OF assms(1,2)] by blast
  have "days (n - EPOCH_ORDINAL) + t mod 86400000000 = t" using n(2) by simp
  then show ?thesis
    using n(1) until_sign [OF iso_body_no_sign [of t], of c r] assms(3,5)
    by (simp add: fromisoformat_def off iso_body_read)
qed


text \<open>\<^verbatim>\<open>t.isoformat().replace("+00:00", "Z")\<close>: the offset is the last six characters and the only plus.\<close>

definition isoformat_z :: "time \<Rightarrow> string" where
  "isoformat_z t = take (length (isoformat t) - 6) (isoformat t) @ ''Z''"

lemma isoformat_z_body: "isoformat_z t = fmt_date t @ CHR ''T'' # iso_body t @ ''Z''"
  by (simp add: isoformat_z_def isoformat_body)

lemma replace_z_append [simp]: "replace_z (a @ b) = replace_z a @ replace_z b"
  by (simp add: replace_z_def)

lemma replace_z_simps [simp]:
  "replace_z [] = []" "replace_z (c # s) = (if c = CHR ''Z'' then ''+00:00'' else [c]) @ replace_z s"
  by (simp_all add: replace_z_def)

lemma replace_z_id: "CHR ''Z'' \<notin> set s \<Longrightarrow> replace_z s = s"
  by (induction s) auto

lemma date_no_z:
  assumes "MIN_TIME \<le> t" "t \<le> MAX_TIME"
  shows "CHR ''Z'' \<notin> set (fmt_date t)"
proof -
  have d: "CHR ''Z'' \<notin> set s" if "all_digits s" for s
    using that by (auto simp: all_digits_def list_all_iff is_digit_def in_range_def code_def)
  obtain y m d where dt: "date_of t = (y, m, d)" by (metis prod_cases3)
  with date_of_correct [OF assms] have v: "valid_date y m d" by simp
  then have md: "1 \<le> m" "m \<le> 12" by (auto simp: valid_date_def)
  then have "days_in_month y m \<le> 31" by (cases rule: month_cases) (simp_all add: month_sums)
  then have "all_digits (two m)" "all_digits (two d)" "all_digits (pad_left 4 CHR ''0'' (show_int y))"
    using v two_digits [of m] two_digits [of d] padded(2) [of y 4] by (auto simp: valid_date_def)
  then show ?thesis using d [of "two m"] d [of "two d"] d [of "pad_left 4 CHR ''0'' (show_int y)"]
    by (simp add: fmt_date_def dt)
qed

lemma body_no_z: "CHR ''Z'' \<notin> set (iso_body t)"
  using iso_body_no_sign [of t] by (auto simp: list_all_iff is_offset_sign_def)

lemma offset_signs: "is_offset_sign CHR ''+''" "is_offset_sign CHR ''Z''"
  by (simp_all add: is_offset_sign_def)

lemma isoformat_read:
  assumes "MIN_TIME \<le> t" and "t \<le> MAX_TIME"
  shows "fromisoformat (isoformat t) = Some (t, Some 0)" "fromisoformat (isoformat_z t) = Some (t, Some 0)"
    "replace_z (isoformat t) = isoformat t" "replace_z (isoformat_z t) = isoformat t"
  using date_no_z [OF assms] body_no_z [of t] unfolding isoformat_body isoformat_z_body
  by (simp_all add: replace_z_id fromisoformat_body assms zero_offset offset_signs)

lemma replaced_timestamp:
  "MIN_TIME \<le> t \<Longrightarrow> t \<le> MAX_TIME \<Longrightarrow> fromisoformat (replace_z (isoformat_z t)) = Some (t, Some 0)"
  by (simp add: isoformat_read)

text \<open>C19. An instant survives its text: every timestamp \<^verbatim>\<open>datetime\<close> can hold, written by \<^verbatim>\<open>isoformat\<close> with \<^verbatim>\<open>+00:00\<close> or
  with \<^verbatim>\<open>Z\<close>, is read back to the microsecond, also after the \<^verbatim>\<open>replace("Z", "+00:00")\<close> of the readers.\<close>

theorem timestamps_survive_text:
  assumes "MIN_TIME \<le> t" and "t \<le> MAX_TIME"
  shows "fromisoformat (isoformat t) = Some (t, Some 0)
    \<and> fromisoformat (isoformat_z t) = Some (t, Some 0)
    \<and> replace_z (isoformat t) = isoformat t
    \<and> replace_z (isoformat_z t) = isoformat t"
  using isoformat_read [OF assms] by simp

theorem timestamps_survive_text_witness:
  "fromisoformat (replace_z (isoformat_z 1709296200500000)) = Some (1709296200500000, Some 0)"
  using timestamps_survive_text [of 1709296200500000] by (simp add: MIN_TIME_def MAX_TIME_def)

end
