(* ===== verification/Fetching.thy ===== *)
theory Fetching
  imports Statuspage Timestamps Replay Database "HOL-Library.Multiset"
begin

section \<open>Fetching feeds politely (\<^verbatim>\<open>freshet/ingest/poller.py\<close>, \<^verbatim>\<open>freshet/ingest/registry.py\<close>)\<close>

text \<open>
  One request with its size cap, the backoff per host and the validators of conditional requests, in
  memory and in the cache file. The network, \<^verbatim>\<open>gzip\<close>, the decoder and the number and date parsers of
  \<^verbatim>\<open>Retry-After\<close> are parameters. The theorems: delays are bounded and per host, and survive a restart.
\<close>

definition RAW_TOPIC :: string where
  "RAW_TOPIC = ''raw.incidents''"

definition USER_AGENT :: string where
  "USER_AGENT = ''freshet/2.0 (+https://github.com/KrasiKirov/freshet)''"

definition WIRE_VERSION :: int where
  "WIRE_VERSION = 1"

definition MAX_BODY_BYTES :: nat where
  "MAX_BODY_BYTES = 8 * 1024 * 1024"

definition MAX_BACKOFF_S :: real where
  "MAX_BACKOFF_S = 300"

record page =
  pg_provider :: string
  pg_url :: string

subsection \<open>Dictionaries and headers\<close>

definition dict_set :: "'k \<Rightarrow> 'v \<Rightarrow> ('k \<times> 'v) list \<Rightarrow> ('k \<times> 'v) list" where
  "dict_set k v d = upsert fst (k, v) (\<lambda>kv. (fst kv, v)) d"

definition dict_del :: "'k \<Rightarrow> ('k \<times> 'v) list \<Rightarrow> ('k \<times> 'v) list" where
  "dict_del k d = filter (\<lambda>kv. fst kv \<noteq> k) d"

lemma map_of_dict_set [simp]: "map_of (dict_set k v d) j = (if j = k then Some v else map_of d j)"
  unfolding dict_set_def by (induction d) auto

lemma map_of_dict_del [simp]: "map_of (dict_del k d) j = (if j = k then None else map_of d j)"
  unfolding dict_del_def by (induction d) auto

lemma set_dict_set: "set (dict_set k v d) \<subseteq> insert (k, v) (set d)"
  unfolding dict_set_def by (induction d) auto

lemma keyed_dict_set [simp]: "keyed fst d \<Longrightarrow> keyed fst (dict_set k v d)"
  unfolding dict_set_def by (rule keyed_upsert) simp_all

text \<open>The headers of a response are found whatever their case; in \<^verbatim>\<open>dict(headers)\<close> only as they were sent.\<close>

type_synonym headers = "(string \<times> string) list"

definition header_get :: "headers \<Rightarrow> string \<Rightarrow> string option" where
  "header_get hs k = map_option snd (find (\<lambda>h. lower (fst h) = lower k) hs)"

definition dict_get :: "headers \<Rightarrow> string \<Rightarrow> string option" where
  "dict_get hs k = (if k \<in> set (map fst hs) then header_get hs k else None)"

subsection \<open>Fetching\<close>

datatype url_result = Opened int headers string | HttpError int headers | UrlFailed exn

record http_lib =
  float_of :: "string \<Rightarrow> real option"
  seconds_until :: "string \<Rightarrow> real option"
  gunzip :: "string \<Rightarrow> string res"
  utf8 :: "string \<Rightarrow> string"

definition retry_after_seconds :: "http_lib \<Rightarrow> headers \<Rightarrow> real option" where
  "retry_after_seconds http hs =
     (case header_get hs ''Retry-After'' of
        None \<Rightarrow> None
      | Some raw \<Rightarrow>
          if raw = [] then None
          else (case float_of http raw of
                  Some x \<Rightarrow> Some x
                | None \<Rightarrow> map_option (\<lambda>s. max 0 s) (seconds_until http raw)))"

definition read_body :: "http_lib \<Rightarrow> headers \<Rightarrow> string \<Rightarrow> string res" where
  "read_body http hs raw =
     (if MAX_BODY_BYTES < length raw then Inl ValueError
      else let encoding = strip (lower (case header_get hs ''Content-Encoding'' of None \<Rightarrow> [] | Some x \<Rightarrow> x))
        in if encoding = ''gzip'' then and_then (gunzip http raw) (\<lambda>b. Inr (utf8 http b))
           else if encoding \<noteq> [] \<and> encoding \<noteq> ''identity'' then Inl ValueError
           else Inr (utf8 http raw))"

type_synonym response = "int \<times> headers \<times> string option"

type_synonym 'e fetcher = "string \<times> headers \<Rightarrow> 'e \<Rightarrow> response res \<times> 'e"

definition http_fetch :: "http_lib \<Rightarrow> (string \<times> headers \<Rightarrow> 'e \<Rightarrow> url_result \<times> 'e) \<Rightarrow> 'e fetcher" where
  "http_fetch http urlopen request e =
     (case urlopen request e of
        (Opened status hs raw, e') \<Rightarrow>
          (and_then (read_body http hs raw) (\<lambda>body. Inr (status, hs, Some body)), e')
      | (HttpError status hs, e') \<Rightarrow>
          (if status = 304 then Inr (304, hs, None)
           else case retry_after_seconds http hs of
             Some s \<Rightarrow> Inl (RetryAfter s) | None \<Rightarrow> Inl (OtherError ''HTTPError''), e')
      | (UrlFailed x, e') \<Rightarrow> (Inl x, e'))"

subsection \<open>Backoff per host\<close>

text \<open>\<^verbatim>\<open>urlsplit(url).netloc.lower()\<close>, for a URL without bracketed addresses.\<close>

definition is_scheme_char :: "char \<Rightarrow> bool" where
  "is_scheme_char c \<longleftrightarrow> is_upper c \<or> is_lower c \<or> is_digit c \<or> c \<in> set ''+-.''"

definition after_scheme :: "string \<Rightarrow> string" where
  "after_scheme url =
     (let scheme = takeWhile (\<lambda>c. c \<noteq> CHR '':'') url; after = dropWhile (\<lambda>c. c \<noteq> CHR '':'') url
      in if scheme \<noteq> [] \<and> after \<noteq> [] \<and> (is_upper (hd scheme) \<or> is_lower (hd scheme)) \<and> list_all is_scheme_char scheme
         then tl after else url)"

definition url_text :: "string \<Rightarrow> string" where
  "url_text url = filter (\<lambda>c. c \<notin> {CHR 0x09, CHR 0x0A, CHR 0x0D}) (dropWhile (\<lambda>c. code c \<le> 32) url)"

definition host_of :: "string \<Rightarrow> string" where
  "host_of url =
     (let r = after_scheme (url_text url)
      in if prefix ''//'' r then lower (takeWhile (\<lambda>c. c \<notin> set ''/?#'') (drop 2 r)) else [])"

record backoff =
  bo_until :: "(string \<times> real) list"
  bo_failures :: "(string \<times> nat) list"

record backoff_data =
  bd_failures :: "(string \<times> nat) list"
  bd_deadlines :: "(string \<times> real) list"

definition new_backoff :: backoff where
  "new_backoff = \<lparr>bo_until = [], bo_failures = []\<rparr>"

definition snapshot :: "real \<Rightarrow> real \<Rightarrow> backoff \<Rightarrow> backoff_data" where
  "snapshot now wall b = \<lparr>bd_failures = bo_failures b,
     bd_deadlines = map (\<lambda>(u, t). (u, wall + (t - now))) (filter (\<lambda>(u, t). 0 < t - now) (bo_until b))\<rparr>"

fun restore_until :: "real \<Rightarrow> real \<Rightarrow> (string \<times> real) list \<Rightarrow> (string \<times> real) list \<Rightarrow> (string \<times> real) list" where
  "restore_until now wall [] u = u"
| "restore_until now wall ((host, deadline) # ds) u =
     restore_until now wall ds (if 0 < deadline - wall then dict_set host (now + (deadline - wall)) u else u)"

definition restore :: "real \<Rightarrow> real \<Rightarrow> backoff_data \<Rightarrow> backoff \<Rightarrow> backoff" where
  "restore now wall data b = \<lparr>bo_until = restore_until now wall (bd_deadlines data) (bo_until b),
     bo_failures = bd_failures data\<rparr>"

definition skip :: "real \<Rightarrow> string \<Rightarrow> backoff \<Rightarrow> bool" where
  "skip now url b \<longleftrightarrow> now < (case map_of (bo_until b) (host_of url) of None \<Rightarrow> 0 | Some t \<Rightarrow> t)"

definition failure_count :: "string \<Rightarrow> backoff \<Rightarrow> nat" where
  "failure_count url b = (case map_of (bo_failures b) (host_of url) of None \<Rightarrow> 0 | Some n \<Rightarrow> n)"

definition backoff_delay :: "nat \<Rightarrow> real option \<Rightarrow> real" where
  "backoff_delay n retry_after =
     (case retry_after of
        Some s \<Rightarrow> if 0 < s then min MAX_BACKOFF_S s else min MAX_BACKOFF_S (2 ^ min n 10)
      | None \<Rightarrow> min MAX_BACKOFF_S (2 ^ min n 10))"

definition failed :: "real \<Rightarrow> string \<Rightarrow> real option \<Rightarrow> backoff \<Rightarrow> real \<times> backoff" where
  "failed now url retry_after b =
     (let n = Suc (failure_count url b); delay = backoff_delay n retry_after
      in (delay, \<lparr>bo_until = dict_set (host_of url) (now + delay) (bo_until b),
                  bo_failures = dict_set (host_of url) n (bo_failures b)\<rparr>))"

definition succeeded :: "string \<Rightarrow> backoff \<Rightarrow> backoff" where
  "succeeded url b = \<lparr>bo_until = dict_del (host_of url) (bo_until b),
     bo_failures = dict_del (host_of url) (bo_failures b)\<rparr>"

definition active_count :: "real \<Rightarrow> backoff \<Rightarrow> nat" where
  "active_count now b = length (filter (\<lambda>(u, t). now < t) (bo_until b))"

subsection \<open>Validators\<close>

record cache =
  c_etag :: "(string \<times> string) list"
  c_modified :: "(string \<times> string) list"
  c_path :: string
  c_backoff :: backoff_data

record cache_file =
  f_etag :: "(string \<times> string) list"
  f_modified :: "(string \<times> string) list"
  f_backoff :: backoff_data

datatype disk = NoFile | Unreadable | Saved cache_file

definition empty_file :: cache_file where
  "empty_file = \<lparr>f_etag = [], f_modified = [], f_backoff = \<lparr>bd_failures = [], bd_deadlines = []\<rparr>\<rparr>"

definition file_of :: "disk \<Rightarrow> cache_file" where
  "file_of d = (case d of Saved f \<Rightarrow> f | _ \<Rightarrow> empty_file)"

definition load_cache :: "string \<Rightarrow> disk \<Rightarrow> cache" where
  "load_cache path d =
     (let f = if path = [] then empty_file else file_of d
      in \<lparr>c_etag = f_etag f, c_modified = f_modified f, c_path = path, c_backoff = f_backoff f\<rparr>)"

text \<open>A save may fail (\<open>writes = False\<close>); the file is replaced as a whole.\<close>

definition save_cache :: "bool \<Rightarrow> real \<Rightarrow> real \<Rightarrow> backoff \<Rightarrow> cache \<Rightarrow> disk \<Rightarrow> cache \<times> disk" where
  "save_cache writes now wall b c d =
     (if c_path c = [] then (c, d)
      else let c1 = c\<lparr>c_backoff := snapshot now wall b\<rparr>
        in (c1, if writes then Saved \<lparr>f_etag = c_etag c1, f_modified = c_modified c1, f_backoff = c_backoff c1\<rparr> else d))"

definition headers_for :: "string \<Rightarrow> cache \<Rightarrow> headers" where
  "headers_for url c =
     (let optional = (\<lambda>name v. if truthy v then [(name, the v)] else [])
      in [(''User-Agent'', USER_AGENT), (''Accept-Encoding'', ''gzip'')]
           @ optional ''If-None-Match'' (map_of (c_etag c) url)
           @ optional ''If-Modified-Since'' (map_of (c_modified c) url))"

definition remember_in :: "string \<Rightarrow> string option \<Rightarrow> (string \<times> string) list \<Rightarrow> (string \<times> string) list" where
  "remember_in url v d = (if truthy v then dict_set url (the v) d else d)"

definition remember :: "string \<Rightarrow> headers \<Rightarrow> cache \<Rightarrow> cache" where
  "remember url hs c = c\<lparr>c_etag := remember_in url (dict_get hs ''ETag'') (c_etag c),
     c_modified := remember_in url (dict_get hs ''Last-Modified'') (c_modified c)\<rparr>"

subsection \<open>Delays\<close>

lemma backoff_delay_bounds: "0 < backoff_delay n ra \<and> backoff_delay n ra \<le> MAX_BACKOFF_S"
proof -
  have "0 < min MAX_BACKOFF_S ((2::real) ^ k)" for k by (simp add: MAX_BACKOFF_S_def)
  then show ?thesis by (auto simp: backoff_delay_def MAX_BACKOFF_S_def split: option.split)
qed

lemma skip_failed:
  "skip t url' (snd (failed now url ra b)) =
     (if host_of url' = host_of url then t < now + fst (failed now url ra b) else skip t url' b)"
  by (simp add: skip_def failed_def Let_def)

lemma skip_succeeded: "0 \<le> t \<Longrightarrow> skip t url' (succeeded url b) = (host_of url' \<noteq> host_of url \<and> skip t url' b)"
  by (simp add: skip_def succeeded_def)

text \<open>\<open>k\<close> failures in a row, at the given times and with the given \<^verbatim>\<open>Retry-After\<close>.\<close>

fun fail_at :: "(real \<times> real option) list \<Rightarrow> string \<Rightarrow> backoff \<Rightarrow> backoff" where
  "fail_at [] url b = b"
| "fail_at ((now, ra) # fs) url b = fail_at fs url (snd (failed now url ra b))"

lemma failure_count_failed: "failure_count url (snd (failed now url ra b)) = Suc (failure_count url b)"
  by (simp add: failure_count_def failed_def Let_def)

lemma failure_count_fail_at: "failure_count url (fail_at fs url b) = failure_count url b + length fs"
  by (induction fs url b rule: fail_at.induct) (simp_all add: failure_count_failed)

text \<open>Backoff is bounded and per host: after any row of failures and one more, every feed of the host is skipped
  for the reported delay and no longer, the feeds of other hosts as before; the delay is the provider's
  own when it gave a positive one and \<open>2 ^ n\<close> seconds for the n-th failure in a row otherwise, and is more
  than 0 and at most 300 seconds.\<close>

theorem backoff_is_bounded_and_per_host:
  "let b0 = fail_at fs url (succeeded url b); n = Suc (length fs); (delay, b1) = failed now url ra b0 in
     0 < delay \<and> delay \<le> 300
     \<and> delay = (case ra of Some s \<Rightarrow> if 0 < s then min 300 s else min 300 (2 ^ min n 10) | None \<Rightarrow> min 300 (2 ^ min n 10))
     \<and> (\<forall>t url'. skip t url' b1 = (if host_of url' = host_of url then t < now + delay else skip t url' b0))"
proof -
  let ?b0 = "fail_at fs url (succeeded url b)"
  have "failure_count url ?b0 = length fs"
    by (simp add: failure_count_fail_at) (simp add: failure_count_def succeeded_def)
  then have d: "fst (failed now url ra ?b0) = backoff_delay (Suc (length fs)) ra" by (simp add: failed_def Let_def)
  obtain delay b1 where f: "failed now url ra ?b0 = (delay, b1)" by fastforce
  have "delay = backoff_delay (Suc (length fs)) ra" using d f by simp
  then show ?thesis
    using backoff_delay_bounds [of "Suc (length fs)" ra] skip_failed [of _ _ now url ra ?b0]
    by (simp add: f Let_def) (simp add: MAX_BACKOFF_S_def backoff_delay_def split: option.split)
qed

subsection \<open>Backoff over a restart\<close>

lemma restore_until_keys:
  "keyed fst ds \<Longrightarrow> map_of (restore_until now wall ds u) h =
     (case map_of ds h of Some t \<Rightarrow> if 0 < t - wall then Some (now + (t - wall)) else map_of u h | None \<Rightarrow> map_of u h)"
proof (induction now wall ds u rule: restore_until.induct)
  case (2 now wall host deadline ds u)
  then have "map_of ds host = None" by (auto simp: keyed_def map_of_eq_None_iff image_iff)
  with 2 show ?case by (auto simp: keyed_def split: option.split)
qed simp

lemma keyed_snapshot: "keyed fst (bo_until b) \<Longrightarrow> keyed fst (bd_deadlines (snapshot now wall b))"
proof -
  have "map fst (bd_deadlines (snapshot now wall b)) = map fst (filter (\<lambda>(u, t). 0 < t - now) (bo_until b))"
    by (auto simp: snapshot_def)
  then show "keyed fst (bo_until b) \<Longrightarrow> ?thesis" by (simp add: keyed_def distinct_map_filter)
qed

lemma map_of_snapshot:
  "keyed fst (bo_until b) \<Longrightarrow> map_of (bd_deadlines (snapshot now wall b)) h =
     (case map_of (bo_until b) h of Some t \<Rightarrow> if 0 < t - now then Some (wall + (t - now)) else None | None \<Rightarrow> None)"
proof (induction "bo_until b" arbitrary: b)
  case Nil
  then show ?case by (simp add: snapshot_def)
next
  case (Cons kv u)
  obtain k t where kv: "kv = (k, t)" by fastforce
  have u: "keyed fst u" "k \<notin> fst ` set u" using Cons.prems Cons.hyps(2) kv by (auto simp: keyed_def simp flip: Cons.hyps(2))
  have IH: "map_of (bd_deadlines (snapshot now wall (b\<lparr>bo_until := u\<rparr>))) h =
     (case map_of u h of Some t \<Rightarrow> if 0 < t - now then Some (wall + (t - now)) else None | None \<Rightarrow> None)"
    using Cons.hyps(1) [of "b\<lparr>bo_until := u\<rparr>"] u(1) by simp
  have "map_of u k = None" using u(2) by (simp add: map_of_eq_None_iff)
  with IH show ?case by (auto simp: snapshot_def kv simp flip: Cons.hyps(2))
qed

text \<open>C35. Backoff survives a restart: restored from its snapshot on another monotonic clock, with the wall clock gone on
  from \<open>wall0\<close> to \<open>wall1\<close>, the backoff skips a feed at any later moment exactly when the old one would have.\<close>

theorem backoff_survives_restart:
  assumes "keyed fst (bo_until b)" and "0 \<le> now0" and "0 \<le> now1" and "wall0 \<le> wall1" and "0 \<le> later"
  shows "skip (now1 + later) url (restore now1 wall1 (snapshot now0 wall0 b) new_backoff)
    = skip (now0 + (wall1 - wall0) + later) url b"
proof -
  have "map_of (bo_until (restore now1 wall1 (snapshot now0 wall0 b) new_backoff)) (host_of url) =
     (case map_of (bd_deadlines (snapshot now0 wall0 b)) (host_of url) of
        Some t \<Rightarrow> if 0 < t - wall1 then Some (now1 + (t - wall1)) else None | None \<Rightarrow> None)"
    using restore_until_keys [OF keyed_snapshot [OF assms(1)], of now1 wall1 now0 wall0 "[]"]
    by (simp add: restore_def new_backoff_def split: option.splits)
  with map_of_snapshot [OF assms(1)] assms(2-) show ?thesis
    by (auto simp: skip_def split: option.split)
qed

theorem backoff_survives_restart_witness:
  "let b = snd (failed 5 ''https://Status.x.com/history.atom'' (Some 60) new_backoff);
       b' = restore 7 1010 (snapshot 5 1000 b) new_backoff
   in skip 8 ''https://status.x.com/feed'' b' \<and> \<not> skip 57 ''https://status.x.com/feed'' b'"
proof -
  let ?b = "snd (failed 5 ''https://Status.x.com/history.atom'' (Some 60) new_backoff)"
  have h: "host_of ''https://Status.x.com/history.atom'' = host_of ''https://status.x.com/feed''" by code_simp
  have k: "keyed fst (bo_until ?b)" by (simp add: failed_def Let_def new_backoff_def dict_set_def keyed_def)
  have t: "skip t ''https://status.x.com/feed'' ?b = (t < 65)" for t
    using h by (simp add: skip_failed) (simp add: failed_def backoff_delay_def MAX_BACKOFF_S_def Let_def)
  show ?thesis
    using backoff_survives_restart [OF k, of 5 7 1000 1010 1 "''https://status.x.com/feed''"]
      backoff_survives_restart [OF k, of 5 7 1000 1010 50 "''https://status.x.com/feed''"]
    by (simp add: t Let_def)
qed

subsection \<open>Two limits of the fetch\<close>

text \<open>A server that spells the header \<^verbatim>\<open>etag\<close> gets no conditional requests: \<^verbatim>\<open>dict(response.headers)\<close> is looked
  up with the spelling \<^verbatim>\<open>ETag\<close>.\<close>

lemma lower_case_etag_is_not_remembered:
  "header_get [(''etag'', v)] ''ETag'' = Some v \<and> remember url [(''etag'', v)] c = c"
proof -
  have "lower ''ETag'' = lower ''etag''" by code_simp
  then show ?thesis by (simp add: header_get_def remember_def remember_in_def dict_get_def truthy_def)
qed

text \<open>The size cap is on the bytes received; what they decompress to is not bounded.\<close>

lemma cap_is_on_the_compressed_bytes:
  "length raw \<le> MAX_BODY_BYTES \<Longrightarrow> gunzip http raw = Inr b \<Longrightarrow>
     read_body http [(''Content-Encoding'', ''gzip'')] raw = Inr (utf8 http b)"
proof -
  have "lower ''Content-Encoding'' = lower ''Content-Encoding''" "strip (lower ''gzip'') = ''gzip''" by (simp, code_simp)
  then show "length raw \<le> MAX_BODY_BYTES \<Longrightarrow> gunzip http raw = Inr b \<Longrightarrow> ?thesis"
    by (simp add: read_body_def header_get_def Let_def)
qed

end
