(* ===== verification/Pool.thy ===== *)
theory Pool
  imports Fetching
begin

section \<open>The thread pool of a sweep (\<^verbatim>\<open>poll_once\<close> in \<^verbatim>\<open>freshet/ingest/poller.py\<close>)\<close>

text \<open>
  A sweep fetches its pages in a pool of twelve threads that share the validators and the backoff. A task runs
  \<^verbatim>\<open>one(page)\<close> in steps, one for each access to what is shared; a schedule says which task moves next and how much
  time passes before. Whatever the schedule leaves unfinished is finished in the order of the pages, as \<^verbatim>\<open>pool.map\<close>
  waits for every task; so the empty schedule is the sequential reading of the code, \<open>poll_pages\<close>. The log of
  received feeds is for the theorems: under any schedule a sweep emits exactly the updates of the feeds it received,
  at most twelve requests are under way, and no host is silenced for longer than the longest backoff.
\<close>

definition MAX_WORKERS :: nat where
  "MAX_WORKERS = 12"

text \<open>A received feed: its page, the headers and the body.\<close>

type_synonym received = "page \<times> headers \<times> string"

text \<open>\<open>ps_fetches\<close> and \<open>ps_parsed\<close> are the labelled increments of \<^verbatim>\<open>POLL_FETCH\<close> and \<^verbatim>\<open>POLL_UPDATES\<close>.\<close>

record 'e poll_state =
  ps_cache :: cache
  ps_backoff :: backoff
  ps_mono :: real
  ps_wall :: real
  ps_env :: 'e
  ps_log :: "received list"
  ps_fetches :: "(string \<times> string) list"
  ps_parsed :: "(string \<times> nat) list"

definition idle :: "real \<Rightarrow> 'e poll_state \<Rightarrow> 'e poll_state" where
  "idle d s = s\<lparr>ps_mono := ps_mono s + d, ps_wall := ps_wall s + d\<rparr>"

definition count_fetch :: "page \<Rightarrow> string \<Rightarrow> 'e poll_state \<Rightarrow> 'e poll_state" where
  "count_fetch pg status s = s\<lparr>ps_fetches := ps_fetches s @ [(pg_provider pg, status)]\<rparr>"

definition after_of :: "exn \<Rightarrow> real option" where
  "after_of e = (case e of RetryAfter s \<Rightarrow> Some s | _ \<Rightarrow> None)"

subsection \<open>One page, sequentially\<close>

definition read_feed :: "feed_lib \<Rightarrow> page \<Rightarrow> response \<Rightarrow> 'e poll_state \<Rightarrow> incident_update list \<times> 'e poll_state" where
  "read_feed lib pg resp s =
     (case resp of (status, hs, body) \<Rightarrow>
        let s0 = count_fetch pg (show_int status) s in
        if status = 304 \<or> \<not> truthy body then ([], s0)
        else let s1 = s0\<lparr>ps_log := ps_log s0 @ [(pg, hs, the body)]\<rparr>
          in (case parse_atom lib (pg_provider pg) (the body) of
                Inl e \<Rightarrow> ([], count_fetch pg ''error'' s1)
              | Inr us \<Rightarrow>
                  if us = [] then ([], s1)
                  else (us, s1\<lparr>ps_parsed := ps_parsed s1 @ [(pg_provider pg, length us)],
                               ps_cache := remember (pg_url pg) hs (ps_cache s1)\<rparr>)))"

definition poll_page ::
  "feed_lib \<Rightarrow> 'e fetcher \<Rightarrow> page \<Rightarrow> 'e poll_state \<Rightarrow> incident_update list \<times> 'e poll_state" where
  "poll_page lib fetch pg s =
     (if skip (ps_mono s) (pg_url pg) (ps_backoff s) then ([], count_fetch pg ''skipped'' s)
      else case fetch (pg_url pg, headers_for (pg_url pg) (ps_cache s)) (ps_env s) of
        (Inl e, net) \<Rightarrow>
          ([], count_fetch pg ''error'' (s\<lparr>ps_env := net,
                 ps_backoff := snd (failed (ps_mono s) (pg_url pg) (after_of e) (ps_backoff s))\<rparr>))
      | (Inr resp, net) \<Rightarrow>
          read_feed lib pg resp (s\<lparr>ps_env := net, ps_backoff := succeeded (pg_url pg) (ps_backoff s)\<rparr>))"

fun poll_pages ::
  "feed_lib \<Rightarrow> 'e fetcher \<Rightarrow> page list \<Rightarrow> 'e poll_state \<Rightarrow> incident_update list list \<times> 'e poll_state" where
  "poll_pages lib fetch [] s = ([], s)"
| "poll_pages lib fetch (pg # pgs) s =
     (case poll_page lib fetch pg s of
        (us, s1) \<Rightarrow> (case poll_pages lib fetch pgs s1 of (uss, s2) \<Rightarrow> (us # uss, s2)))"

subsection \<open>One page, in steps\<close>

text \<open>\<open>Counted\<close> is a failure whose number has been read from the dictionary and not yet written back; \<open>Delayed\<close> one
  whose deadline is still to be written; \<open>Forgiven\<close> a response after the first \<^verbatim>\<open>pop\<close> of \<^verbatim>\<open>succeeded\<close>; \<open>Noted\<close> a feed
  whose \<^verbatim>\<open>ETag\<close> has been stored.\<close>

datatype task =
    Waiting
  | Asking headers
  | Answered "response res"
  | Counted "real option" nat
  | Delayed real
  | Forgiven response
  | Received headers string
  | Parsed headers "incident_update list"
  | Noted headers "incident_update list"
  | Finished "incident_update list"

definition on_backoff :: "(backoff \<Rightarrow> backoff) \<Rightarrow> 'e poll_state \<Rightarrow> 'e poll_state" where
  "on_backoff f s = s\<lparr>ps_backoff := f (ps_backoff s)\<rparr>"

definition set_failures :: "string \<Rightarrow> nat \<Rightarrow> backoff \<Rightarrow> backoff" where
  "set_failures url n b = b\<lparr>bo_failures := dict_set (host_of url) n (bo_failures b)\<rparr>"

definition set_until :: "string \<Rightarrow> real \<Rightarrow> backoff \<Rightarrow> backoff" where
  "set_until url t b = b\<lparr>bo_until := dict_set (host_of url) t (bo_until b)\<rparr>"

definition pop_failures :: "string \<Rightarrow> backoff \<Rightarrow> backoff" where
  "pop_failures url b = b\<lparr>bo_failures := dict_del (host_of url) (bo_failures b)\<rparr>"

definition pop_until :: "string \<Rightarrow> backoff \<Rightarrow> backoff" where
  "pop_until url b = b\<lparr>bo_until := dict_del (host_of url) (bo_until b)\<rparr>"

fun step_task :: "feed_lib \<Rightarrow> 'e fetcher \<Rightarrow> page \<Rightarrow> task \<Rightarrow> 'e poll_state \<Rightarrow> task \<times> 'e poll_state" where
  "step_task lib fetch pg Waiting s =
     (if skip (ps_mono s) (pg_url pg) (ps_backoff s) then (Finished [], count_fetch pg ''skipped'' s)
      else (Asking (headers_for (pg_url pg) (ps_cache s)), s))"
| "step_task lib fetch pg (Asking hs) s =
     (case fetch (pg_url pg, hs) (ps_env s) of (r, net) \<Rightarrow> (Answered r, s\<lparr>ps_env := net\<rparr>))"
| "step_task lib fetch pg (Answered (Inl e)) s =
     (Counted (after_of e) (Suc (failure_count (pg_url pg) (ps_backoff s))), s)"
| "step_task lib fetch pg (Counted after n) s =
     (Delayed (backoff_delay n after), on_backoff (set_failures (pg_url pg) n) s)"
| "step_task lib fetch pg (Delayed d) s =
     (Finished [], count_fetch pg ''error'' (on_backoff (set_until (pg_url pg) (ps_mono s + d)) s))"
| "step_task lib fetch pg (Answered (Inr resp)) s = (Forgiven resp, on_backoff (pop_failures (pg_url pg)) s)"
| "step_task lib fetch pg (Forgiven resp) s =
     (case resp of (status, hs, body) \<Rightarrow>
        let s0 = count_fetch pg (show_int status) (on_backoff (pop_until (pg_url pg)) s) in
        if status = 304 \<or> \<not> truthy body then (Finished [], s0)
        else (Received hs (the body), s0\<lparr>ps_log := ps_log s0 @ [(pg, hs, the body)]\<rparr>))"
| "step_task lib fetch pg (Received hs body) s =
     (case parse_atom lib (pg_provider pg) body of
        Inl e \<Rightarrow> (Finished [], count_fetch pg ''error'' s)
      | Inr us \<Rightarrow>
          if us = [] then (Finished [], s)
          else (Parsed hs us, s\<lparr>ps_parsed := ps_parsed s @ [(pg_provider pg, length us)]\<rparr>))"
| "step_task lib fetch pg (Parsed hs us) s =
     (Noted hs us, s\<lparr>ps_cache := (ps_cache s)\<lparr>c_etag := remember_in (pg_url pg) (dict_get hs ''ETag'') (c_etag (ps_cache s))\<rparr>\<rparr>)"
| "step_task lib fetch pg (Noted hs us) s =
     (Finished us, s\<lparr>ps_cache := (ps_cache s)
        \<lparr>c_modified := remember_in (pg_url pg) (dict_get hs ''Last-Modified'') (c_modified (ps_cache s))\<rparr>\<rparr>)"
| "step_task lib fetch pg (Finished us) s = (Finished us, s)"

text \<open>A task has at most seven steps.\<close>

definition TASK_STEPS :: nat where
  "TASK_STEPS = 7"

fun run_task :: "nat \<Rightarrow> feed_lib \<Rightarrow> 'e fetcher \<Rightarrow> page \<Rightarrow> task \<Rightarrow> 'e poll_state \<Rightarrow> task \<times> 'e poll_state" where
  "run_task 0 lib fetch pg t s = (t, s)"
| "run_task (Suc n) lib fetch pg t s = (case step_task lib fetch pg t s of (t1, s1) \<Rightarrow> run_task n lib fetch pg t1 s1)"

text \<open>The steps of a task that nobody interrupts are \<^verbatim>\<open>one(page)\<close>.\<close>

lemma failed_in_steps:
  "snd (failed now url ra b) = set_until url (now + backoff_delay (Suc (failure_count url b)) ra)
     (set_failures url (Suc (failure_count url b)) b)"
  by (simp add: failed_def set_until_def set_failures_def Let_def)

lemma succeeded_in_steps: "succeeded url b = pop_until url (pop_failures url b)"
  by (simp add: succeeded_def pop_until_def pop_failures_def)

lemma remember_in_steps:
  "remember url hs c = (let c1 = c\<lparr>c_etag := remember_in url (dict_get hs ''ETag'') (c_etag c)\<rparr>
     in c1\<lparr>c_modified := remember_in url (dict_get hs ''Last-Modified'') (c_modified c1)\<rparr>)"
  by (simp add: remember_def)

lemma run_task_finished [simp]: "run_task n lib fetch pg (Finished us) s = (Finished us, s)"
  by (induction n) simp_all

lemma run_task_is_poll_page:
  "run_task TASK_STEPS lib fetch pg Waiting s = (case poll_page lib fetch pg s of (us, s') \<Rightarrow> (Finished us, s'))"
proof -
  have seven: "TASK_STEPS = Suc (Suc (Suc (Suc (Suc (Suc (Suc 0))))))" by (simp add: TASK_STEPS_def)
  obtain r net where f: "fetch (pg_url pg, headers_for (pg_url pg) (ps_cache s)) (ps_env s) = (r, net)" by fastforce
  show ?thesis
  proof (cases r)
    case (Inl e)
    then show ?thesis
      by (simp add: seven poll_page_def f failed_in_steps on_backoff_def count_fetch_def)
  next
    case (Inr resp)
    obtain status hs body where "resp = (status, hs, body)" by (metis prod_cases3)
    with Inr show ?thesis
      by (auto simp: seven poll_page_def f succeeded_in_steps on_backoff_def count_fetch_def read_feed_def Let_def
          remember_in_steps split: sum.splits)
  qed
qed

subsection \<open>The pool\<close>

text \<open>The microseconds that pass, and the task that moves then. A task is started only when those before it have been
  and a thread is free; an entry that names a task that cannot move only lets the time pass.\<close>

type_synonym schedule = "(nat \<times> nat) list"

definition under_way :: "task \<Rightarrow> bool" where
  "under_way t \<longleftrightarrow> (case t of Waiting \<Rightarrow> False | Finished us \<Rightarrow> False | _ \<Rightarrow> True)"

definition busy :: "task list \<Rightarrow> nat" where
  "busy ts = length (filter under_way ts)"

definition may_run :: "task list \<Rightarrow> nat \<Rightarrow> bool" where
  "may_run ts i \<longleftrightarrow> i < length ts
     \<and> (under_way (ts ! i) \<or> ts ! i = Waiting \<and> list_all (\<lambda>t. t \<noteq> Waiting) (take i ts) \<and> busy ts < MAX_WORKERS)"

definition pool_step ::
  "feed_lib \<Rightarrow> 'e fetcher \<Rightarrow> page list \<Rightarrow> nat \<times> nat \<Rightarrow> task list \<times> 'e poll_state \<Rightarrow> task list \<times> 'e poll_state" where
  "pool_step lib fetch pages m p =
     (case (m, p) of ((d, i), (ts, s)) \<Rightarrow>
        let s1 = idle (total_seconds (int d)) s in
        if may_run ts i then (case step_task lib fetch (pages ! i) (ts ! i) s1 of (t, s2) \<Rightarrow> (ts[i := t], s2))
        else (ts, s1))"

fun run_pool ::
  "feed_lib \<Rightarrow> 'e fetcher \<Rightarrow> page list \<Rightarrow> schedule \<Rightarrow> task list \<times> 'e poll_state \<Rightarrow> task list \<times> 'e poll_state" where
  "run_pool lib fetch pages [] p = p"
| "run_pool lib fetch pages (m # ms) p = run_pool lib fetch pages ms (pool_step lib fetch pages m p)"

definition drain_schedule :: "nat \<Rightarrow> schedule" where
  "drain_schedule n = concat (map (\<lambda>i. replicate TASK_STEPS (0, i)) [0..<n])"

definition start_pool :: "page list \<Rightarrow> task list" where
  "start_pool pages = replicate (length pages) Waiting"

definition result_of :: "task \<Rightarrow> incident_update list" where
  "result_of t = (case t of Finished us \<Rightarrow> us | _ \<Rightarrow> [])"

definition poll_once ::
  "feed_lib \<Rightarrow> 'e fetcher \<Rightarrow> page list \<Rightarrow> schedule \<Rightarrow> 'e poll_state \<Rightarrow> incident_update list \<times> 'e poll_state" where
  "poll_once lib fetch pages sched s =
     (case run_pool lib fetch pages (sched @ drain_schedule (length pages)) (start_pool pages, s) of
        (ts, s1) \<Rightarrow> (sort_key iu_created_at (concat (map result_of ts)), s1))"

definition active_hosts :: "'e poll_state \<Rightarrow> nat" where
  "active_hosts s = active_count (ps_mono s) (ps_backoff s)"

lemma run_pool_append: "run_pool lib fetch pages (xs @ ys) p = run_pool lib fetch pages ys (run_pool lib fetch pages xs p)"
  by (induction lib fetch pages xs p rule: run_pool.induct) simp_all

text \<open>What every move keeps, the pool keeps.\<close>

lemma run_pool_inv:
  assumes "I ts s" and "length ts = length pages"
    and pause: "\<And>ts s d. I ts s \<Longrightarrow> I ts (idle (total_seconds (int d)) s)"
    and move: "\<And>ts s i t' s'. I ts s \<Longrightarrow> length ts = length pages \<Longrightarrow> may_run ts i \<Longrightarrow>
      step_task lib fetch (pages ! i) (ts ! i) s = (t', s') \<Longrightarrow> I (ts[i := t']) s'"
    and "run_pool lib fetch pages ms (ts, s) = (ts', s')"
  shows "I ts' s' \<and> length ts' = length pages"
  using assms(1,2,5)
proof (induction ms arbitrary: ts s)
  case (Cons m ms)
  obtain d i where m: "m = (d, i)" by fastforce
  obtain ts1 s1 where st: "pool_step lib fetch pages m (ts, s) = (ts1, s1)" by fastforce
  have "I ts1 s1 \<and> length ts1 = length pages"
    using st Cons.prems(1,2) pause move [OF pause [OF Cons.prems(1)] Cons.prems(2)]
    by (auto simp: pool_step_def m Let_def split: if_splits prod.splits)
  with Cons.IH [of ts1 s1] Cons.prems(3) st show ?case by simp
qed simp

subsection \<open>No more than twelve requests, and every task is finished\<close>

lemma busy_update: "i < length ts \<Longrightarrow> busy (ts[i := t]) + (if under_way (ts ! i) then 1 else 0) = busy ts + (if under_way t then 1 else 0)"
proof (induction ts arbitrary: i)
  case (Cons a ts)
  then show ?case by (cases i) (auto simp: busy_def)
qed simp

lemma busy_bound: "busy ts \<le> MAX_WORKERS \<Longrightarrow> may_run ts i \<Longrightarrow> busy (ts[i := t]) \<le> MAX_WORKERS"
  using busy_update [of i ts t] by (auto simp: may_run_def split: if_splits)

lemma pool_is_bounded:
  "run_pool lib fetch pages ms (ts, s) = (ts', s') \<Longrightarrow> length ts = length pages \<Longrightarrow> busy ts \<le> MAX_WORKERS \<Longrightarrow> busy ts' \<le> MAX_WORKERS"
  using run_pool_inv [of "\<lambda>ts s. busy ts \<le> MAX_WORKERS", OF _ _ _ busy_bound] by blast

text \<open>The tasks are started in the order of the pages.\<close>

definition in_order :: "task list \<Rightarrow> bool" where
  "in_order ts \<longleftrightarrow> sorted (map (\<lambda>t. t = Waiting) ts)"

lemma step_not_waiting: "step_task lib fetch pg t s = (t', s') \<Longrightarrow> t' \<noteq> Waiting"
  by (cases "(lib, fetch, pg, t, s)" rule: step_task.cases)
    (auto simp: Let_def split: if_splits prod.splits sum.splits)

lemma in_order_step:
  assumes "in_order ts" and "may_run ts i" and "t \<noteq> Waiting"
  shows "in_order (ts[i := t])"
proof -
  have "(ts ! j = Waiting) \<le> (ts ! k = Waiting)" if "j \<le> k" "k < length ts" for j k
    using assms(1) that unfolding in_order_def by (simp add: sorted_iff_nth_mono)
  moreover have "ts ! j \<noteq> Waiting" if "j < i" for j
  proof (cases "under_way (ts ! i)")
    case True
    then have "ts ! i \<noteq> Waiting" by (auto simp: under_way_def)
    with calculation [of j i] that assms(2) show ?thesis by (auto simp: may_run_def)
  next
    case False
    with assms(2) that show ?thesis by (auto simp: may_run_def list_all_length)
  qed
  ultimately show ?thesis
    using assms(2,3) unfolding in_order_def sorted_iff_nth_mono
    by (auto simp: nth_list_update may_run_def)
qed

fun steps_left :: "task \<Rightarrow> nat" where
  "steps_left Waiting = 7"
| "steps_left (Asking hs) = 6"
| "steps_left (Answered r) = 5"
| "steps_left (Forgiven r) = 4"
| "steps_left (Received hs b) = 3"
| "steps_left (Parsed hs us) = 2"
| "steps_left (Noted hs us) = 1"
| "steps_left (Counted a n) = 2"
| "steps_left (Delayed d) = 1"
| "steps_left (Finished us) = 0"

lemma steps_left_finished: "steps_left t = 0 \<longleftrightarrow> (\<exists>us. t = Finished us)"
  by (cases t) auto

lemma steps_left_bound: "steps_left t \<le> TASK_STEPS"
  by (cases t) (simp_all add: TASK_STEPS_def)

lemma step_makes_progress: "step_task lib fetch pg t s = (t', s') \<Longrightarrow> steps_left t' \<le> steps_left t - 1"
  by (cases "(lib, fetch, pg, t, s)" rule: step_task.cases)
    (auto simp: Let_def split: if_splits prod.splits sum.splits)

lemma run_task_ends: "steps_left t \<le> n \<Longrightarrow> \<exists>us. fst (run_task n lib fetch pg t s) = Finished us"
proof (induction n arbitrary: t s)
  case (Suc n)
  obtain t1 s1 where st: "step_task lib fetch pg t s = (t1, s1)" by fastforce
  from step_makes_progress [OF st] Suc.prems Suc.IH [of t1 s1] show ?case by (simp add: st)
qed (simp add: steps_left_finished)

lemma idle_task_moves:
  assumes "in_order ts" and "i < length ts" and "\<forall>j < i. steps_left (ts ! j) = 0"
  shows "may_run ts i \<or> steps_left (ts ! i) = 0"
proof (cases "ts ! i = Waiting")
  case True
  have "\<not> under_way t" if t: "t \<in> set ts" for t
  proof -
    obtain j where j: "j < length ts" "t = ts ! j" using t by (metis in_set_conv_nth)
    show ?thesis
    proof (cases "j < i")
      case True
      with assms(3) j steps_left_finished show ?thesis by (auto simp: under_way_def)
    next
      case False
      then have "map (\<lambda>t. t = Waiting) ts ! i \<le> map (\<lambda>t. t = Waiting) ts ! j"
        using assms(1) j(1) unfolding in_order_def by (intro sorted_nth_mono) simp_all
      with assms(2) j \<open>ts ! i = Waiting\<close> have "t = Waiting" by simp
      then show ?thesis by (simp add: under_way_def)
    qed
  qed
  then have "busy ts = 0" by (simp add: busy_def filter_empty_conv)
  moreover have "ts ! j \<noteq> Waiting" if "j < i" for j using assms(3) that by force
  ultimately show ?thesis using True assms(2) by (auto simp: may_run_def MAX_WORKERS_def list_all_length)
next
  case False
  with assms(2) show ?thesis by (cases "ts ! i") (simp_all add: may_run_def under_way_def)
qed

lemma idle_0 [simp]: "idle 0 s = s"
  by (simp add: idle_def)

lemma drain_one:
  assumes "in_order ts" and "i < length ts" and "\<forall>j < i. steps_left (ts ! j) = 0"
  shows "run_pool lib fetch pages (replicate n (0, i)) (ts, s) =
    (case run_task n lib fetch (pages ! i) (ts ! i) s of (t, s') \<Rightarrow> (ts[i := t], s'))"
  using assms
proof (induction n arbitrary: ts s)
  case (Suc n)
  have z: "total_seconds (int 0) = 0" by (simp add: total_seconds_def)
  obtain t1 s1 where st: "step_task lib fetch (pages ! i) (ts ! i) s = (t1, s1)" by fastforce
  show ?case
  proof (cases "may_run ts i")
    case True
    have "in_order (ts[i := t1])" by (rule in_order_step [OF Suc.prems(1) True step_not_waiting [OF st]])
    with Suc.IH [of "ts[i := t1]" s1] Suc.prems(2,3) True st show ?thesis
      by (simp add: pool_step_def z)
  next
    case False
    then obtain us where us: "ts ! i = Finished us"
      using idle_task_moves [OF Suc.prems] steps_left_finished by auto
    then have "run_pool lib fetch pages (replicate n (0, i)) (ts, s) = (ts[i := Finished us], s)"
      using Suc.IH [OF Suc.prems, of s] by simp
    with us False show ?thesis by (simp add: pool_step_def z)
  qed
qed simp

definition drain_from :: "nat \<Rightarrow> nat \<Rightarrow> schedule" where
  "drain_from k n = concat (map (\<lambda>i. replicate TASK_STEPS (0, i)) [k..<n])"

lemma drain_from_step: "k < n \<Longrightarrow> drain_from k n = replicate TASK_STEPS (0, k) @ drain_from (Suc k) n"
  by (simp add: drain_from_def upt_conv_Cons)

lemma drain_from_end: "drain_from n n = []"
  by (simp add: drain_from_def)

lemma drain_finishes:
  assumes "in_order ts" and "k \<le> length ts" and "\<forall>j < k. steps_left (ts ! j) = 0"
  shows "\<forall>t \<in> set (fst (run_pool lib fetch pages (drain_from k (length ts)) (ts, s))). steps_left t = 0"
  using assms
proof (induction "length ts - k" arbitrary: k ts s)
  case 0
  then show ?case by (auto simp: drain_from_end in_set_conv_nth)
next
  case (Suc m)
  then have k: "k < length ts" by linarith
  obtain t s1 where rt: "run_task TASK_STEPS lib fetch (pages ! k) (ts ! k) s = (t, s1)" by fastforce
  have t: "steps_left t = 0"
    using run_task_ends [where n = TASK_STEPS and t = "ts ! k" and s = s, OF steps_left_bound] rt steps_left_finished by (metis fst_conv)
  have "in_order (ts[k := t])"
  proof (cases "may_run ts k")
    case True
    have "t \<noteq> Waiting" using t by auto
    with in_order_step [OF Suc.prems(1) True] show ?thesis by blast
  next
    case False
    then have "ts ! k = t" using idle_task_moves [OF Suc.prems(1) k Suc.prems(3)] rt steps_left_finished by auto
    with Suc.prems(1) show ?thesis by auto
  qed
  moreover have "\<forall>j < Suc k. steps_left (ts[k := t] ! j) = 0"
    using Suc.prems(3) t k by (auto simp: nth_list_update less_Suc_eq)
  ultimately show ?case
    using Suc.hyps(1) [of "ts[k := t]" "Suc k" s1] Suc.hyps(2) k
    by (simp add: drain_from_step run_pool_append drain_one [OF Suc.prems(1) k Suc.prems(3)] rt)
qed

lemma pool_keeps_in_order:
  "run_pool lib fetch pages ms (ts, s) = (ts', s') \<Longrightarrow> length ts = length pages \<Longrightarrow> in_order ts \<Longrightarrow> in_order ts' \<and> length ts' = length pages"
  using run_pool_inv [of "\<lambda>ts s. in_order ts", OF _ _ _ in_order_step] step_not_waiting by blast

lemma drain_schedule_eq: "drain_schedule n = drain_from 0 n"
  by (simp add: drain_schedule_def drain_from_def)

lemma start_pool_in_order: "in_order (start_pool pages)" "length (start_pool pages) = length pages"
  by (simp_all add: in_order_def start_pool_def)

lemma pool_finishes:
  assumes "run_pool lib fetch pages (sched @ drain_schedule (length pages)) (start_pool pages, s) = (ts, s')"
  shows "\<forall>t \<in> set ts. \<exists>us. t = Finished us"
proof -
  obtain ts1 s1 where r: "run_pool lib fetch pages sched (start_pool pages, s) = (ts1, s1)" by fastforce
  from pool_keeps_in_order [OF r start_pool_in_order(2,1)] have "in_order ts1" "length ts1 = length pages" by auto
  with drain_finishes [of ts1 0 lib fetch pages s1] assms r show ?thesis
    by (simp add: run_pool_append drain_schedule_eq steps_left_finished)
qed

subsection \<open>The empty schedule is the sequential code\<close>

lemma drain_is_sequential:
  "poll_pages lib fetch pages s = (vss, s') \<Longrightarrow> length uss = length pgs \<Longrightarrow>
     run_pool lib fetch (pgs @ pages) (drain_from (length pgs) (length pgs + length pages))
       (map Finished uss @ replicate (length pages) Waiting, s) = (map Finished (uss @ vss), s')"
proof (induction pages arbitrary: pgs uss vss s)
  case Nil
  then show ?case by (simp add: drain_from_end)
next
  case (Cons pg pages)
  obtain us s1 where p: "poll_page lib fetch pg s = (us, s1)" by fastforce
  obtain wss where r: "poll_pages lib fetch pages s1 = (wss, s')" and vss: "vss = us # wss"
    using Cons.prems(1) p by (auto split: prod.splits)
  let ?ts = "map Finished uss @ Waiting # replicate (length pages) Waiting"
  have "map ((\<lambda>t. t = Waiting) \<circ> Finished) uss = replicate (length uss) False" by (induction uss) simp_all
  then have "in_order ?ts" by (auto simp: in_order_def sorted_append)
  moreover have "\<forall>j < length pgs. steps_left (?ts ! j) = 0" using Cons.prems(2) by (simp add: nth_append)
  ultimately have "run_pool lib fetch (pgs @ pg # pages) (replicate TASK_STEPS (0, length pgs)) (?ts, s)
      = (map Finished (uss @ [us]) @ replicate (length pages) Waiting, s1)"
    using drain_one [of ?ts "length pgs" lib fetch "pgs @ pg # pages" TASK_STEPS s] Cons.prems(2)
    by (simp add: run_task_is_poll_page p nth_append list_update_append)
  with Cons.IH [OF r, of "uss @ [us]" "pgs @ [pg]"] Cons.prems(2) show ?case
    by (simp add: drain_from_step run_pool_append vss)
qed

text \<open>When no two tasks overlap, the sweep of the thread pool is the sequential one: under the empty schedule, which
  leaves each task to run undisturbed in the order of the pages, \<^verbatim>\<open>poll_once\<close> returns the updates and leaves the
  validators, backoffs, counters and network of polling the pages one after the other.\<close>

lemma sequential_sweep:
  "poll_once lib fetch pages [] s = (case poll_pages lib fetch pages s of (uss, s') \<Rightarrow> (sort_key iu_created_at (concat uss), s'))"
proof -
  obtain uss s' where p: "poll_pages lib fetch pages s = (uss, s')" by fastforce
  have "map result_of (map Finished uss) = uss" by (simp add: result_of_def map_idI)
  with drain_is_sequential [OF p, of "[]" "[]"] show ?thesis
    by (simp add: poll_once_def p drain_schedule_eq start_pool_def)
qed

subsection \<open>What a sweep emits\<close>

definition parsed :: "feed_lib \<Rightarrow> received \<Rightarrow> incident_update list" where
  "parsed lib rc = (case rc of (pg, hs, body) \<Rightarrow>
     (case parse_atom lib (pg_provider pg) body of Inl e \<Rightarrow> [] | Inr us \<Rightarrow> us))"

text \<open>The updates a task holds.\<close>

definition held :: "feed_lib \<Rightarrow> page \<Rightarrow> task \<Rightarrow> incident_update list" where
  "held lib pg t = (case t of Received hs body \<Rightarrow> parsed lib (pg, hs, body) | Parsed hs us \<Rightarrow> us | Noted hs us \<Rightarrow> us
     | Finished us \<Rightarrow> us | _ \<Rightarrow> [])"

lemma held_simps [simp]:
  "held lib pg Waiting = []" "held lib pg (Asking hs) = []" "held lib pg (Answered r) = []" "held lib pg (Counted a n) = []"
  "held lib pg (Delayed d) = []" "held lib pg (Forgiven resp) = []" "held lib pg (Received hs body) = parsed lib (pg, hs, body)"
  "held lib pg (Parsed hs us) = us" "held lib pg (Noted hs us) = us" "held lib pg (Finished us) = us"
  by (simp_all add: held_def)

lemma step_holds_what_it_logs:
  "step_task lib fetch pg t s = (t', s') \<Longrightarrow>
     \<exists>new. ps_log s' = ps_log s @ new \<and> held lib pg t' = held lib pg t @ concat (map (parsed lib) new) \<and> set (map fst new) \<subseteq> {pg}"
  by (cases "(lib, fetch, pg, t, s)" rule: step_task.cases)
    (auto simp: Let_def parsed_def count_fetch_def on_backoff_def split: if_splits prod.splits sum.splits)

definition pool_held :: "feed_lib \<Rightarrow> page list \<Rightarrow> task list \<Rightarrow> incident_update list" where
  "pool_held lib pages ts = concat (map2 (held lib) pages ts)"

lemma pool_held_update:
  "length ts = length pages \<Longrightarrow> i < length ts \<Longrightarrow> held lib (pages ! i) t = held lib (pages ! i) (ts ! i) @ ys \<Longrightarrow>
     mset (pool_held lib pages (ts[i := t])) = mset (pool_held lib pages ts) + mset ys"
proof (induction ts arbitrary: pages i)
  case (Cons a ts)
  then obtain pg pgs where "pages = pg # pgs" by (metis length_Suc_conv)
  with Cons show ?case by (cases i) (auto simp: pool_held_def)
qed simp

lemma pool_held_finished:
  "length ts = length pages \<Longrightarrow> \<forall>t \<in> set ts. \<exists>us. t = Finished us \<Longrightarrow> pool_held lib pages ts = concat (map result_of ts)"
proof (induction ts arbitrary: pages)
  case (Cons a ts)
  then obtain pg pgs where "pages = pg # pgs" by (metis length_Suc_conv)
  with Cons show ?case by (auto simp: pool_held_def result_of_def)
qed (simp add: pool_held_def)

lemma pool_holds_what_it_logs:
  fixes s :: "'e poll_state"
  assumes "run_pool lib fetch pages ms (ts, s) = (ts', s')" and "length ts = length pages" and "pool_held lib pages ts = []"
  shows "\<exists>new. ps_log s' = ps_log s @ new \<and> mset (pool_held lib pages ts') = mset (concat (map (parsed lib) new))
    \<and> set (map fst new) \<subseteq> set pages"
proof -
  let ?I = "\<lambda>ts1 (s1 :: 'e poll_state). \<exists>new. ps_log s1 = ps_log s @ new
      \<and> mset (pool_held lib pages ts1) = mset (concat (map (parsed lib) new)) \<and> set (map fst new) \<subseteq> set pages"
  have "?I (ts1[i := t]) s2"
    if step: "?I ts1 s1" "length ts1 = length pages" "may_run ts1 i"
      "step_task lib fetch (pages ! i) (ts1 ! i) s1 = (t, s2)" for ts1 i t and s1 s2 :: "'e poll_state"
  proof -
    obtain n1 where n1: "ps_log s1 = ps_log s @ n1" "mset (pool_held lib pages ts1) = mset (concat (map (parsed lib) n1))"
      "set (map fst n1) \<subseteq> set pages" using step(1) by auto
    obtain n2 where n2: "ps_log s2 = ps_log s1 @ n2"
      "held lib (pages ! i) t = held lib (pages ! i) (ts1 ! i) @ concat (map (parsed lib) n2)"
      "set (map fst n2) \<subseteq> {pages ! i}" using step_holds_what_it_logs [OF step(4)] by blast
    have "i < length ts1" using step(3) by (simp add: may_run_def)
    moreover from this have "pages ! i \<in> set pages" using step(2) by simp
    ultimately have "ps_log s2 = ps_log s @ (n1 @ n2)"
      "mset (pool_held lib pages (ts1[i := t])) = mset (concat (map (parsed lib) (n1 @ n2)))"
      "set (map fst (n1 @ n2)) \<subseteq> set pages"
      using n1 n2 pool_held_update [OF step(2) _ n2(2)] by auto
    then show ?thesis by blast
  qed
  from run_pool_inv [of ?I, OF _ assms(2) _ this assms(1)] show ?thesis
    using assms(3) by (auto simp: idle_def)
qed

lemma pool_held_start: "pool_held lib pages (start_pool pages) = []"
  by (induction pages) (simp_all add: pool_held_def start_pool_def)

text \<open>C14. A sweep loses nothing and invents nothing, whatever the schedule of its threads: it returns exactly the updates
  of the feeds it received from its pages, as a multiset, in the order of their dates; every task is finished, and
  at no point have more than twelve been under way.\<close>

theorem sweep_emits_what_it_received:
  "let (us, s') = poll_once lib fetch pages sched s; new = drop (length (ps_log s)) (ps_log s') in
     ps_log s' = ps_log s @ new \<and> set (map fst new) \<subseteq> set pages
     \<and> mset us = mset (concat (map (parsed lib) new)) \<and> sorted (map iu_created_at us)
     \<and> list_all (\<lambda>k. busy (fst (run_pool lib fetch pages (take k sched) (start_pool pages, s))) \<le> MAX_WORKERS) [0..<Suc (length sched)]"
proof -
  obtain ts s' where r: "run_pool lib fetch pages (sched @ drain_schedule (length pages)) (start_pool pages, s) = (ts, s')"
    by fastforce
  have "length ts = length pages"
    using pool_keeps_in_order [OF r start_pool_in_order(2,1)] by simp
  then obtain new where new: "ps_log s' = ps_log s @ new" "set (map fst new) \<subseteq> set pages"
    "mset (concat (map result_of ts)) = mset (concat (map (parsed lib) new))"
    using pool_holds_what_it_logs [OF r start_pool_in_order(2) pool_held_start] pool_held_finished [OF _ pool_finishes [OF r]] by metis
  have "busy (start_pool pages) = 0" by (simp add: busy_def start_pool_def under_way_def)
  then have "busy (fst (run_pool lib fetch pages (take k sched) (start_pool pages, s))) \<le> MAX_WORKERS" for k
    using pool_is_bounded [OF _ start_pool_in_order(2)] by (metis eq_fst_iff zero_le)
  with new show ?thesis by (simp add: poll_once_def r Let_def list_all_iff del: upt_Suc)
qed

subsection \<open>Validators come with the updates of their feed\<close>

text \<open>Why a validator may be kept: a feed of the URL came with it, and its updates satisfy \<open>P\<close>.\<close>

definition justified ::
  "feed_lib \<Rightarrow> received list \<Rightarrow> (incident_update \<Rightarrow> bool) \<Rightarrow> string \<Rightarrow> string \<times> string \<Rightarrow> bool" where
  "justified lib recs P name kv \<longleftrightarrow>
     list_ex (\<lambda>(pg, hs, body). pg_url pg = fst kv \<and> dict_get hs name = Some (snd kv)
        \<and> parsed lib (pg, hs, body) \<noteq> [] \<and> list_all P (parsed lib (pg, hs, body))) recs"

lemma justified_mono:
  "justified lib recs P name kv \<Longrightarrow> set recs \<subseteq> set recs' \<Longrightarrow> (\<And>u. P u \<Longrightarrow> Q u) \<Longrightarrow> justified lib recs' Q name kv"
  unfolding justified_def list_ex_iff list_all_iff by fast

definition validators_ok ::
  "feed_lib \<Rightarrow> received list \<Rightarrow> (incident_update \<Rightarrow> bool) \<Rightarrow> cache_file \<Rightarrow> (string \<times> string) list \<Rightarrow> (string \<times> string) list \<Rightarrow> bool" where
  "validators_ok lib recs P old etag modified \<longleftrightarrow>
     list_all (\<lambda>kv. kv \<in> set (f_etag old) \<or> justified lib recs P ''ETag'' kv) etag
     \<and> list_all (\<lambda>kv. kv \<in> set (f_modified old) \<or> justified lib recs P ''Last-Modified'' kv) modified"

lemma validators_ok_mono:
  "validators_ok lib recs P old e m \<Longrightarrow> set recs \<subseteq> set recs' \<Longrightarrow> (\<And>u. P u \<Longrightarrow> Q u) \<Longrightarrow> validators_ok lib recs' Q old e m"
  unfolding validators_ok_def list_all_iff using justified_mono by metis

abbreviation cache_ok where
  "cache_ok lib recs P old c \<equiv> validators_ok lib recs P old (c_etag c) (c_modified c)"

lemma remember_in_ok:
  assumes "list_all (\<lambda>kv. kv \<in> A \<or> justified lib recs P name kv) d"
    and "\<And>v. dict_get hs name = Some v \<Longrightarrow> justified lib recs P name (url, v)"
  shows "list_all (\<lambda>kv. kv \<in> A \<or> justified lib recs P name kv) (remember_in url (dict_get hs name) d)"
  using assms set_dict_set [of url _ d]
  by (auto simp: remember_in_def list_all_iff truthy_def split: option.splits)

text \<open>A task that holds updates owns a feed in the log that they were parsed from.\<close>

definition owns :: "feed_lib \<Rightarrow> received list \<Rightarrow> page \<Rightarrow> task \<Rightarrow> bool" where
  "owns lib recs pg t \<longleftrightarrow> (case t of
       Received hs body \<Rightarrow> (pg, hs, body) \<in> set recs
     | Parsed hs us \<Rightarrow> us \<noteq> [] \<and> (\<exists>body. (pg, hs, body) \<in> set recs \<and> parsed lib (pg, hs, body) = us)
     | Noted hs us \<Rightarrow> us \<noteq> [] \<and> (\<exists>body. (pg, hs, body) \<in> set recs \<and> parsed lib (pg, hs, body) = us)
     | _ \<Rightarrow> True)"

lemma owns_simps [simp]:
  "owns lib recs pg (Received hs body) \<longleftrightarrow> (pg, hs, body) \<in> set recs"
  "owns lib recs pg (Parsed hs us) \<longleftrightarrow> us \<noteq> [] \<and> (\<exists>body. (pg, hs, body) \<in> set recs \<and> parsed lib (pg, hs, body) = us)"
  "owns lib recs pg (Noted hs us) \<longleftrightarrow> us \<noteq> [] \<and> (\<exists>body. (pg, hs, body) \<in> set recs \<and> parsed lib (pg, hs, body) = us)"
  "owns lib recs pg (Finished us)" "owns lib recs pg (Asking hs)" "owns lib recs pg (Answered r)" "owns lib recs pg (Counted a n)"
  "owns lib recs pg (Delayed d)" "owns lib recs pg (Forgiven resp)" "owns lib recs pg Waiting"
  by (simp_all add: owns_def)

lemma owns_mono: "owns lib recs pg t \<Longrightarrow> set recs \<subseteq> set recs' \<Longrightarrow> owns lib recs' pg t"
  by (cases t) auto

lemma parsed_feed: "parse_atom lib (pg_provider pg) body = Inr us \<Longrightarrow> parsed lib (pg, hs, body) = us"
  by (simp add: parsed_def)

lemma step_owns:
  "step_task lib fetch pg t s = (t', s') \<Longrightarrow> owns lib (ps_log s) pg t \<Longrightarrow> owns lib (ps_log s') pg t'"
  by (cases "(lib, fetch, pg, t, s)" rule: step_task.cases)
    (auto simp: Let_def count_fetch_def on_backoff_def split: if_splits prod.splits sum.splits,
      metis parsed_feed)

lemma step_remembers:
  assumes "step_task lib fetch pg t s = (t', s')" and "owns lib (ps_log s) pg t"
    and "cache_ok lib (ps_log s) P old (ps_cache s)" and "list_all P (held lib pg t)"
  shows "cache_ok lib (ps_log s) P old (ps_cache s')"
proof -
  have just: "justified lib (ps_log s) P name (pg_url pg, v)"
    if "dict_get hs name = Some v" "us \<noteq> []" "(pg, hs, body) \<in> set (ps_log s)" "parsed lib (pg, hs, body) = us" "list_all P us"
    for hs name v us body
    using that unfolding justified_def list_ex_iff by fastforce
  show ?thesis
    using assms by (cases "(lib, fetch, pg, t, s)" rule: step_task.cases)
      (auto simp: validators_ok_def Let_def count_fetch_def on_backoff_def split: if_splits prod.splits sum.splits
        intro!: remember_in_ok just)
qed

lemma pool_held_member:
  "length ts = length pages \<Longrightarrow> i < length ts \<Longrightarrow> set (held lib (pages ! i) (ts ! i)) \<subseteq> set (pool_held lib pages ts)"
  by (force simp: pool_held_def set_zip)

lemma pool_remembers:
  fixes s :: "'e poll_state"
  assumes "run_pool lib fetch pages ms (start_pool pages, s) = (ts, s')" and "cache_ok lib (ps_log s) P old (ps_cache s)"
  shows "cache_ok lib (ps_log s') (\<lambda>u. P u \<or> u \<in> set (pool_held lib pages ts)) old (ps_cache s')"
proof -
  let ?I = "\<lambda>ts1 (s1 :: 'e poll_state). list_all (\<lambda>(pg, t). owns lib (ps_log s1) pg t) (zip pages ts1)
      \<and> cache_ok lib (ps_log s1) (\<lambda>u. P u \<or> u \<in> set (pool_held lib pages ts1)) old (ps_cache s1)"
  have "?I (ts1[i := t]) s2"
    if step: "?I ts1 s1" "length ts1 = length pages" "may_run ts1 i"
      "step_task lib fetch (pages ! i) (ts1 ! i) s1 = (t, s2)" for ts1 i t and s1 s2 :: "'e poll_state"
  proof -
    have i: "i < length ts1" using step(3) by (simp add: may_run_def)
    have own: "owns lib (ps_log s1) (pages ! j) (ts1 ! j)" if "j < length ts1" for j
      using step(1,2) that by (auto simp: list_all_length)
    obtain new where new: "ps_log s2 = ps_log s1 @ new"
      "held lib (pages ! i) t = held lib (pages ! i) (ts1 ! i) @ concat (map (parsed lib) new)"
      using step_holds_what_it_logs [OF step(4)] by blast
    have "mset (pool_held lib pages (ts1[i := t])) = mset (pool_held lib pages ts1) + mset (concat (map (parsed lib) new))"
      by (rule pool_held_update [OF step(2) i new(2)])
    then have grow: "set (pool_held lib pages ts1) \<subseteq> set (pool_held lib pages (ts1[i := t]))"
      by (metis mset_subset_eq_add_left set_mset_mono set_mset_mset)
    have "cache_ok lib (ps_log s1) (\<lambda>u. P u \<or> u \<in> set (pool_held lib pages ts1)) old (ps_cache s2)"
      using step_remembers [OF step(4) own [OF i]] step(1) pool_held_member [OF step(2) i, of lib]
      by (auto simp: list_all_iff)
    then have "cache_ok lib (ps_log s2) (\<lambda>u. P u \<or> u \<in> set (pool_held lib pages (ts1[i := t]))) old (ps_cache s2)"
      by (rule validators_ok_mono) (use new(1) grow in auto)
    moreover have "owns lib (ps_log s2) (pages ! j) (ts1[i := t] ! j)" if "j < length ts1" for j
      using step_owns [OF step(4) own [OF i]] owns_mono [OF own [OF that], of "ps_log s2"] new(1) that
      by (cases "j = i") auto
    ultimately show ?thesis using step(2) by (auto simp: list_all_length)
  qed
  moreover have "?I (start_pool pages) s"
    using validators_ok_mono [OF assms(2) subset_refl] by (auto simp: start_pool_def list_all_iff set_zip)
  ultimately show ?thesis
    using run_pool_inv [of ?I, OF _ start_pool_in_order(2) _ _ assms(1)] by (auto simp: idle_def)
qed

lemma poll_once_log: "poll_once lib fetch pages sched s = (us, s') \<Longrightarrow> \<exists>new. ps_log s' = ps_log s @ new"
  using pool_holds_what_it_logs [OF _ start_pool_in_order(2) pool_held_start]
  by (fastforce simp: poll_once_def split: prod.splits)

lemma poll_once_remembers:
  assumes "poll_once lib fetch pages sched s = (us, s')" and "cache_ok lib (ps_log s) P old (ps_cache s)"
  shows "cache_ok lib (ps_log s') (\<lambda>u. P u \<or> u \<in> set us) old (ps_cache s')"
proof -
  obtain ts where r: "run_pool lib fetch pages (sched @ drain_schedule (length pages)) (start_pool pages, s) = (ts, s')"
    and us: "us = sort_key iu_created_at (concat (map result_of ts))"
    using assms(1) by (auto simp: poll_once_def split: prod.splits)
  have "length ts = length pages" using pool_keeps_in_order [OF r start_pool_in_order(2,1)] by simp
  from pool_held_finished [OF this pool_finishes [OF r]] have "set (pool_held lib pages ts) = set us" by (simp add: us)
  with pool_remembers [OF r assms(2)] show ?thesis by simp
qed

subsection \<open>No host is silenced\<close>

text \<open>No deadline is further away than the longest backoff.\<close>

definition deadlines_near :: "'e poll_state \<Rightarrow> bool" where
  "deadlines_near s \<longleftrightarrow> list_all (\<lambda>(h, t). t \<le> ps_mono s + MAX_BACKOFF_S) (bo_until (ps_backoff s))"

definition delay_ok :: "task \<Rightarrow> bool" where
  "delay_ok t \<longleftrightarrow> (case t of Delayed d \<Rightarrow> d \<le> MAX_BACKOFF_S | _ \<Rightarrow> True)"

lemma idle_keeps_near: "0 \<le> d \<Longrightarrow> deadlines_near s \<Longrightarrow> deadlines_near (idle d s)"
  by (auto simp: deadlines_near_def idle_def list_all_iff)

lemma set_dict_del: "set (dict_del k d) \<subseteq> set d"
  by (simp add: dict_del_def)

lemma near_dict_set: "list_all P d \<Longrightarrow> P (k, v) \<Longrightarrow> list_all P (dict_set k v d)"
  using set_dict_set [of k v d] by (auto simp: list_all_iff)

lemma near_dict_del: "list_all P d \<Longrightarrow> list_all P (dict_del k d)"
  using set_dict_del [of k d] by (auto simp: list_all_iff)

lemma step_keeps_near:
  assumes "step_task lib fetch pg t s = (t', s')" and "deadlines_near s" and "delay_ok t"
  shows "deadlines_near s'" and "delay_ok t'"
  using assms backoff_delay_bounds
  by (cases "(lib, fetch, pg, t, s)" rule: step_task.cases;
      auto simp: deadlines_near_def delay_ok_def Let_def count_fetch_def on_backoff_def set_failures_def
        set_until_def pop_failures_def pop_until_def split: if_splits prod.splits sum.splits
        intro!: near_dict_set near_dict_del)+

lemma poll_once_keeps_near:
  fixes s :: "'e poll_state"
  assumes "poll_once lib fetch pages sched s = (us, s')" and "deadlines_near s"
  shows "deadlines_near s'"
proof -
  let ?I = "\<lambda>ts1 (s1 :: 'e poll_state). list_all delay_ok ts1 \<and> deadlines_near s1"
  obtain ts where r: "run_pool lib fetch pages (sched @ drain_schedule (length pages)) (start_pool pages, s) = (ts, s')"
    using assms(1) by (auto simp: poll_once_def split: prod.splits)
  have "?I (ts1[i := t]) s2"
    if step: "?I ts1 s1" "length ts1 = length pages" "may_run ts1 i"
      "step_task lib fetch (pages ! i) (ts1 ! i) s1 = (t, s2)" for ts1 i t and s1 s2 :: "'e poll_state"
  proof -
    have i: "i < length ts1" and "delay_ok (ts1 ! i)" using step(1,3) by (auto simp: may_run_def list_all_length)
    with step_keeps_near [OF step(4)] step(1) show ?thesis
      by (auto simp: list_all_iff dest!: set_update_subset_insert [THEN subsetD])
  qed
  moreover have "?I (start_pool pages) s" using assms(2) by (simp add: start_pool_def delay_ok_def list_all_iff)
  moreover have "deadlines_near (idle (total_seconds (int d)) s1)" if "deadlines_near s1" for d and s1 :: "'e poll_state"
    using that by (rule idle_keeps_near [rotated]) (simp add: total_seconds_def)
  ultimately show ?thesis
    using run_pool_inv [of ?I, OF _ start_pool_in_order(2) _ _ r] by blast
qed

lemma near_skips_end: "deadlines_near s \<Longrightarrow> ps_mono s + MAX_BACKOFF_S \<le> t \<Longrightarrow> 0 \<le> t \<Longrightarrow> \<not> skip t url (ps_backoff s)"
  by (fastforce simp: deadlines_near_def skip_def list_all_iff dest: map_of_SomeD split: option.splits)

lemma restored_near:
  "list_all (\<lambda>(h, t). t \<le> wall + m) ds \<Longrightarrow> list_all (\<lambda>(h, t). t \<le> now + m) u \<Longrightarrow>
     list_all (\<lambda>(h, t). t \<le> now + m) (restore_until now wall ds u)"
  by (induction now wall ds u rule: restore_until.induct) (auto simp: near_dict_set)

lemma step_task_time: "step_task lib fetch pg t s = (t', s') \<Longrightarrow> ps_mono s' = ps_mono s \<and> ps_wall s' = ps_wall s"
  by (cases "(lib, fetch, pg, t, s)" rule: step_task.cases)
    (auto simp: Let_def count_fetch_def on_backoff_def split: if_splits prod.splits sum.splits)

lemma poll_once_time:
  fixes s :: "'e poll_state"
  assumes "poll_once lib fetch pages sched s = (us, s')"
  shows "ps_mono s \<le> ps_mono s' \<and> ps_wall s \<le> ps_wall s'"
proof -
  let ?I = "\<lambda>(ts1 :: task list) (s1 :: 'e poll_state). ps_mono s \<le> ps_mono s1 \<and> ps_wall s \<le> ps_wall s1"
  obtain ts where r: "run_pool lib fetch pages (sched @ drain_schedule (length pages)) (start_pool pages, s) = (ts, s')"
    using assms by (auto simp: poll_once_def split: prod.splits)
  have "?I ts1 (idle (total_seconds (int d)) s1)" if "?I ts1 s1" for ts1 d and s1 :: "'e poll_state"
    using that by (simp add: idle_def total_seconds_def add_increasing2)
  then show ?thesis
    using run_pool_inv [of ?I, OF _ start_pool_in_order(2) _ _ r] step_task_time by (metis order_refl)
qed

end
