(* ===== verification/Metrics.thy ===== *)
theory Metrics
  imports Prelude
begin

section \<open>Metrics (\<^verbatim>\<open>freshet/pipeline/metrics.py\<close>)\<close>

text \<open>
  The collectors the workers declare when the module is imported, and the server that exposes them. \<open>co_variable\<close>
  is the name of the Python variable, in lower case: the name under which the components count. The client library
  is not modelled; what it asks of a declaration is stated of this table: no two collectors share a name, and the
  buckets of a histogram increase.
\<close>

datatype collector_kind = Counter | Gauge | Histogram "real list"

record collector =
  co_variable :: string
  co_kind :: collector_kind
  co_name :: string
  co_help :: string
  co_labels :: "string list"

definition LATENCY_BUCKETS :: "real list" where
  "LATENCY_BUCKETS = [0.5, 1, 2, 5, 10, 30, 60, 120, 300]"

definition SWEEP_BUCKETS :: "real list" where
  "SWEEP_BUCKETS = [0.5, 1, 2, 5, 10, 30, 60]"

definition COLLECTORS :: "collector list" where
  "COLLECTORS = [
     \<lparr>co_variable = ''deadletter_events'', co_kind = Counter, co_name = ''freshet_deadletter_total'',
      co_help = ''Messages routed to the dead-letter topic (normalizer + embedder)'', co_labels = []\<rparr>,
     \<lparr>co_variable = ''embedder_messages'', co_kind = Counter, co_name = ''freshet_embedder_messages'',
      co_help = ''Kafka messages successfully indexed (one per update, not per chunk)'', co_labels = []\<rparr>,
     \<lparr>co_variable = ''indexed_events'', co_kind = Counter, co_name = ''freshet_embedder_events_total'',
      co_help = ''Events embedded and upserted into pgvector'', co_labels = []\<rparr>,
     \<lparr>co_variable = ''freshness'', co_kind = Histogram LATENCY_BUCKETS, co_name = ''freshet_freshness_seconds'',
      co_help = ''Event->queryable freshness: seconds from ts to indexed_at'', co_labels = []\<rparr>,
     \<lparr>co_variable = ''pipeline_latency'', co_kind = Histogram LATENCY_BUCKETS, co_name = ''freshet_pipeline_latency_seconds'',
      co_help = ''Pipeline latency: seconds from ingested_at to indexed_at'', co_labels = []\<rparr>,
     \<lparr>co_variable = ''llm_calls'', co_kind = Counter, co_name = ''freshet_llm_calls_total'',
      co_help = ''LLM compose calls admitted by the budget'', co_labels = []\<rparr>,
     \<lparr>co_variable = ''llm_seconds'', co_kind = Histogram LATENCY_BUCKETS, co_name = ''freshet_llm_seconds'',
      co_help = ''Wall-clock seconds per LLM compose call'', co_labels = []\<rparr>,
     \<lparr>co_variable = ''llm_truncated'', co_kind = Counter, co_name = ''freshet_llm_truncated_total'',
      co_help = ''Responses that hit max_tokens instead of finishing'', co_labels = []\<rparr>,
     \<lparr>co_variable = ''dropped_citations'', co_kind = Counter, co_name = ''freshet_dropped_citations_total'',
      co_help = ''Citations stripped because their event_id was not in the evidence'', co_labels = []\<rparr>,
     \<lparr>co_variable = ''abstentions'', co_kind = Counter, co_name = ''freshet_retrieval_abstentions_total'',
      co_help = ''Queries where the best cosine fell below the calibrated floor'', co_labels = []\<rparr>,
     \<lparr>co_variable = ''poll_fetch'', co_kind = Counter, co_name = ''freshet_poll_fetch_total'',
      co_help = ''Feed fetches by provider and outcome (200 / 304 / error / skipped)'',
      co_labels = [''provider'', ''status'']\<rparr>,
     \<lparr>co_variable = ''poll_updates'', co_kind = Counter, co_name = ''freshet_poll_updates_parsed_total'',
      co_help = ''Updates parsed out of a feed body, by provider'', co_labels = [''provider'']\<rparr>,
     \<lparr>co_variable = ''poll_backoff_hosts'', co_kind = Gauge, co_name = ''freshet_poll_backoff_hosts'',
      co_help = ''Hosts currently skipped because they are backing off'', co_labels = []\<rparr>,
     \<lparr>co_variable = ''poll_sweep_seconds'', co_kind = Histogram SWEEP_BUCKETS, co_name = ''freshet_poll_sweep_seconds'',
      co_help = ''Wall time for one sweep over every feed'', co_labels = []\<rparr>,
     \<lparr>co_variable = ''timestamp_fallback'', co_kind = Counter, co_name = ''freshet_timestamp_fallback_total'',
      co_help = ''Updates whose HTML timestamp could not be resolved and used the entry's revision time'', co_labels = []\<rparr>,
     \<lparr>co_variable = ''unknown_wire_version'', co_kind = Counter, co_name = ''freshet_unknown_wire_version_total'',
      co_help = ''Events carrying a wire version this worker does not know'', co_labels = []\<rparr>]"

lemma collectors_are_distinct: "distinct (map co_variable COLLECTORS) \<and> distinct (map co_name COLLECTORS)"
  by code_simp

lemma buckets_increase: "c \<in> set COLLECTORS \<Longrightarrow> co_kind c = Histogram bs \<Longrightarrow> sorted_wrt (<) bs \<and> bs \<noteq> []"
  by (auto simp: COLLECTORS_def LATENCY_BUCKETS_def SWEEP_BUCKETS_def)

subsection \<open>The server\<close>

definition OS_ERROR :: exn where
  "OS_ERROR = OtherError ''OSError''"

text \<open>\<open>bind\<close> is \<^verbatim>\<open>start_http_server\<close>; a port in use is logged and ignored.\<close>

definition start_metrics_server :: "(nat \<Rightarrow> unit res) \<Rightarrow> nat \<Rightarrow> unit res" where
  "start_metrics_server bind port =
     (if port = 0 then Inr ()
      else case bind port of Inl e \<Rightarrow> if e = OS_ERROR then Inr () else Inl e | Inr u \<Rightarrow> Inr ())"

text \<open>Metrics never stop a worker: with a port that cannot be bound it goes on without them.\<close>

lemma metrics_never_stop_a_worker: "(\<And>e. bind port = Inl e \<Longrightarrow> e = OS_ERROR) \<Longrightarrow> start_metrics_server bind port = Inr ()"
  by (cases "bind port") (auto simp: start_metrics_server_def)

end
