(* ===== verification/Poller.thy ===== *)
theory Poller
  imports Pool Metrics
begin

section \<open>The feed poller (\<^verbatim>\<open>freshet/ingest/poller.py\<close>, \<^verbatim>\<open>freshet/ingest/registry.py\<close>)\<close>

text \<open>
  The loop that sweeps the pages, produces what it saw under the key of its incident, waits for the broker and then
  saves the validators. The theorems, under any schedule of the threads of any sweep: a validator on disk covers
  acknowledged updates only, a failure of the broker's stops the run before the validators are saved, and no host is
  skipped for longer than the longest backoff.
\<close>

definition to_message :: "incident_update \<Rightarrow> json" where
  "to_message u = JObj
     [(''v'', JInt WIRE_VERSION), (''provider'', JStr (iu_provider u)), (''incident_id'', JStr (iu_incident u)),
      (''update_id'', JStr (iu_update u)), (''body_digest'', JStr (iu_body_digest u)),
      (''created_at'', JStr (isoformat_z (iu_created_at u))), (''status'', JStr (iu_status u)),
      (''text'', JStr (iu_text u)), (''incident_name'', JStr (iu_name u))]"

subsection \<open>The polling loop\<close>

text \<open>What happens outside: \<open>jitter k\<close> is the pause added after sweep \<open>k\<close>, \<open>writes k\<close> tells whether its save succeeds,
  \<open>schedule k\<close> how its threads interleave.\<close>

record poll_config =
  pc_lib :: feed_lib
  pc_dumps :: "json \<Rightarrow> string"
  pc_reports :: reports
  pc_served :: "producer \<Rightarrow> nat"
  pc_pages :: "page list"
  pc_interval :: real
  pc_jitter :: "nat \<Rightarrow> real"
  pc_writes :: "nat \<Rightarrow> bool"
  pc_schedule :: "nat \<Rightarrow> schedule"

text \<open>\<open>rs_sweep_seconds\<close> and \<open>rs_backoff_hosts\<close> are the collectors \<^verbatim>\<open>POLL_SWEEP_SECONDS\<close> and \<^verbatim>\<open>POLL_BACKOFF_HOSTS\<close>.\<close>

record 'e run_state =
  rs_poll :: "'e poll_state"
  rs_producer :: producer
  rs_disk :: disk
  rs_produced :: nat
  rs_sweeps :: nat
  rs_sweep_seconds :: "real list"
  rs_backoff_hosts :: nat

definition produce_update :: "poll_config \<Rightarrow> producer \<Rightarrow> incident_update \<Rightarrow> producer" where
  "produce_update cfg p u =
     produce (pc_reports cfg) (pc_served cfg) RAW_TOPIC (pc_dumps cfg (to_message u)) (Some (partition_key u)) p"

definition sweep :: "poll_config \<Rightarrow> 'e fetcher \<Rightarrow> 'e run_state \<Rightarrow> unit res \<times> 'e run_state" where
  "sweep cfg fetch s =
     (case poll_once (pc_lib cfg) fetch (pc_pages cfg) (pc_schedule cfg (rs_sweeps s)) (rs_poll s) of
        (us, ps) \<Rightarrow>
          let p = foldl (produce_update cfg) (rs_producer s) us;
              s1 = s\<lparr>rs_poll := ps, rs_produced := rs_produced s + length us\<rparr>
          in (case flush_checked (pc_reports cfg) p of
                (Inl e, p1) \<Rightarrow> (Inl e, s1\<lparr>rs_producer := p1\<rparr>)
              | (Inr u, p1) \<Rightarrow>
                  (case save_cache (pc_writes cfg (rs_sweeps s)) (ps_mono ps) (ps_wall ps) (ps_backoff ps) (ps_cache ps)
                          (rs_disk s) of
                     (c, d) \<Rightarrow> (Inr (), s1\<lparr>rs_producer := p1, rs_poll := ps\<lparr>ps_cache := c\<rparr>, rs_disk := d,
                                           rs_sweeps := Suc (rs_sweeps s),
                                           rs_sweep_seconds := rs_sweep_seconds s @ [ps_mono ps - ps_mono (rs_poll s)],
                                           rs_backoff_hosts := active_hosts ps\<rparr>))))"

definition between_sweeps :: "poll_config \<Rightarrow> real \<Rightarrow> 'e run_state \<Rightarrow> 'e run_state" where
  "between_sweeps cfg started s =
     s\<lparr>rs_poll := idle (max 0 (pc_interval cfg - (ps_mono (rs_poll s) - started)) + pc_jitter cfg (rs_sweeps s)) (rs_poll s)\<rparr>"

fun run_sweeps :: "nat \<Rightarrow> poll_config \<Rightarrow> 'e fetcher \<Rightarrow> 'e run_state \<Rightarrow> nat res \<times> 'e run_state" where
  "run_sweeps 0 cfg fetch s = (Inr (rs_produced s), s)"
| "run_sweeps (Suc n) cfg fetch s =
     (case sweep cfg fetch s of
        (Inl e, s1) \<Rightarrow> (Inl e, s1)
      | (Inr u, s1) \<Rightarrow> run_sweeps n cfg fetch (if n = 0 then s1 else between_sweeps cfg (ps_mono (rs_poll s)) s1))"

text \<open>\<^verbatim>\<open>run\<close>, once its pages are loaded: the cache and the backoff are restored, the start is staggered, \<open>n\<close> sweeps
  follow.\<close>

definition run_poller ::
  "nat \<Rightarrow> poll_config \<Rightarrow> 'e fetcher \<Rightarrow> string \<Rightarrow> real \<Rightarrow> real \<Rightarrow> real \<Rightarrow> disk \<Rightarrow> 'e \<Rightarrow> nat res \<times> 'e run_state" where
  "run_poller n cfg fetch path now wall stagger d e =
     (let c = load_cache path d;
          ps = \<lparr>ps_cache = c, ps_backoff = restore now wall (c_backoff c) new_backoff, ps_mono = now, ps_wall = wall,
                ps_env = e, ps_log = [], ps_fetches = [], ps_parsed = []\<rparr>
      in run_sweeps n cfg fetch \<lparr>rs_poll = idle stagger ps, rs_producer = new_producer, rs_disk = d,
           rs_produced = 0, rs_sweeps = 0, rs_sweep_seconds = [], rs_backoff_hosts = 0\<rparr>)"

text \<open>\<^verbatim>\<open>load_pages\<close>, on the objects of the JSON list; and the process, from the metrics server and the list of pages on.\<close>

definition page_of_entry :: "(string \<times> string) list \<Rightarrow> page res" where
  "page_of_entry e =
     (case map_of e ''provider'' of
        None \<Rightarrow> Inl KeyError
      | Some p \<Rightarrow> (case map_of e ''url'' of None \<Rightarrow> Inl KeyError | Some u \<Rightarrow> Inr \<lparr>pg_provider = p, pg_url = u\<rparr>))"

fun load_pages :: "(string \<times> string) list list \<Rightarrow> page list res" where
  "load_pages [] = Inr []"
| "load_pages (e # es) = and_then (page_of_entry e) (\<lambda>pg. and_then (load_pages es) (\<lambda>pgs. Inr (pg # pgs)))"

definition poller_main ::
  "(nat \<Rightarrow> unit res) \<Rightarrow> nat \<Rightarrow> (string \<times> string) list list res \<Rightarrow> nat \<Rightarrow> poll_config \<Rightarrow> 'e fetcher \<Rightarrow> string \<Rightarrow> real \<Rightarrow> real
     \<Rightarrow> real \<Rightarrow> disk \<Rightarrow> 'e \<Rightarrow> (nat res \<times> 'e run_state) res" where
  "poller_main bind port entries n cfg fetch path now wall stagger d e =
     and_then (start_metrics_server bind port) (\<lambda>u.
     and_then entries (\<lambda>es.
     and_then (load_pages es) (\<lambda>pages.
       Inr (run_poller n (cfg\<lparr>pc_pages := pages\<rparr>) fetch path now wall stagger d e))))"

lemma load_pages_spec:
  "load_pages es = Inr pgs \<longleftrightarrow>
     list_all2 (\<lambda>e pg. map_of e ''provider'' = Some (pg_provider pg) \<and> map_of e ''url'' = Some (pg_url pg)) es pgs"
proof (induction es arbitrary: pgs)
  case (Cons e es)
  then show ?case
    by (cases pgs) (auto simp: page_of_entry_def and_then_Inr_iff split: option.splits)
qed auto

subsection \<open>Validators cover acknowledged updates\<close>

text \<open>The delivery of an update, and what the disk holds at any point of a run.\<close>

definition delivery_of :: "poll_config \<Rightarrow> incident_update \<Rightarrow> delivery" where
  "delivery_of cfg u = \<lparr>d_topic = RAW_TOPIC, d_value = pc_dumps cfg (to_message u), d_key = Some (partition_key u)\<rparr>"

definition acknowledged :: "poll_config \<Rightarrow> producer \<Rightarrow> incident_update \<Rightarrow> bool" where
  "acknowledged cfg p u \<longleftrightarrow> delivery_of cfg u \<in> set (acked p)"

definition disk_ok :: "poll_config \<Rightarrow> disk \<Rightarrow> 'e run_state \<Rightarrow> bool" where
  "disk_ok cfg d0 s \<longleftrightarrow>
     validators_ok (pc_lib cfg) (ps_log (rs_poll s)) (acknowledged cfg (rs_producer s)) (file_of d0)
       (f_etag (file_of (rs_disk s))) (f_modified (file_of (rs_disk s)))"

definition run_inv :: "poll_config \<Rightarrow> disk \<Rightarrow> 'e run_state \<Rightarrow> bool" where
  "run_inv cfg d0 s \<longleftrightarrow> disk_ok cfg d0 s
     \<and> cache_ok (pc_lib cfg) (ps_log (rs_poll s)) (acknowledged cfg (rs_producer s)) (file_of d0) (ps_cache (rs_poll s))"

lemma produce_updates:
  "set (acked p) \<subseteq> set (acked (foldl (produce_update cfg) p us))
   \<and> (\<forall>d. on_its_way d p \<longrightarrow> on_its_way d (foldl (produce_update cfg) p us))
   \<and> (\<forall>u \<in> set us. on_its_way (delivery_of cfg u) (foldl (produce_update cfg) p us))"
proof (induction us arbitrary: p)
  case (Cons u us)
  from Cons.IH [of "produce_update cfg p u"] show ?case
    using produce_keeps [where p = p and report = "pc_reports cfg" and q = "pc_served cfg" and t = RAW_TOPIC
        and v = "pc_dumps cfg (to_message u)" and k = "Some (partition_key u)"]
    by (auto simp: produce_update_def delivery_of_def)
qed simp

lemma sweep_inv:
  assumes "run_inv cfg d0 s" and "sweep cfg fetch s = (r, s')"
  shows "disk_ok cfg d0 s'" and "r = Inr u \<Longrightarrow> run_inv cfg d0 s'"
proof -
  obtain us ps where po: "poll_once (pc_lib cfg) fetch (pc_pages cfg) (pc_schedule cfg (rs_sweeps s)) (rs_poll s) = (us, ps)"
    by fastforce
  let ?lib = "pc_lib cfg" and ?old = "file_of d0"
  have sub: "set (ps_log (rs_poll s)) \<subseteq> set (ps_log ps)" using poll_once_log [OF po] by auto
  have cache: "cache_ok ?lib (ps_log ps) (\<lambda>u. acknowledged cfg (rs_producer s) u \<or> u \<in> set us) ?old (ps_cache ps)"
    by (rule poll_once_remembers [OF po]) (use assms(1) in \<open>simp add: run_inv_def\<close>)
  define p where "p = foldl (produce_update cfg) (rs_producer s) us"
  obtain r1 p1 where f: "flush_checked (pc_reports cfg) p = (r1, p1)" by fastforce
  have kept: "acknowledged cfg p1 u" if "acknowledged cfg (rs_producer s) u" for u
    using that produce_updates [of "rs_producer s" cfg us] flush_keeps_acked [OF f]
    by (auto simp: acknowledged_def p_def)
  have disk: "validators_ok ?lib (ps_log ps) (acknowledged cfg p1) ?old
      (f_etag (file_of (rs_disk s))) (f_modified (file_of (rs_disk s)))"
    using assms(1) unfolding run_inv_def disk_ok_def by (auto intro: validators_ok_mono [OF _ sub] kept)
  have "disk_ok cfg d0 s' \<and> (r = Inr u \<longrightarrow> run_inv cfg d0 s')"
  proof (cases r1)
    case (Inl e)
    then have "s' = s\<lparr>rs_poll := ps, rs_produced := rs_produced s + length us, rs_producer := p1\<rparr>" "r = Inl e"
      using assms(2) po f by (auto simp: sweep_def p_def Let_def)
    with disk show ?thesis by (simp add: disk_ok_def)
  next
    case (Inr v)
    have now: "acknowledged cfg p1 u" if "u \<in> set us" for u
      using that produce_updates [of "rs_producer s" cfg us] flush_delivers [of "pc_reports cfg" p p1] f Inr
      by (auto simp: acknowledged_def p_def)
    have cache': "cache_ok ?lib (ps_log ps) (acknowledged cfg p1) ?old (ps_cache ps)"
      by (rule validators_ok_mono [OF cache]) (use kept now in auto)
    let ?saved = "save_cache (pc_writes cfg (rs_sweeps s)) (ps_mono ps) (ps_wall ps) (ps_backoff ps) (ps_cache ps) (rs_disk s)"
    have s': "ps_log (rs_poll s') = ps_log ps" "rs_producer s' = p1" "ps_cache (rs_poll s') = fst ?saved" "rs_disk s' = snd ?saved"
      using assms(2) po f Inr by (auto simp: sweep_def p_def Let_def split: prod.splits)
    then show ?thesis
      using disk cache' by (auto simp: disk_ok_def run_inv_def save_cache_def Let_def file_of_def split: if_splits)
  qed
  then show "disk_ok cfg d0 s'" and "r = Inr u \<Longrightarrow> run_inv cfg d0 s'" by simp_all
qed

lemma run_sweeps_inv: "run_inv cfg d0 s \<Longrightarrow> disk_ok cfg d0 (snd (run_sweeps n cfg fetch s))"
proof (induction n arbitrary: s)
  case 0
  then show ?case by (simp add: run_inv_def)
next
  case (Suc n)
  obtain r s1 where sw: "sweep cfg fetch s = (r, s1)" by fastforce
  show ?case
  proof (cases r)
    case (Inl e)
    with sw sweep_inv(1) [OF Suc.prems sw] show ?thesis by simp
  next
    case (Inr u)
    have "run_inv cfg d0 s1" using sweep_inv(2) [OF Suc.prems sw Inr] .
    then have "run_inv cfg d0 (if n = 0 then s1 else between_sweeps cfg (ps_mono (rs_poll s)) s1)"
      by (simp add: run_inv_def disk_ok_def between_sweeps_def idle_def)
    from Suc.IH [OF this] sw Inr show ?thesis by simp
  qed
qed

lemma run_poller_start:
  "run_inv cfg d \<lparr>rs_poll = idle stagger \<lparr>ps_cache = load_cache path d, ps_backoff = b, ps_mono = now, ps_wall = wall,
      ps_env = e, ps_log = [], ps_fetches = [], ps_parsed = []\<rparr>, rs_producer = new_producer, rs_disk = d, rs_produced = 0,
      rs_sweeps = 0, rs_sweep_seconds = [], rs_backoff_hosts = 0\<rparr>"
  by (simp add: run_inv_def disk_ok_def validators_ok_def idle_def load_cache_def empty_file_def Let_def list_all_iff)

lemma run_poller_disk: "run_poller n cfg fetch path now wall stagger d e = (r, s) \<Longrightarrow> disk_ok cfg d s"
  using run_sweeps_inv [OF run_poller_start] unfolding run_poller_def Let_def by (metis snd_conv)

lemma run_poller_covers:
  assumes "run_poller n cfg fetch path now wall stagger d e = (r, s)"
    and "(url, etag) \<in> set (f_etag (file_of (rs_disk s)))" and "(url, etag) \<notin> set (f_etag (file_of d))"
  shows "\<exists>pg hs body. (pg, hs, body) \<in> set (ps_log (rs_poll s)) \<and> pg_url pg = url \<and> dict_get hs ''ETag'' = Some etag
    \<and> parsed (pc_lib cfg) (pg, hs, body) \<noteq> []
    \<and> list_all (\<lambda>u. delivery_of cfg u \<in> set (acked (rs_producer s))) (parsed (pc_lib cfg) (pg, hs, body))"
  using run_poller_disk [OF assms(1)] assms(2,3)
  by (fastforce simp: disk_ok_def validators_ok_def justified_def list_all_iff list_ex_iff acknowledged_def)

text \<open>C12. A validator on disk covers acknowledged updates only: after any number of sweeps, ended by a failed flush or
  not, every \<^verbatim>\<open>ETag\<close> in the cache file was there at the start, or came with a feed of that URL whose updates
  were all acknowledged by the broker; so a feed answered with 304 after a restart has lost nothing.\<close>

theorem saved_validators_are_covered:
  "let (r, s) = run_poller n cfg fetch path now wall stagger d e in
     list_all (\<lambda>kv. kv \<in> set (f_etag (file_of d))
       \<or> list_ex (\<lambda>(pg, hs, body). pg_url pg = fst kv \<and> dict_get hs ''ETag'' = Some (snd kv)
            \<and> parsed (pc_lib cfg) (pg, hs, body) \<noteq> []
            \<and> list_all (\<lambda>u. delivery_of cfg u \<in> set (acked (rs_producer s))) (parsed (pc_lib cfg) (pg, hs, body)))
          (ps_log (rs_poll s)))
       (f_etag (file_of (rs_disk s)))"
proof -
  obtain r s where run: "run_poller n cfg fetch path now wall stagger d e = (r, s)" by fastforce
  from run_poller_disk [OF run] show ?thesis
    unfolding run disk_ok_def validators_ok_def justified_def acknowledged_def [abs_def] by simp
qed

subsection \<open>No host is silenced\<close>

definition file_near :: "real \<Rightarrow> disk \<Rightarrow> bool" where
  "file_near wall d \<longleftrightarrow> list_all (\<lambda>(h, t). t \<le> wall + MAX_BACKOFF_S) (bd_deadlines (f_backoff (file_of d)))"

definition backoffs_near :: "'e run_state \<Rightarrow> bool" where
  "backoffs_near s \<longleftrightarrow> deadlines_near (rs_poll s) \<and> file_near (ps_wall (rs_poll s)) (rs_disk s) \<and> 0 \<le> ps_mono (rs_poll s)"

lemma file_near_later: "file_near wall d \<Longrightarrow> wall \<le> wall' \<Longrightarrow> file_near wall' d"
  by (auto simp: file_near_def list_all_iff)

lemma save_cache_near:
  assumes "save_cache writes (ps_mono ps) (ps_wall ps) (ps_backoff ps) c d = (c', d')" and "deadlines_near ps"
    and "file_near (ps_wall ps) d"
  shows "file_near (ps_wall ps) d'"
  using assms by (auto simp: save_cache_def Let_def file_near_def file_of_def snapshot_def deadlines_near_def list_all_iff
      split: if_splits; force)

lemma idle_run_near: "0 \<le> d \<Longrightarrow> backoffs_near s \<Longrightarrow> backoffs_near (s\<lparr>rs_poll := idle d (rs_poll s)\<rparr>)"
  by (auto simp: backoffs_near_def idle_keeps_near intro: file_near_later) (simp_all add: idle_def file_near_later)

lemma sweep_near:
  assumes "sweep cfg fetch s = (r, s')" and "backoffs_near s"
  shows "backoffs_near s'"
proof -
  obtain us ps where po: "poll_once (pc_lib cfg) fetch (pc_pages cfg) (pc_schedule cfg (rs_sweeps s)) (rs_poll s) = (us, ps)"
    by fastforce
  have near: "deadlines_near ps" using poll_once_keeps_near [OF po] assms(2) by (simp add: backoffs_near_def)
  from poll_once_time [OF po] have "ps_mono (rs_poll s) \<le> ps_mono ps" "ps_wall (rs_poll s) \<le> ps_wall ps" by auto
  then have "file_near (ps_wall ps) (rs_disk s)" "0 \<le> ps_mono ps"
    using assms(2) by (auto simp: backoffs_near_def intro: file_near_later)
  with near assms(1) po save_cache_near [OF _ near] show ?thesis
    by (auto simp: sweep_def backoffs_near_def deadlines_near_def Let_def split: prod.splits sum.splits)
qed

lemma run_sweeps_near:
  assumes "\<forall>k. 0 \<le> pc_jitter cfg k" and "backoffs_near s" and "run_sweeps n cfg fetch s = (r, s')"
  shows "backoffs_near s'"
  using assms(2,3)
proof (induction n arbitrary: s)
  case (Suc n)
  obtain r1 s1 where sw: "sweep cfg fetch s = (r1, s1)" by fastforce
  have "backoffs_near (if n = 0 then s1 else between_sweeps cfg (ps_mono (rs_poll s)) s1)"
    using sweep_near [OF sw Suc.prems(1)] assms(1) by (simp add: between_sweeps_def idle_run_near add_nonneg_nonneg)
  with Suc.IH Suc.prems(2) sw sweep_near [OF sw Suc.prems(1)] show ?case by (auto split: sum.splits)
qed simp

text \<open>C15. No host is silenced: whatever its hosts answer and however its threads interleave, at the end of any number of
  sweeps the poller skips no feed for longer than 300 seconds, and the cache file it leaves makes no later process do so;
  this holds of a start whose own cache file names no deadline more than 300 seconds away.\<close>

theorem no_host_is_silenced:
  assumes "run_poller n cfg fetch path now wall stagger d e = (r, s)"
    and "list_all (\<lambda>(h, t). t \<le> wall + 300) (bd_deadlines (f_backoff (file_of d)))"
    and "0 \<le> now" and "0 \<le> stagger" and "\<forall>k. 0 \<le> pc_jitter cfg k"
  shows "\<not> skip (ps_mono (rs_poll s) + 300) url (ps_backoff (rs_poll s))
    \<and> list_all (\<lambda>(h, t). t \<le> ps_wall (rs_poll s) + 300) (bd_deadlines (f_backoff (file_of (rs_disk s))))"
proof -
  let ?ps = "\<lparr>ps_cache = load_cache path d, ps_backoff = restore now wall (c_backoff (load_cache path d)) new_backoff,
      ps_mono = now, ps_wall = wall, ps_env = e, ps_log = [], ps_fetches = [], ps_parsed = []\<rparr>"
  let ?s = "\<lparr>rs_poll = ?ps, rs_producer = new_producer, rs_disk = d, rs_produced = 0, rs_sweeps = 0,
      rs_sweep_seconds = [], rs_backoff_hosts = 0\<rparr>"
  have "list_all (\<lambda>(h, t). t \<le> wall + MAX_BACKOFF_S) (bd_deadlines (c_backoff (load_cache path d)))"
    using assms(2) by (auto simp: load_cache_def empty_file_def Let_def MAX_BACKOFF_S_def)
  then have "deadlines_near ?ps" by (auto simp: deadlines_near_def restore_def new_backoff_def intro!: restored_near)
  then have "backoffs_near ?s" using assms(2,3) by (simp add: backoffs_near_def file_near_def MAX_BACKOFF_S_def)
  from idle_run_near [OF assms(4) this] run_sweeps_near [OF assms(5)] assms(1)
  have near: "backoffs_near s" unfolding run_poller_def Let_def by fastforce
  then have "\<not> skip (ps_mono (rs_poll s) + MAX_BACKOFF_S) url (ps_backoff (rs_poll s))"
    by (intro near_skips_end) (simp_all add: backoffs_near_def MAX_BACKOFF_S_def)
  with near show ?thesis by (simp add: backoffs_near_def file_near_def MAX_BACKOFF_S_def)
qed

definition quiet_config :: poll_config where
  "quiet_config = \<lparr>pc_lib = \<lparr>xml_entries = (\<lambda>s. None), unescape = (\<lambda>s. s), blake = (\<lambda>s. s), machine_zone = (\<lambda>t. Inr t)\<rparr>, pc_dumps = (\<lambda>j. []),
     pc_reports = (\<lambda>n d. None), pc_served = (\<lambda>p. 0), pc_pages = [\<lparr>pg_provider = ''x'', pg_url = ''https://status.x.com/history.atom''\<rparr>],
     pc_interval = 60, pc_jitter = (\<lambda>k. 0), pc_writes = (\<lambda>k. True), pc_schedule = (\<lambda>k. [])\<rparr>"

lemma quiet_run:
  "\<exists>s. run_poller 1 quiet_config (\<lambda>req e. (Inl (RetryAfter 4000), e)) ''cache.json'' 5 1000 0 NoFile () = (Inr 0, s)
    \<and> ps_mono (rs_poll s) = 5 \<and> bo_until (ps_backoff (rs_poll s)) = [(''status.x.com'', 305)]"
proof -
  have h: "host_of ''https://status.x.com/history.atom'' = ''status.x.com''" by code_simp
  show ?thesis
    by (simp add: run_poller_def Let_def sweep_def sequential_sweep quiet_config_def idle_def load_cache_def empty_file_def
        restore_def new_backoff_def poll_page_def skip_def failed_def h backoff_delay_def MAX_BACKOFF_S_def after_of_def
        count_fetch_def dict_set_def flush_checked_def flush_all_def serve_def new_producer_def save_cache_def file_of_def)
qed

theorem no_host_is_silenced_witness:
  "\<exists>s. run_poller 1 quiet_config (\<lambda>req e. (Inl (RetryAfter 4000), e)) ''cache.json'' 5 1000 0 NoFile () = (Inr 0, s)
    \<and> skip 304 ''https://status.x.com/feed'' (ps_backoff (rs_poll s))
    \<and> \<not> skip 305 ''https://status.x.com/feed'' (ps_backoff (rs_poll s))"
proof -
  have h: "host_of ''https://status.x.com/feed'' = ''status.x.com''" by code_simp
  obtain s where run: "run_poller 1 quiet_config (\<lambda>req e. (Inl (RetryAfter 4000), e)) ''cache.json'' 5 1000 0 NoFile () = (Inr 0, s)"
    and s: "ps_mono (rs_poll s) = 5" "bo_until (ps_backoff (rs_poll s)) = [(''status.x.com'', 305)]" using quiet_run by blast
  have "\<not> skip (ps_mono (rs_poll s) + 300) ''https://status.x.com/feed'' (ps_backoff (rs_poll s))"
    using no_host_is_silenced [OF run, of "''https://status.x.com/feed''"]
    by (simp add: file_of_def empty_file_def quiet_config_def)
  with run s show ?thesis by (simp add: skip_def h)
qed

end
