(* ===== verification/Connection.thy ===== *)
theory Connection
  imports Database
begin

section \<open>The reconnecting connection (\<^verbatim>\<open>freshet/common/db.py\<close>)\<close>

text \<open>
  \<open>execute\<close> runs a statement up to three times, reconnecting with a growing pause after an error of
  the connection. The statement and the reconnection are parameters: services on the state of the
  server, whose exceptions during a reconnection are suppressed. The theorems: the attempts and
  the pauses are bounded and the outcome is that of the last attempt; an error of the query is
  raised at once. The lemma at the end shows what a retry does when only the reply was lost.
\<close>

definition RETRY_ATTEMPTS :: nat where
  "RETRY_ATTEMPTS = 3"

definition RETRY_BASE_DELAY :: time where
  "RETRY_BASE_DELAY = 500000"

definition connection_error :: "exn \<Rightarrow> bool" where
  "connection_error e \<longleftrightarrow> e = OperationalError \<or> e = InterfaceError"

text \<open>\<open>reconnect\<close>: the old connection is closed, a new one opened; its result is not looked at.\<close>

definition reconnect :: "('e, unit, unit) service \<Rightarrow> 'e world \<Rightarrow> 'e world" where
  "reconnect open_conn w = snd (call_service open_conn () w)"

text \<open>The attempts left, the pause before the next one; the number of attempts made is returned for the theorem.\<close>

fun attempts_of ::
  "('e, 'q, 'a) service \<Rightarrow> ('e, unit, unit) service \<Rightarrow> nat \<Rightarrow> time \<Rightarrow> 'q \<Rightarrow> 'e world \<Rightarrow> ('a res \<times> 'e world) \<times> nat" where
  "attempts_of stmt open_conn 0 delay q w = ((Inl RuntimeError, w), 0)"
| "attempts_of stmt open_conn (Suc n) delay q w =
     (case call_service stmt q w of
        (Inr a, w1) \<Rightarrow> ((Inr a, w1), 1)
      | (Inl e, w1) \<Rightarrow>
          if \<not> connection_error e \<or> n = 0 then ((Inl e, w1), 1)
          else (case attempts_of stmt open_conn n (2 * delay) q (reconnect open_conn (sleep delay w1)) of
                  (r, k) \<Rightarrow> (r, Suc k)))"

definition execute :: "('e, 'q, 'a) service \<Rightarrow> ('e, unit, unit) service \<Rightarrow> 'q \<Rightarrow> ('e world, 'a) call" where
  "execute stmt open_conn q w = fst (attempts_of stmt open_conn RETRY_ATTEMPTS RETRY_BASE_DELAY q w)"

definition execute_attempts :: "('e, 'q, 'a) service \<Rightarrow> ('e, unit, unit) service \<Rightarrow> 'q \<Rightarrow> 'e world \<Rightarrow> nat" where
  "execute_attempts stmt open_conn q w = snd (attempts_of stmt open_conn RETRY_ATTEMPTS RETRY_BASE_DELAY q w)"

text \<open>The world before attempt \<open>k\<close> (from 0), had the ones before failed.\<close>

fun before_attempt ::
  "('e, 'q, 'a) service \<Rightarrow> ('e, unit, unit) service \<Rightarrow> time \<Rightarrow> 'q \<Rightarrow> nat \<Rightarrow> 'e world \<Rightarrow> 'e world" where
  "before_attempt stmt open_conn delay q 0 w = w"
| "before_attempt stmt open_conn delay q (Suc k) w =
     before_attempt stmt open_conn (2 * delay) q k
       (reconnect open_conn (sleep delay (snd (call_service stmt q w))))"

definition dropped :: "'a res \<Rightarrow> bool" where
  "dropped r \<longleftrightarrow> (case r of Inl e \<Rightarrow> connection_error e | Inr a \<Rightarrow> False)"

lemma attempts_of_spec:
  assumes "0 < n"
  shows "let k = snd (attempts_of stmt open_conn n delay q w);
      run = (\<lambda>i. call_service stmt q (before_attempt stmt open_conn delay q i w))
    in 0 < k \<and> k \<le> n \<and> fst (attempts_of stmt open_conn n delay q w) = run (k - 1)
       \<and> (\<forall>i < k - 1. dropped (fst (run i))) \<and> (k < n \<longrightarrow> \<not> dropped (fst (run (k - 1))))"
  using assms
proof (induction n arbitrary: delay w)
  case (Suc n)
  obtain r w1 where c: "call_service stmt q w = (r, w1)" by fastforce
  show ?case
  proof (cases "dropped r \<and> n \<noteq> 0")
    case False
    then have "attempts_of stmt open_conn (Suc n) delay q w = ((r, w1), 1)"
      using c by (auto simp: dropped_def split: sum.splits)
    with False c show ?thesis by auto
  next
    case True
    define w2 where "w2 = reconnect open_conn (sleep delay w1)"
    obtain out k where a: "attempts_of stmt open_conn n (2 * delay) q w2 = (out, k)" by fastforce
    have step: "attempts_of stmt open_conn (Suc n) delay q w = (out, Suc k)"
      using True c a by (auto simp: dropped_def w2_def split: sum.splits)
    from Suc.IH [of "2 * delay" w2] True a
    have IH: "0 < k" "k \<le> n" "out = call_service stmt q (before_attempt stmt open_conn (2 * delay) q (k - 1) w2)"
        "\<forall>i < k - 1. dropped (fst (call_service stmt q (before_attempt stmt open_conn (2 * delay) q i w2)))"
        "k < n \<longrightarrow> \<not> dropped (fst (call_service stmt q (before_attempt stmt open_conn (2 * delay) q (k - 1) w2)))"
      by (simp_all add: Let_def)
    have shift: "before_attempt stmt open_conn delay q (Suc i) w = before_attempt stmt open_conn (2 * delay) q i w2" for i
      by (simp add: w2_def c)
    have k: "k = Suc (k - 1)" using IH(1) by simp
    have "\<forall>i < Suc k - 1. dropped (fst (call_service stmt q (before_attempt stmt open_conn delay q i w)))"
    proof (intro allI impI)
      fix i assume i: "i < Suc k - 1"
      show "dropped (fst (call_service stmt q (before_attempt stmt open_conn delay q i w)))"
      proof (cases i)
        case 0
        with True c show ?thesis by simp
      next
        case (Suc j)
        with i IH(4) shift show ?thesis by simp
      qed
    qed
    moreover have "before_attempt stmt open_conn delay q k w = before_attempt stmt open_conn (2 * delay) q (k - 1) w2"
      using shift [of "k - 1"] k by simp
    ultimately show ?thesis using step IH by (simp add: Let_def)
  qed
qed simp

text \<open>C37. A statement is attempted at most three times, always at least once; every attempt but the last was dropped by
  the connection, the outcome is the last attempt's, and fewer than three mean the last was not dropped:
  a result or an error of the query ends the attempts at once.\<close>

theorem execute_retries_only_dropped_connections:
  "let k = execute_attempts stmt open_conn q w;
       run = (\<lambda>i. call_service stmt q (before_attempt stmt open_conn RETRY_BASE_DELAY q i w))
   in 0 < k \<and> k \<le> 3 \<and> execute stmt open_conn q w = run (k - 1)
      \<and> list_all (\<lambda>i. dropped (fst (run i))) [0..<k - 1]
      \<and> (if k < 3 then \<not> dropped (fst (run (k - 1))) else True)"
  using attempts_of_spec [of 3 stmt open_conn RETRY_BASE_DELAY q w]
  by (auto simp: execute_def execute_attempts_def RETRY_ATTEMPTS_def Let_def list_all_iff)

text \<open>A statement that took effect before its reply was lost takes effect again: here a counter goes from 0 to 2.\<close>

definition counting :: "(nat, unit, nat) service" where
  "counting q n = (if n = 0 then Inl OperationalError else Inr (Suc n), 0, Suc n)"

lemma lost_reply_repeats_the_statement:
  "(case execute counting (\<lambda>u n. (Inr (), 0, n)) () (start_world empty_database 0 0) of (r, w) \<Rightarrow> (r, env w)) = (Inr 2, 2)"
  by (simp add: execute_def RETRY_ATTEMPTS_def numeral_3_eq_3 call_service_def counting_def reconnect_def
      connection_error_def start_world_def)

end
