(* ===== verification/IndexReady.thy ===== *)
theory IndexReady
  imports Database Regex Civil
begin

section \<open>Waiting for the index (\<^verbatim>\<open>freshet/ops/index_ready.py\<close>)\<close>

text \<open>
  \<open>read_lag\<close> reads the lag of a consumer group out of \<^verbatim>\<open>rpk\<close>'s report; \<open>wait_ready\<close> reads every group
  until all are at zero or the deadline has passed. The command is a parameter, its duration
  passes on the clock. The loop may run forever when the interval is zero, so it is a partial
  function; the theorem shows that a positive interval makes it end, by a lag of zero for every
  group or by a \<^verbatim>\<open>TimeoutError\<close> after the deadline.
\<close>

record rpk_result =
  returncode :: int
  stdout :: string

definition TOTAL_LAG :: re where
  "TOTAL_LAG = seq [LineStart, lit ''TOTAL-LAG'', some space, Grp 1 (some (Cls is_digit)), many space, LineEnd]"

definition read_lag :: "('e, string, rpk_result) service \<Rightarrow> ('e, string, nat) service" where
  "read_lag run grp e =
     (case run grp e of
        (Inl x, d, e') \<Rightarrow> (Inl x, d, e')
      | (Inr r, d, e') \<Rightarrow>
          (if returncode r \<noteq> 0 then Inl RuntimeError
           else case search TOTAL_LAG (stdout r) of
             None \<Rightarrow> Inl RuntimeError
           | Some (b, m, g, a) \<Rightarrow> Inr (nat_of_digits (group_text 1 g)), d, e'))"

text \<open>One round: the lags read and whether a group could not be read; other exceptions end the wait.\<close>

fun read_groups ::
  "('e, string, nat) service \<Rightarrow> string list \<Rightarrow> 'e world \<Rightarrow> ((string \<times> nat) list \<times> bool) res \<times> 'e world" where
  "read_groups reader [] w = (Inr ([], False), w)"
| "read_groups reader (g # gs) w =
     (case call_service reader g w of
        (Inl e, w1) \<Rightarrow>
          if e \<noteq> RuntimeError then (Inl e, w1)
          else (case read_groups reader gs w1 of
                  (Inl x, w2) \<Rightarrow> (Inl x, w2) | (Inr (lags, failed), w2) \<Rightarrow> (Inr (lags, True), w2))
      | (Inr n, w1) \<Rightarrow>
          (case read_groups reader gs w1 of
             (Inl x, w2) \<Rightarrow> (Inl x, w2) | (Inr (lags, failed), w2) \<Rightarrow> (Inr ((g, n) # lags, failed), w2)))"

definition caught_up :: "(string \<times> nat) list \<times> bool \<Rightarrow> bool" where
  "caught_up r \<longleftrightarrow> \<not> snd r \<and> list_all (\<lambda>gl. snd gl = 0) (fst r)"

partial_function (option) poll_until_ready ::
  "('e, string, nat) service \<Rightarrow> string list \<Rightarrow> time \<Rightarrow> time \<Rightarrow> 'e world
     \<Rightarrow> ((string \<times> nat) list res \<times> 'e world) option" where
  "poll_until_ready reader groups interval deadline w =
     (case read_groups reader groups w of
        (Inl e, w1) \<Rightarrow> Some (Inl e, w1)
      | (Inr r, w1) \<Rightarrow>
          if caught_up r then Some (Inr (fst r), w1)
          else if deadline \<le> clock w1 then Some (Inl TimeoutError, w1)
          else poll_until_ready reader groups interval deadline (sleep (min interval (max 0 (deadline - clock w1))) w1))"

definition wait_ready ::
  "('e, string, nat) service \<Rightarrow> string list \<Rightarrow> time \<Rightarrow> time \<Rightarrow> 'e world
     \<Rightarrow> ((string \<times> nat) list res \<times> 'e world) option" where
  "wait_ready reader groups timeout interval w = poll_until_ready reader groups interval (clock w + timeout) w"

lemma read_groups_clock: "read_groups reader gs w = (r, w1) \<Longrightarrow> clock w \<le> clock w1"
proof (induction gs arbitrary: w r w1)
  case (Cons g gs)
  obtain r1 v where c: "call_service reader g w = (r1, v)" by fastforce
  have v: "clock w \<le> clock v" using call_serviceD [OF c] by simp
  obtain r2 u where g: "read_groups reader gs v = (r2, u)" by fastforce
  have "w1 = v \<or> w1 = u" using Cons.prems c g by (auto split: sum.splits if_splits prod.splits)
  with v Cons.IH [OF g] show ?case by auto
qed simp

lemma read_groups_names:
  "read_groups reader gs w = (Inr (lags, False), w1) \<Longrightarrow> map fst lags = gs"
  by (induction gs arbitrary: w lags) (auto split: sum.splits if_splits prod.splits)

lemma read_groups_raises:
  "read_groups reader gs w = (Inl e, w1) \<Longrightarrow> e \<noteq> RuntimeError \<and> (\<exists>g v. fst (reader g v) = Inl e)"
proof (induction gs arbitrary: w)
  case (Cons g gs)
  obtain r1 v where c: "call_service reader g w = (r1, v)" by fastforce
  obtain r2 u where g: "read_groups reader gs v = (r2, u)" by fastforce
  have raised: "\<exists>g v. fst (reader g v) = r1"
    using c by (auto simp: call_service_def split: prod.splits) (metis fst_conv)
  from Cons.prems c g consider "r1 = Inl e" "e \<noteq> RuntimeError" | "r2 = Inl e" "u = w1"
    by (auto split: sum.splits if_splits prod.splits)
  then show ?case by cases (use raised Cons.IH g in auto)
qed simp

lemma caught_up_lags: "caught_up (lags, failed) \<Longrightarrow> map fst lags = gs \<Longrightarrow> lags = map (\<lambda>g. (g, 0)) gs"
  by (induction lags arbitrary: gs) (auto simp: caught_up_def)

lemma poll_until_ready_ends:
  assumes "0 < interval"
  shows "\<exists>r w'. poll_until_ready reader groups interval deadline w = Some (r, w')
     \<and> (case r of Inr lags \<Rightarrow> lags = map (\<lambda>g. (g, 0)) groups | Inl e \<Rightarrow> e \<noteq> RuntimeError)
     \<and> (r = Inl TimeoutError \<longrightarrow> deadline \<le> clock w' \<or> (\<exists>g v. fst (reader g v) = Inl TimeoutError))"
proof (induction "nat (deadline - clock w)" arbitrary: w rule: less_induct)
  case less
  obtain r w1 where g: "read_groups reader groups w = (r, w1)" by fastforce
  show ?case
  proof (cases r)
    case (Inl e)
    with g read_groups_raises [of reader groups w e w1] show ?thesis by (subst poll_until_ready.simps) auto
  next
    case (Inr x)
    obtain lags failed where x: "x = (lags, failed)" by fastforce
    consider (up) "caught_up x" | (late) "\<not> caught_up x" "deadline \<le> clock w1"
      | (again) "\<not> caught_up x" "clock w1 < deadline" by linarith
    then show ?thesis
    proof cases
      case up
      then have "lags = map (\<lambda>g. (g, 0)) groups"
        using caught_up_lags [of lags failed groups] read_groups_names [of reader groups w lags w1] g Inr x
        by (auto simp: caught_up_def)
      with g Inr x up show ?thesis by (subst poll_until_ready.simps) auto
    next
      case late
      with g Inr show ?thesis by (subst poll_until_ready.simps) auto
    next
      case again
      let ?w = "sleep (min interval (max 0 (deadline - clock w1))) w1"
      have "nat (deadline - clock ?w) < nat (deadline - clock w)"
        using again assms read_groups_clock [OF g] by (simp add: sleep_def)
      from less [OF this] show ?thesis using g Inr again by (subst poll_until_ready.simps) auto
    qed
  qed
qed

text \<open>C36. Waiting for the index ends: with a positive interval and whatever the reports say, the wait returns a
  snapshot in which every group has lag zero, or raises; what it raises is not an unreadable group, and a
  \<^verbatim>\<open>TimeoutError\<close> comes after the deadline, unless a reader raised it.\<close>

theorem wait_ready_ends:
  assumes "0 < interval"
  shows "\<exists>r w'. wait_ready reader groups timeout interval w = Some (r, w')
     \<and> (case r of Inr lags \<Rightarrow> lags = map (\<lambda>g. (g, 0)) groups | Inl e \<Rightarrow> e \<noteq> RuntimeError)
     \<and> (r \<noteq> Inl TimeoutError \<or> clock w + timeout \<le> clock w' \<or> (\<exists>g v. fst (reader g v) = Inl TimeoutError))"
  using poll_until_ready_ends [OF assms, of reader groups "clock w + timeout" w] by (auto simp: wait_ready_def)

text \<open>The stream is two records behind, then one, then has caught up.\<close>

definition demo_lag :: "(nat, string, nat) service" where
  "demo_lag g n = (if g = ''embedder'' then (Inr 0, 0, n) else (Inr (2 - n), 0, Suc n))"

theorem wait_ready_ends_witness:
  "\<exists>r w'. wait_ready demo_lag [''freshet-stream'', ''embedder''] (seconds 300) (seconds 5) (start_world empty_database 0 0)
     = Some (r, w') \<and> (case r of Inr lags \<Rightarrow> lags = [(''freshet-stream'', 0), (''embedder'', 0)] | Inl e \<Rightarrow> e \<noteq> RuntimeError)"
proof -
  obtain r w' where "wait_ready demo_lag [''freshet-stream'', ''embedder''] (seconds 300) (seconds 5) (start_world empty_database 0 0) = Some (r, w')"
      and "case r of Inr lags \<Rightarrow> lags = map (\<lambda>g. (g, 0)) [''freshet-stream'', ''embedder''] | Inl e \<Rightarrow> e \<noteq> RuntimeError"
    using wait_ready_ends [of "seconds 5" demo_lag "[''freshet-stream'', ''embedder'']" "seconds 300" "start_world empty_database 0 0"]
    by auto
  then show ?thesis by (cases r) auto
qed

end
