(* ===== verification/Supervisor.thy ===== *)
theory Supervisor
  imports Prelude
begin

section \<open>The supervisor (\<^verbatim>\<open>freshet/ops/supervisor.py\<close>)\<close>

text \<open>
  The supervised children, their restarts and the halt. A process is a number; spawning one,
  asking whether it has exited, waiting for it with a timeout and the stop flag are answers of an
  operating system whose state is a parameter. The clock is the monotonic one; sleeping and
  waiting advance it. The state logs what was done to the processes, for the theorems: two starts
  of one child are at least the backoff apart, a halt or a stop leaves no child running unasked, and
  stopping takes at most 25 seconds per child.
\<close>

definition RESTART_BACKOFF_S :: real where
  "RESTART_BACKOFF_S = 30"

definition POLL_INTERVAL_S :: real where
  "POLL_INTERVAL_S = 1"

definition FAST_DEATH_S :: real where
  "FAST_DEATH_S = 15"

definition MAX_FAST_DEATHS :: nat where
  "MAX_FAST_DEATHS = 6"

record child =
  ch_proc :: nat
  ch_started_at :: real
  ch_restarts :: nat
  ch_fast_deaths :: nat

text \<open>What was done, with the index of the child: a start (its process and time), the two signals, a wait that ended.\<close>

datatype action = Started nat nat real | Terminated nat nat | Killed nat nat | Gone nat nat

text \<open>The operating system: \<open>os_spawn\<close> may raise; \<open>os_wait\<close> tells whether the process ended within the timeout and after how long.\<close>

record 'e os =
  os_spawn :: "nat \<Rightarrow> 'e \<Rightarrow> nat res \<times> 'e"
  os_exited :: "nat \<Rightarrow> 'e \<Rightarrow> bool \<times> 'e"
  os_wait :: "nat \<Rightarrow> 'e \<Rightarrow> bool \<times> real \<times> 'e"
  os_stop :: "'e \<Rightarrow> bool \<times> 'e"

record 'e sup =
  children :: "child list"
  sup_clock :: real
  sup_env :: 'e
  actions :: "action list"

definition sup_sleep :: "real \<Rightarrow> 'e sup \<Rightarrow> 'e sup" where
  "sup_sleep d s = s\<lparr>sup_clock := sup_clock s + max 0 d\<rparr>"

definition log_action :: "action \<Rightarrow> 'e sup \<Rightarrow> 'e sup" where
  "log_action a s = s\<lparr>actions := actions s @ [a]\<rparr>"

definition update_child :: "nat \<Rightarrow> (child \<Rightarrow> child) \<Rightarrow> 'e sup \<Rightarrow> 'e sup" where
  "update_child i f s = s\<lparr>children := (children s)[i := f (children s ! i)]\<rparr>"

text \<open>\<^verbatim>\<open>_start\<close>.\<close>

definition start_child :: "'e os \<Rightarrow> nat \<Rightarrow> 'e sup \<Rightarrow> unit res \<times> 'e sup" where
  "start_child sys i s =
     (case os_spawn sys i (sup_env s) of
        (Inl e, env) \<Rightarrow> (Inl e, s\<lparr>sup_env := env\<rparr>)
      | (Inr p, env) \<Rightarrow>
          (Inr (), log_action (Started i p (sup_clock s))
             (update_child i (\<lambda>c. c\<lparr>ch_proc := p, ch_started_at := sup_clock s\<rparr>) (s\<lparr>sup_env := env\<rparr>))))"

fun start_all :: "'e os \<Rightarrow> nat list \<Rightarrow> 'e sup \<Rightarrow> unit res \<times> 'e sup" where
  "start_all sys [] s = (Inr (), s)"
| "start_all sys (i # is) s =
     (case start_child sys i s of (Inl e, s1) \<Rightarrow> (Inl e, s1) | (Inr u, s1) \<Rightarrow> start_all sys is s1)"

subsection \<open>Shutdown\<close>

definition wait_child :: "'e os \<Rightarrow> real \<Rightarrow> nat \<Rightarrow> 'e sup \<Rightarrow> bool \<times> 'e sup" where
  "wait_child sys timeout i s =
     (let p = ch_proc (children s ! i) in
      case os_wait sys p (sup_env s) of
        (ended, d, env) \<Rightarrow>
          let s1 = sup_sleep (min timeout d) (s\<lparr>sup_env := env\<rparr>)
          in if ended \<and> d \<le> timeout then (True, log_action (Gone i p) s1) else (False, s1))"

definition stop_child :: "'e os \<Rightarrow> nat \<Rightarrow> 'e sup \<Rightarrow> 'e sup" where
  "stop_child sys i s =
     (case wait_child sys 20 i s of
        (True, s1) \<Rightarrow> s1
      | (False, s1) \<Rightarrow> snd (wait_child sys 5 i (log_action (Killed i (ch_proc (children s1 ! i))) s1)))"

fun terminate_all :: "nat list \<Rightarrow> 'e sup \<Rightarrow> 'e sup" where
  "terminate_all [] s = s"
| "terminate_all (i # is) s = terminate_all is (log_action (Terminated i (ch_proc (children s ! i))) s)"

fun stop_all :: "'e os \<Rightarrow> nat list \<Rightarrow> 'e sup \<Rightarrow> 'e sup" where
  "stop_all sys [] s = s"
| "stop_all sys (i # is) s = stop_all sys is (stop_child sys i s)"

definition indices :: "'e sup \<Rightarrow> nat list" where
  "indices s = [0..<length (children s)]"

lemma indices_simps [simp]: "set (indices s) = {..<length (children s)}" "distinct (indices s)"
  by (auto simp: indices_def)

definition shutdown :: "'e os \<Rightarrow> 'e sup \<Rightarrow> 'e sup" where
  "shutdown sys s = stop_all sys (indices s) (terminate_all (indices s) s)"

subsection \<open>Supervision\<close>

record sup_config =
  backoff_s :: real
  poll_s :: real
  fast_death_s :: real
  max_fast_deaths :: nat

definition default_config :: sup_config where
  "default_config = \<lparr>backoff_s = RESTART_BACKOFF_S, poll_s = POLL_INTERVAL_S, fast_death_s = FAST_DEATH_S,
     max_fast_deaths = MAX_FAST_DEATHS\<rparr>"

definition lived :: "nat \<Rightarrow> 'e sup \<Rightarrow> real" where
  "lived i s = sup_clock s - ch_started_at (children s ! i)"

text \<open>A dead child is first left alone until the backoff is over; then its death is counted.\<close>

definition after_death :: "sup_config \<Rightarrow> nat \<Rightarrow> 'e sup \<Rightarrow> 'e sup" where
  "after_death cfg i s =
     update_child i (\<lambda>c. c\<lparr>ch_fast_deaths := if lived i s < fast_death_s cfg then Suc (ch_fast_deaths c) else 0\<rparr>)
       (if lived i s < backoff_s cfg then sup_sleep (backoff_s cfg - lived i s) s else s)"

definition check_child :: "sup_config \<Rightarrow> 'e os \<Rightarrow> nat \<Rightarrow> 'e sup \<Rightarrow> unit res \<times> 'e sup" where
  "check_child cfg sys i s =
     (case os_exited sys (ch_proc (children s ! i)) (sup_env s) of
        (False, env) \<Rightarrow> (Inr (), s\<lparr>sup_env := env\<rparr>)
      | (True, env) \<Rightarrow>
          let s0 = s\<lparr>sup_env := env\<rparr>; s1 = after_death cfg i s0
          in if lived i s0 < fast_death_s cfg \<and> max_fast_deaths cfg \<le> ch_fast_deaths (children s1 ! i)
             then (Inl DependencyDown, shutdown sys s1)
             else start_child sys i (update_child i (\<lambda>c. c\<lparr>ch_restarts := Suc (ch_restarts c)\<rparr>) s1))"

fun check_children :: "sup_config \<Rightarrow> 'e os \<Rightarrow> nat list \<Rightarrow> 'e sup \<Rightarrow> unit res \<times> 'e sup" where
  "check_children cfg sys [] s = (Inr (), s)"
| "check_children cfg sys (i # is) s =
     (case check_child cfg sys i s of (Inl e, s1) \<Rightarrow> (Inl e, s1) | (Inr u, s1) \<Rightarrow> check_children cfg sys is s1)"

text \<open>How the supervision stands after at most \<open>n\<close> rounds.\<close>

datatype sup_end = Supervising | Stopped | Halted exn

fun rounds :: "sup_config \<Rightarrow> 'e os \<Rightarrow> nat \<Rightarrow> 'e sup \<Rightarrow> sup_end \<times> 'e sup" where
  "rounds cfg sys 0 s = (Supervising, s)"
| "rounds cfg sys (Suc n) s =
     (case os_stop sys (sup_env s) of
        (True, env) \<Rightarrow> (Stopped, shutdown sys (s\<lparr>sup_env := env\<rparr>))
      | (False, env) \<Rightarrow>
          (case check_children cfg sys (indices s) (sup_sleep (poll_s cfg) (s\<lparr>sup_env := env\<rparr>)) of
             (Inl e, s1) \<Rightarrow> (Halted e, s1)
           | (Inr u, s1) \<Rightarrow> rounds cfg sys n s1))"

definition new_child :: child where
  "new_child = \<lparr>ch_proc = 0, ch_started_at = 0, ch_restarts = 0, ch_fast_deaths = 0\<rparr>"

definition supervise :: "sup_config \<Rightarrow> 'e os \<Rightarrow> nat \<Rightarrow> nat \<Rightarrow> real \<Rightarrow> 'e \<Rightarrow> sup_end \<times> 'e sup" where
  "supervise cfg sys k n now e =
     (let s = \<lparr>children = replicate k new_child, sup_clock = now, sup_env = e, actions = []\<rparr>
      in case start_all sys (indices s) s of
           (Inl x, s1) \<Rightarrow> (Halted x, s1)
         | (Inr u, s1) \<Rightarrow> rounds cfg sys n s1)"

subsection \<open>Restarts are throttled\<close>

fun starts_of :: "nat \<Rightarrow> action list \<Rightarrow> real list" where
  "starts_of i [] = []"
| "starts_of i (Started j p t # as) = (if i = j then t # starts_of i as else starts_of i as)"
| "starts_of i (a # as) = starts_of i as"

lemma starts_of_append [simp]: "starts_of i (as @ bs) = starts_of i as @ starts_of i bs"
  by (induction i as rule: starts_of.induct) simp_all

text \<open>The starts of a child are apart, the last one is the noted one, and the clock is past it.\<close>

fun apart :: "real \<Rightarrow> real list \<Rightarrow> bool" where
  "apart d [] = True"
| "apart d [t] = True"
| "apart d (t # u # ts) = (t + d \<le> u \<and> apart d (u # ts))"

lemma apart_snoc: "apart d (ts @ [t]) \<longleftrightarrow> apart d ts \<and> (ts \<noteq> [] \<longrightarrow> last ts + d \<le> t)"
  by (induction d ts rule: apart.induct) auto

definition throttle_inv :: "sup_config \<Rightarrow> 'e sup \<Rightarrow> bool" where
  "throttle_inv cfg s \<longleftrightarrow> (\<forall>i. apart (backoff_s cfg) (starts_of i (actions s))
     \<and> (i < length (children s) \<longrightarrow> starts_of i (actions s) \<noteq> [] \<longrightarrow>
          last (starts_of i (actions s)) = ch_started_at (children s ! i)))"

definition is_start :: "action \<Rightarrow> bool" where
  "is_start a \<longleftrightarrow> (case a of Started i p t \<Rightarrow> True | _ \<Rightarrow> False)"

lemma starts_of_others: "list_all (\<lambda>a. \<not> is_start a) as \<Longrightarrow> starts_of i as = []"
  by (induction i as rule: starts_of.induct) (simp_all add: is_start_def)

text \<open>A shutdown adds no start and leaves the children as they are.\<close>

definition quiet :: "'e sup \<Rightarrow> 'e sup \<Rightarrow> bool" where
  "quiet s s' \<longleftrightarrow> children s' = children s \<and> sup_clock s \<le> sup_clock s'
     \<and> (\<exists>as. actions s' = actions s @ as \<and> list_all (\<lambda>a. \<not> is_start a) as)"

lemma quiet_refl [simp]: "quiet s s"
  by (simp add: quiet_def)

lemma quiet_trans: "quiet s t \<Longrightarrow> quiet t u \<Longrightarrow> quiet s u"
proof -
  assume st: "quiet s t" and tu: "quiet t u"
  from st obtain a where a: "actions t = actions s @ a" "list_all (\<lambda>x. \<not> is_start x) a" by (auto simp: quiet_def)
  from tu obtain b where b: "actions u = actions t @ b" "list_all (\<lambda>x. \<not> is_start x) b" by (auto simp: quiet_def)
  have "actions u = actions s @ (a @ b) \<and> list_all (\<lambda>x. \<not> is_start x) (a @ b)" using a b by simp
  with st tu show "quiet s u" unfolding quiet_def by auto
qed

lemma quiet_log: "\<not> is_start a \<Longrightarrow> quiet s (log_action a s)"
  by (simp add: quiet_def log_action_def)

lemma wait_child_quiet: "quiet s (snd (wait_child sys timeout i s))"
  by (auto simp: wait_child_def quiet_def log_action_def sup_sleep_def is_start_def Let_def split: prod.split)

lemma stop_child_quiet: "quiet s (stop_child sys i s)"
proof -
  obtain b s1 where w: "wait_child sys 20 i s = (b, s1)" by fastforce
  have "quiet s s1" using wait_child_quiet [of s sys 20 i] w by simp
  moreover have "quiet s1 (snd (wait_child sys 5 i (log_action (Killed i p) s1)))" for p
    by (rule quiet_trans [OF quiet_log wait_child_quiet]) (simp add: is_start_def)
  ultimately show ?thesis using w quiet_trans by (cases b) (auto simp: stop_child_def)
qed

lemma stop_all_quiet: "quiet s (stop_all sys is s)"
  by (induction "is" arbitrary: s) (auto intro: quiet_trans stop_child_quiet)

lemma terminate_all_quiet: "quiet s (terminate_all is s)"
proof (induction "is" arbitrary: s)
  case (Cons i "is")
  show ?case unfolding terminate_all.simps
    by (rule quiet_trans [OF quiet_log Cons.IH]) (simp add: is_start_def)
qed simp

lemma shutdown_quiet: "quiet s (shutdown sys s)"
  unfolding shutdown_def by (rule quiet_trans [OF terminate_all_quiet stop_all_quiet])

lemma quiet_throttle: "quiet s s' \<Longrightarrow> throttle_inv cfg s \<Longrightarrow> throttle_inv cfg s'"
  by (auto simp: quiet_def throttle_inv_def starts_of_others)

lemma start_child_throttle:
  assumes "start_child sys i s = (r, s')" and "throttle_inv cfg s" and "i < length (children s)"
    and "starts_of i (actions s) = [] \<or> ch_started_at (children s ! i) + backoff_s cfg \<le> sup_clock s"
  shows "throttle_inv cfg s' \<and> length (children s') = length (children s)
    \<and> (\<forall>j. j \<noteq> i \<longrightarrow> starts_of j (actions s') = starts_of j (actions s))"
proof (cases "fst (os_spawn sys i (sup_env s))")
  case (Inl e)
  with assms show ?thesis by (auto simp: start_child_def throttle_inv_def split: prod.splits sum.splits)
next
  case (Inr p)
  then obtain env where "os_spawn sys i (sup_env s) = (Inr p, env)" by (metis prod.collapse)
  then have s': "s' = log_action (Started i p (sup_clock s))
             (update_child i (\<lambda>c. c\<lparr>ch_proc := p, ch_started_at := sup_clock s\<rparr>) (s\<lparr>sup_env := env\<rparr>))"
    using assms(1) by (simp add: start_child_def)
  show ?thesis
    using assms(2-) unfolding s' throttle_inv_def
    by (auto simp: log_action_def update_child_def apart_snoc nth_list_update)
qed

lemma start_all_throttle:
  "start_all sys is s = (r, s') \<Longrightarrow> throttle_inv cfg s \<Longrightarrow> distinct is \<Longrightarrow> set is \<subseteq> {..<length (children s)} \<Longrightarrow>
   (\<And>i. i \<in> set is \<Longrightarrow> starts_of i (actions s) = []) \<Longrightarrow> throttle_inv cfg s' \<and> length (children s') = length (children s)"
proof (induction "is" arbitrary: s)
  case (Cons i "is")
  obtain r1 s1 where c: "start_child sys i s = (r1, s1)" by fastforce
  note st = start_child_throttle [OF c Cons.prems(2)]
  have st: "throttle_inv cfg s1 \<and> length (children s1) = length (children s)
    \<and> (\<forall>j. j \<noteq> i \<longrightarrow> starts_of j (actions s1) = starts_of j (actions s))"
    using st Cons.prems by simp
  show ?case
  proof (cases r1)
    case (Inl e)
    with Cons.prems(1) c st show ?thesis by auto
  next
    case (Inr u)
    with Cons.prems(1) c have r: "start_all sys is s1 = (r, s')" by simp
    have "starts_of j (actions s1) = []" if "j \<in> set is" for j
    proof -
      have "j \<noteq> i" using that Cons.prems(3) by auto
      with st Cons.prems(5) that show ?thesis by auto
    qed
    from Cons.IH [OF r _ _ _ this] st Cons.prems(3,4) show ?thesis by simp
  qed
qed simp

text \<open>What a check of one child does.\<close>

lemma check_child_cases:
  assumes "check_child cfg sys i s = (r, s')"
  obtains (alive) env where "r = Inr ()" "s' = s\<lparr>sup_env := env\<rparr>"
  | (halted) env where "r = Inl DependencyDown" "s' = shutdown sys (after_death cfg i (s\<lparr>sup_env := env\<rparr>))"
      "lived i s < fast_death_s cfg"
      "max_fast_deaths cfg \<le> ch_fast_deaths (children (after_death cfg i (s\<lparr>sup_env := env\<rparr>)) ! i)"
  | (restarted) env where "start_child sys i (update_child i (\<lambda>c. c\<lparr>ch_restarts := Suc (ch_restarts c)\<rparr>)
        (after_death cfg i (s\<lparr>sup_env := env\<rparr>))) = (r, s')"
      "lived i s < fast_death_s cfg \<longrightarrow>
         ch_fast_deaths (children (after_death cfg i (s\<lparr>sup_env := env\<rparr>)) ! i) < max_fast_deaths cfg"
proof -
  obtain b env where x: "os_exited sys (ch_proc (children s ! i)) (sup_env s) = (b, env)" by fastforce
  have l: "lived i (s\<lparr>sup_env := env\<rparr>) = lived i s" by (simp add: lived_def)
  show thesis
  proof (cases b)
    case False
    with assms x show thesis by (intro alive) (auto simp: check_child_def)
  next
    case True
    let ?d = "after_death cfg i (s\<lparr>sup_env := env\<rparr>)"
    show thesis
    proof (cases "lived i s < fast_death_s cfg \<and> max_fast_deaths cfg \<le> ch_fast_deaths (children ?d ! i)")
      case h: True
      have "(r, s') = (Inl DependencyDown, shutdown sys ?d)"
        using assms True x l h unfolding check_child_def Let_def by simp
      with h show thesis by (intro halted) auto
    next
      case False
      with assms True x l have "start_child sys i (update_child i (\<lambda>c. c\<lparr>ch_restarts := Suc (ch_restarts c)\<rparr>) ?d) = (r, s')"
        unfolding check_child_def Let_def by (simp only: prod.case bool.case l if_False)
      with False show thesis by (intro restarted) auto
    qed
  qed
qed

lemma after_death_frame:
  assumes "i < length (children s)"
  shows "length (children (after_death cfg i s)) = length (children s)" and "actions (after_death cfg i s) = actions s"
    and "ch_started_at (children (after_death cfg i s) ! j) = ch_started_at (children s ! j)"
    and "ch_started_at (children s ! i) + backoff_s cfg \<le> sup_clock (after_death cfg i s)"
    and "sup_clock s \<le> sup_clock (after_death cfg i s)"
  using assms
  by (auto simp: after_death_def update_child_def sup_sleep_def lived_def nth_list_update)

lemma throttle_invI:
  assumes "throttle_inv cfg s" and "actions s' = actions s" and "length (children s') = length (children s)"
    and "\<And>j. ch_started_at (children s' ! j) = ch_started_at (children s ! j)"
  shows "throttle_inv cfg s'"
  using assms by (simp add: throttle_inv_def)

lemma check_child_throttle:
  assumes "check_child cfg sys i s = (r, s')" and "throttle_inv cfg s" and i: "i < length (children s)"
  shows "throttle_inv cfg s' \<and> length (children s') = length (children s)"
  using assms(1)
proof (cases rule: check_child_cases)
  case (alive env)
  with assms(2) show ?thesis by (simp add: throttle_inv_def)
next
  case (halted env)
  let ?s = "s\<lparr>sup_env := env\<rparr>"
  have "throttle_inv cfg (after_death cfg i ?s)"
    by (rule throttle_invI [OF assms(2)]) (use i after_death_frame [of i ?s cfg] in simp_all)
  then show ?thesis
    using halted(2) quiet_throttle [OF shutdown_quiet] shutdown_quiet [of "after_death cfg i ?s" sys] i after_death_frame(1) [of i ?s cfg]
    by (simp add: quiet_def)
next
  case (restarted env)
  let ?s = "s\<lparr>sup_env := env\<rparr>"
  let ?s3 = "update_child i (\<lambda>c. c\<lparr>ch_restarts := Suc (ch_restarts c)\<rparr>) (after_death cfg i ?s)"
  have len: "length (children ?s3) = length (children s)" and act: "actions ?s3 = actions s"
    using i after_death_frame [of i ?s cfg] by (simp_all add: update_child_def)
  have st: "ch_started_at (children ?s3 ! j) = ch_started_at (children s ! j)" for j
    using i after_death_frame(1,3) [of i ?s cfg] by (cases "j = i") (simp_all add: update_child_def)
  have inv: "throttle_inv cfg ?s3" by (rule throttle_invI [OF assms(2) act len st])
  have "ch_started_at (children ?s3 ! i) + backoff_s cfg \<le> sup_clock ?s3"
    using st [of i] after_death_frame(4) [of i ?s cfg] i by (simp add: update_child_def)
  from start_child_throttle [OF restarted(1) inv _ disjI2 [OF this]] len i show ?thesis by simp
qed

lemma check_children_throttle:
  "check_children cfg sys is s = (r, s') \<Longrightarrow> throttle_inv cfg s \<Longrightarrow> set is \<subseteq> {..<length (children s)} \<Longrightarrow>
     throttle_inv cfg s' \<and> length (children s') = length (children s)"
proof (induction "is" arbitrary: s)
  case (Cons i "is")
  obtain r1 s1 where c: "check_child cfg sys i s = (r1, s1)" by fastforce
  note st = check_child_throttle [OF c Cons.prems(2)]
  from Cons.prems c show ?case by (cases r1) (use st Cons.IH [of s1] Cons.prems(3) in auto)
qed simp

lemma sup_sleep_throttle: "throttle_inv cfg (sup_sleep d (s\<lparr>sup_env := env\<rparr>)) = throttle_inv cfg s"
  by (simp add: throttle_inv_def sup_sleep_def)

lemma rounds_throttle: "throttle_inv cfg s \<Longrightarrow> throttle_inv cfg (snd (rounds cfg sys n s))"
proof (induction n arbitrary: s)
  case (Suc n)
  obtain b env where stop: "os_stop sys (sup_env s) = (b, env)" by fastforce
  have inv: "throttle_inv cfg (s\<lparr>sup_env := env\<rparr>)" using Suc.prems by (simp add: throttle_inv_def)
  show ?case
  proof (cases b)
    case True
    with stop quiet_throttle [OF shutdown_quiet inv] show ?thesis by simp
  next
    case False
    let ?s = "sup_sleep (poll_s cfg) (s\<lparr>sup_env := env\<rparr>)"
    obtain r1 s1 where c: "check_children cfg sys (indices s) ?s = (r1, s1)" by fastforce
    have "throttle_inv cfg s1"
      using check_children_throttle [OF c] Suc.prems by (simp add: sup_sleep_throttle) (simp add: sup_sleep_def)
    then show ?thesis using stop False c Suc.IH by (cases r1) simp_all
  qed
qed simp

text \<open>Restarts are throttled: whatever the children and the operating system do, and however long the supervision
  runs, two consecutive starts of one child are at least the backoff (30 seconds) apart.\<close>

theorem restarts_are_throttled:
  "apart (backoff_s cfg) (starts_of i (actions (snd (supervise cfg sys k n now e))))"
proof -
  let ?s = "\<lparr>children = replicate k new_child, sup_clock = now, sup_env = e, actions = []\<rparr>"
  obtain r s1 where st: "start_all sys (indices ?s) ?s = (r, s1)" by fastforce
  have "throttle_inv cfg ?s" by (simp add: throttle_inv_def)
  then have inv: "throttle_inv cfg s1"
    using start_all_throttle [OF st] by simp
  have "throttle_inv cfg (snd (supervise cfg sys k n now e))"
    using st inv rounds_throttle by (cases r) (simp_all add: supervise_def Let_def)
  then show ?thesis by (simp add: throttle_inv_def)
qed

subsection \<open>Nothing is left running\<close>

text \<open>Since the last start every child was sent a signal, and ended or was killed.\<close>

definition all_stopped :: "'e sup \<Rightarrow> bool" where
  "all_stopped s \<longleftrightarrow> (\<exists>as bs. actions s = as @ bs \<and> list_all (\<lambda>a. \<not> is_start a) bs
     \<and> (\<forall>i < length (children s). Terminated i (ch_proc (children s ! i)) \<in> set bs
          \<and> (Gone i (ch_proc (children s ! i)) \<in> set bs \<or> Killed i (ch_proc (children s ! i)) \<in> set bs)))"

definition news :: "'e sup \<Rightarrow> 'e sup \<Rightarrow> action set" where
  "news s s' = set (drop (length (actions s)) (actions s'))"

lemma news_trans: "quiet s t \<Longrightarrow> quiet t u \<Longrightarrow> news s u = news s t \<union> news t u"
  by (auto simp: quiet_def news_def)

lemma news_log [simp]: "news s (log_action a s) = {a}"
  by (simp add: news_def log_action_def)

lemma log_action_children [simp]: "children (log_action a s) = children s"
  by (simp add: log_action_def)

lemma quiet_children: "quiet s s' \<Longrightarrow> children s' = children s"
  by (simp add: quiet_def)

lemma terminate_all_does: "i \<in> set is \<Longrightarrow> Terminated i (ch_proc (children s ! i)) \<in> news s (terminate_all is s)"
proof (induction "is" arbitrary: s)
  case (Cons j "is")
  let ?s = "log_action (Terminated j (ch_proc (children s ! j))) s"
  have "news s (terminate_all is ?s) = {Terminated j (ch_proc (children s ! j))} \<union> news ?s (terminate_all is ?s)"
    using news_trans [OF quiet_log terminate_all_quiet, of "Terminated j (ch_proc (children s ! j))" s "is"]
    by (simp add: is_start_def)
  with Cons.IH [of ?s] Cons.prems show ?case by auto
qed simp

lemma stop_child_does:
  "Gone i (ch_proc (children s ! i)) \<in> news s (stop_child sys i s)
     \<or> Killed i (ch_proc (children s ! i)) \<in> news s (stop_child sys i s)"
proof -
  obtain b s1 where w: "wait_child sys 20 i s = (b, s1)" by fastforce
  have q: "quiet s s1" using wait_child_quiet [of s sys 20 i] w by simp
  show ?thesis
  proof (cases b)
    case True
    with w show ?thesis
      by (auto simp: stop_child_def wait_child_def log_action_def news_def sup_sleep_def Let_def split: prod.splits if_splits)
  next
    case False
    let ?a = "Killed i (ch_proc (children s1 ! i))"
    have "quiet s1 (log_action ?a s1)" by (rule quiet_log) (simp add: is_start_def)
    then have "news s (stop_child sys i s)
        = news s s1 \<union> ({?a} \<union> news (log_action ?a s1) (snd (wait_child sys 5 i (log_action ?a s1))))"
      using w False news_trans [OF q, of "snd (wait_child sys 5 i (log_action ?a s1))"]
        news_trans [of s1 "log_action ?a s1" "snd (wait_child sys 5 i (log_action ?a s1))"]
        wait_child_quiet [of "log_action ?a s1" sys 5 i] quiet_trans
      by (auto simp: stop_child_def)
    then show ?thesis using quiet_children [OF q] by simp
  qed
qed

lemma stop_all_does:
  "i \<in> set is \<Longrightarrow> Gone i (ch_proc (children s ! i)) \<in> news s (stop_all sys is s)
     \<or> Killed i (ch_proc (children s ! i)) \<in> news s (stop_all sys is s)"
proof (induction "is" arbitrary: s)
  case (Cons j "is")
  let ?s = "stop_child sys j s"
  have c: "children ?s = children s" by (rule quiet_children [OF stop_child_quiet])
  have "news s (stop_all sys is ?s) = news s ?s \<union> news ?s (stop_all sys is ?s)"
    by (rule news_trans [OF stop_child_quiet stop_all_quiet])
  with Cons.IH [of ?s] Cons.prems c stop_child_does [of j s sys] show ?case by auto
qed simp

lemma shutdown_stops_all: "all_stopped (shutdown sys s)"
proof -
  let ?t = "terminate_all (indices s) s"
  let ?u = "stop_all sys (indices s) ?t"
  have ct: "children ?t = children s" by (rule quiet_children [OF terminate_all_quiet])
  have cu: "children ?u = children ?t" by (rule quiet_children [OF stop_all_quiet])
  have new: "news s ?u = news s ?t \<union> news ?t ?u" by (rule news_trans [OF terminate_all_quiet stop_all_quiet])
  obtain bs where bs: "actions ?u = actions s @ bs" "list_all (\<lambda>a. \<not> is_start a) bs"
    using shutdown_quiet [of s sys] by (auto simp: quiet_def shutdown_def)
  then have "set bs = news s ?u" by (simp add: news_def)
  then have "Terminated i (ch_proc (children ?u ! i)) \<in> set bs
      \<and> (Gone i (ch_proc (children ?u ! i)) \<in> set bs \<or> Killed i (ch_proc (children ?u ! i)) \<in> set bs)"
    if "i < length (children ?u)" for i
    using that terminate_all_does [of i "indices s" s] stop_all_does [of i "indices s" ?t sys] ct cu new by auto
  with bs show ?thesis unfolding all_stopped_def shutdown_def by blast
qed

text \<open>How a supervision ends.\<close>

definition ended_well :: "'e os \<Rightarrow> sup_end \<times> 'e sup \<Rightarrow> bool" where
  "ended_well sys out \<longleftrightarrow>
     (case out of
        (Supervising, s) \<Rightarrow> True
      | (Stopped, s) \<Rightarrow> all_stopped s
      | (Halted x, s) \<Rightarrow> (x = DependencyDown \<and> all_stopped s) \<or> (\<exists>i e. fst (os_spawn sys i e) = Inl x))"

lemma start_child_raises: "start_child sys i s = (Inl x, s') \<Longrightarrow> \<exists>i e. fst (os_spawn sys i e) = Inl x"
  by (auto simp: start_child_def split: prod.splits sum.splits) (metis fst_conv)

lemma start_all_raises: "start_all sys is s = (Inl x, s') \<Longrightarrow> \<exists>i e. fst (os_spawn sys i e) = Inl x"
proof (induction "is" arbitrary: s)
  case (Cons i "is")
  obtain r s1 where "start_child sys i s = (r, s1)" by fastforce
  with Cons show ?case by (cases r) (auto dest: start_child_raises)
qed simp

lemma check_children_raises: "check_children cfg sys is s = (Inl x, s') \<Longrightarrow> ended_well sys (Halted x, s')"
proof (induction "is" arbitrary: s)
  case (Cons i "is")
  obtain r s1 where c: "check_child cfg sys i s = (r, s1)" by fastforce
  show ?case
  proof (cases r)
    case (Inr u)
    with Cons c show ?thesis by simp
  next
    case (Inl y)
    then have x: "y = x" "s1 = s'" using Cons.prems c by simp_all
    from c show ?thesis
    proof (cases rule: check_child_cases)
      case alive
      with Inl show ?thesis by simp
    next
      case halted
      then have "all_stopped s'" using shutdown_stops_all x by metis
      with halted(1) Inl x show ?thesis by (simp add: ended_well_def)
    next
      case restarted
      with Inl x start_child_raises have "\<exists>i e. fst (os_spawn sys i e) = Inl x" by blast
      then show ?thesis by (simp add: ended_well_def)
    qed
  qed
qed simp

lemma rounds_end: "ended_well sys (rounds cfg sys n s)"
proof (induction n arbitrary: s)
  case 0
  show ?case by (simp add: ended_well_def)
next
  case (Suc n)
  obtain b env where stop: "os_stop sys (sup_env s) = (b, env)" by fastforce
  show ?case
  proof (cases b)
    case True
    with stop show ?thesis by (simp add: ended_well_def shutdown_stops_all)
  next
    case False
    obtain r1 s1 where c: "check_children cfg sys (indices s) (sup_sleep (poll_s cfg) (s\<lparr>sup_env := env\<rparr>)) = (r1, s1)"
      by fastforce
    with stop False Suc.IH check_children_raises [of cfg sys "indices s"] show ?thesis by (cases r1) auto
  qed
qed

text \<open>C26. Nothing is left running: a supervision that stops, or halts because a dependency is down, has since the
  last start sent every child a termination signal, and each child ended in time or was killed; the only
  other exception is one raised by starting a process.\<close>

theorem no_child_is_left_running:
  "case supervise cfg sys k n now e of
     (Supervising, s) \<Rightarrow> True
   | (Stopped, s) \<Rightarrow> all_stopped s
   | (Halted x, s) \<Rightarrow> (x = DependencyDown \<and> all_stopped s) \<or> (\<exists>i v. fst (os_spawn sys i v) = Inl x)"
proof -
  let ?s = "\<lparr>children = replicate k new_child, sup_clock = now, sup_env = e, actions = []\<rparr>"
  obtain r s1 where st: "start_all sys (indices ?s) ?s = (r, s1)" by fastforce
  have "ended_well sys (supervise cfg sys k n now e)"
  proof (cases r)
    case (Inl x)
    with st start_all_raises [of sys "indices ?s" ?s x s1] show ?thesis
      by (simp add: supervise_def Let_def) (simp add: ended_well_def)
  next
    case (Inr u)
    with st rounds_end [of sys cfg n s1] show ?thesis by (simp add: supervise_def Let_def)
  qed
  then show ?thesis by (simp add: ended_well_def)
qed

text \<open>An exception of a later start ends the supervision without a shutdown: the first child keeps running.\<close>

definition no_log_dir :: "unit os" where
  "no_log_dir = \<lparr>os_spawn = (\<lambda>i e. (if i = 0 then Inr 7 else Inl (OtherError ''FileNotFoundError''), e)),
     os_exited = (\<lambda>p e. (False, e)), os_wait = (\<lambda>p e. (True, 0, e)), os_stop = (\<lambda>e. (True, e))\<rparr>"

lemma failed_start_leaves_a_child_running:
  "(case supervise default_config no_log_dir 2 5 0 () of (r, s) \<Rightarrow> (r, actions s))
     = (Halted (OtherError ''FileNotFoundError''), [Started 0 7 0])"
  by code_simp

text \<open>Stopping takes at most 25 seconds per child.\<close>

lemma wait_child_time: "0 \<le> timeout \<Longrightarrow> sup_clock (snd (wait_child sys timeout i s)) \<le> sup_clock s + timeout"
  by (auto simp: wait_child_def log_action_def sup_sleep_def Let_def split: prod.split)

lemma stop_child_time: "sup_clock (stop_child sys i s) \<le> sup_clock s + 25"
proof -
  obtain b s1 where w: "wait_child sys 20 i s = (b, s1)" by fastforce
  have "sup_clock s1 \<le> sup_clock s + 20" using wait_child_time [of 20 sys i s] w by simp
  moreover have "sup_clock (snd (wait_child sys 5 i (log_action a s1))) \<le> sup_clock s1 + 5" for a
    using wait_child_time [of 5 sys i "log_action a s1"] by (simp add: log_action_def)
  ultimately show ?thesis using w by (cases b) (simp_all add: stop_child_def, smt (verit))
qed

lemma terminate_all_time [simp]: "sup_clock (terminate_all is s) = sup_clock s"
  by (induction "is" arbitrary: s) (simp_all add: log_action_def)

lemma stop_all_time: "sup_clock (stop_all sys is s) \<le> sup_clock s + 25 * real (length is)"
proof (induction "is" arbitrary: s)
  case (Cons i "is")
  show ?case using Cons.IH [of "stop_child sys i s"] stop_child_time [of sys i s] by simp
qed simp

lemma shutdown_time: "sup_clock (shutdown sys s) \<le> sup_clock s + 25 * real (length (children s))"
  using stop_all_time [of sys "indices s" "terminate_all (indices s) s"] by (simp add: shutdown_def indices_def)

end
