(* ===== verification/Freshness.thy ===== *)
theory Freshness
  imports Heartbeat Iso
begin

section \<open>The freshness report (\<^verbatim>\<open>freshet/eval/freshness.py\<close>)\<close>

text \<open>
  Staleness of the index against the provider's timestamps and against a modelled hourly batch.
  Seconds are reals, rounding is a parameter. The report is a list of named numbers. The
  theorems: a batch wait lies in \<open>(0, interval]\<close> and ends on a boundary; the mean over all
  alignments is half the interval plus half a step whatever the arrivals, so it cannot be gamed by
  them; a report without a measurement carries no number.
\<close>

definition BATCH_INTERVAL_S :: real where
  "BATCH_INTERVAL_S = 3600"

definition ALIGNMENT_COUNT :: nat where
  "ALIGNMENT_COUNT = 3600"

subsection \<open>Staleness\<close>

definition percentile :: "real list \<Rightarrow> real \<Rightarrow> real res" where
  "percentile values p =
     (if values = [] then Inl ValueError
      else let vals = sort values; n = int (length vals);
               k = max 0 (min (n - 1) (\<lceil>p / 100 * real_of_int n\<rceil> - 1))
        in Inr (vals ! nat k))"

definition streaming_staleness :: "real \<Rightarrow> real \<Rightarrow> real" where
  "streaming_staleness posted_at queryable_at = queryable_at - posted_at"

text \<open>\<^verbatim>\<open>x % d\<close> of floats, for a positive \<open>d\<close>.\<close>

definition fmod :: "real \<Rightarrow> real \<Rightarrow> real" where
  "fmod x d = x - d * real_of_int \<lfloor>x / d\<rfloor>"

definition batch_staleness :: "real \<Rightarrow> real \<Rightarrow> real \<Rightarrow> real" where
  "batch_staleness posted_at interval phase = interval - fmod (posted_at - phase) interval"

definition mean :: "real list \<Rightarrow> real" where
  "mean xs = sum_list xs / real (length xs)"

definition batch_alignment_sweep :: "real list \<Rightarrow> real \<Rightarrow> nat \<Rightarrow> real list" where
  "batch_alignment_sweep posted_ats interval n_alignments =
     (if posted_ats = [] then []
      else let step = interval / real n_alignments
        in map (\<lambda>k. mean (map (\<lambda>p. batch_staleness p interval (real k * step)) posted_ats)) [0..<n_alignments])"

subsection \<open>The report\<close>

text \<open>A value of the report: a number or a text.\<close>

datatype entry = Number real | Words string

type_synonym report = "(string \<times> entry) list"

definition round2 :: "(nat \<Rightarrow> real \<Rightarrow> real) \<Rightarrow> real \<Rightarrow> entry" where
  "round2 rnd x = Number (rnd 2 x)"

definition summarize :: "(nat \<Rightarrow> real \<Rightarrow> real) \<Rightarrow> real list \<Rightarrow> real list \<Rightarrow> real \<Rightarrow> report res" where
  "summarize rnd streaming posted_ats interval =
     (if streaming = [] then Inr [(''streaming_mean_s'', Number 0), (''batch_mean_s'', Number 0), (''ratio'', Number 0), (''n'', Number 0)]
      else let s_mean = mean streaming;
               sweep = batch_alignment_sweep posted_ats interval ALIGNMENT_COUNT;
               ratio = (\<lambda>b. if s_mean = 0 then Number 0 else round2 rnd (b / s_mean));
               r2 = round2 rnd
        in if sweep = [] then Inl (OtherError ''ZeroDivisionError'')
           else and_then (percentile sweep 50) (\<lambda>b_median.
             and_then (percentile streaming 50) (\<lambda>p50.
             and_then (percentile streaming 95) (\<lambda>p95.
             let b_mean = mean sweep; b_min = Min (set sweep); b_max = Max (set sweep); b_top = hd sweep in
             Inr [(''streaming_mean_s'', r2 s_mean), (''streaming_p50_s'', r2 p50), (''streaming_p95_s'', r2 p95),
                  (''batch_mean_s'', r2 b_mean), (''batch_mean_s_min'', r2 b_min), (''batch_mean_s_median'', r2 b_median),
                  (''batch_mean_s_max'', r2 b_max), (''batch_mean_s_top_of_hour'', r2 b_top),
                  (''batch_interval_s'', Number interval), (''ratio'', ratio b_mean), (''ratio_min'', ratio b_min),
                  (''ratio_median'', ratio b_median), (''ratio_max'', ratio b_max), (''ratio_top_of_hour'', ratio b_top),
                  (''n'', Number (real (length streaming)))]))))"

text \<open>\<^verbatim>\<open>seen.setdefault(event_id, ..)\<close>: the first row of every event, in the order of first appearance.\<close>

fun first_rows :: "(string \<times> real \<times> real) list \<Rightarrow> (real \<times> real \<times> string) list \<Rightarrow> (string \<times> real \<times> real) list" where
  "first_rows seen [] = seen"
| "first_rows seen ((posted, queryable, i) # rows) =
     first_rows (if map_of seen i = None then seen @ [(i, posted, queryable)] else seen) rows"

definition distinct_updates :: "(real \<times> real \<times> string) list \<Rightarrow> (real \<times> real) list" where
  "distinct_updates rows = map snd (first_rows [] rows)"

definition EMPTY_RUN_KEYS :: "string list" where
  "EMPTY_RUN_KEYS = [''streaming_mean_s'', ''streaming_p50_s'', ''streaming_p95_s'', ''batch_mean_s'', ''batch_mean_s_min'',
     ''batch_mean_s_median'', ''batch_mean_s_max'', ''batch_mean_s_top_of_hour'', ''ratio'', ''ratio_min'', ''ratio_median'',
     ''ratio_max'', ''ratio_top_of_hour'', ''n_rows'']"

definition put :: "string \<Rightarrow> entry \<Rightarrow> report \<Rightarrow> report" where
  "put k v r = upsert fst (k, v) (\<lambda>kv. (k, v)) r"

definition scored :: "report \<Rightarrow> bool" where
  "scored r \<longleftrightarrow> (case map_of r ''n'' of Some (Number x) \<Rightarrow> 0 < x | _ \<Rightarrow> False)"

definition finalize_report :: "report \<Rightarrow> report" where
  "finalize_report r =
     (if scored r then r
      else filter (\<lambda>kv. fst kv \<notin> set EMPTY_RUN_KEYS)
        (put ''explanation'' (Words ''No eligible first-index completion receipts in the selected window. Run the poller, stream and embedder together for several hours, then re-run.'')
          (put ''status'' (Words ''not yet measured'') r)))"

text \<open>The rows scored by default: chunks joined with the receipt of their event, both stamps within the current run.\<close>

definition epoch :: "time \<Rightarrow> real" where
  "epoch t = total_seconds t"

definition run_rows :: "time \<Rightarrow> database \<Rightarrow> (real \<times> real \<times> string) list" where
  "run_rows start d = concat (map (\<lambda>v.
     case row_of r_event (v_event v) (event_indexing d) of
       None \<Rightarrow> []
     | Some i \<Rightarrow>
         (case first_queryable_at i of
            None \<Rightarrow> []
          | Some q \<Rightarrow> if start \<le> v_ts v \<and> start \<le> q then [(epoch (v_ts v), epoch q, v_event v)] else []))
     (vector_records d))"

text \<open>The rows of the last minutes, when a window is given.\<close>

definition window_rows :: "real \<Rightarrow> time \<Rightarrow> database \<Rightarrow> (real \<times> real \<times> string) list" where
  "window_rows mins now d = concat (map (\<lambda>v.
     case row_of r_event (v_event v) (event_indexing d) of
       None \<Rightarrow> []
     | Some i \<Rightarrow>
         (case first_queryable_at i of
            None \<Rightarrow> []
          | Some q \<Rightarrow> if epoch now - mins * 60 \<le> epoch (v_ts v) then [(epoch (v_ts v), epoch q, v_event v)] else []))
     (vector_records d))"

definition scored_rows :: "real option \<Rightarrow> time \<Rightarrow> database \<Rightarrow> (real \<times> real \<times> string) list" where
  "scored_rows since_minutes now d =
     (case since_minutes of
        Some mins \<Rightarrow> window_rows mins now d
      | None \<Rightarrow> (case continuous_run_start ''embedder'' GAP_TOLERANCE_S now d of
                  None \<Rightarrow> [] | Some start \<Rightarrow> run_rows start d))"

definition freshness_report :: "(nat \<Rightarrow> real \<Rightarrow> real) \<Rightarrow> real option \<Rightarrow> time \<Rightarrow> database \<Rightarrow> report res" where
  "freshness_report rnd since_minutes now d =
     (let rows = scored_rows since_minutes now d; updates = distinct_updates rows in
      and_then (summarize rnd (map (\<lambda>(p, q). streaming_staleness p q) updates) (map fst updates) BATCH_INTERVAL_S) (\<lambda>r.
      Inr (finalize_report (put ''measurement_version'' (Number 2) (put ''n_rows'' (Number (real (length rows))) r)))))"

text \<open>\<^verbatim>\<open>index_snapshot\<close>: how current the index is.\<close>

record index_snapshot =
  sn_measured_at :: string
  sn_events :: nat
  sn_posted_24h :: nat
  sn_indexed_24h :: nat
  sn_newest_ts :: "string option"
  sn_newest_age :: "real option"
  sn_newest_indexed :: "string option"

definition events_where :: "(vector_row \<Rightarrow> bool) \<Rightarrow> database \<Rightarrow> nat" where
  "events_where p d = length (remdups (map v_event (filter p (vector_records d))))"

definition latest_of :: "time list \<Rightarrow> time option" where
  "latest_of ts = (if ts = [] then None else Some (Max (set ts)))"

definition snapshot_index :: "(nat \<Rightarrow> real \<Rightarrow> real) \<Rightarrow> time \<Rightarrow> database \<Rightarrow> index_snapshot" where
  "snapshot_index rnd now d =
     (let newest = latest_of (map v_ts (vector_records d)) in
      \<lparr>sn_measured_at = isoformat now,
       sn_events = events_where (\<lambda>v. True) d,
       sn_posted_24h = events_where (\<lambda>v. now - hours 24 \<le> v_ts v) d,
       sn_indexed_24h = events_where (\<lambda>v. now - hours 24 \<le> v_indexed_at v) d,
       sn_newest_ts = map_option isoformat newest,
       sn_newest_age = map_option (\<lambda>t. rnd 2 (total_seconds (now - t))) newest,
       sn_newest_indexed = map_option isoformat (latest_of (map v_indexed_at (vector_records d)))\<rparr>)"

subsection \<open>Waiting for the next boundary\<close>

lemma fmod_bounds: "0 < d \<Longrightarrow> 0 \<le> fmod x d \<and> fmod x d < d"
proof -
  assume d: "0 < d"
  have "d * (x / d) < d * (real_of_int \<lfloor>x / d\<rfloor> + 1)" by (rule mult_strict_left_mono) (linarith, rule d)
  moreover have "d * real_of_int \<lfloor>x / d\<rfloor> \<le> d * (x / d)" by (rule mult_left_mono) (use d in linarith)+
  ultimately show ?thesis using d by (simp add: fmod_def algebra_simps)
qed

text \<open>The batch arm: an update waits more than nothing and at most one interval, until a boundary of the batch;
  the boundary before it lies at or before the posting (so one posted exactly on a boundary waits in full).\<close>

theorem batch_wait_ends_at_the_next_boundary:
  assumes "0 < interval"
  shows "let w = batch_staleness posted interval phase in
     0 < w \<and> w \<le> interval \<and> (\<exists>k :: int. posted + w = phase + real_of_int (k + 1) * interval
        \<and> phase + real_of_int k * interval \<le> posted)"
proof -
  define k where "k = \<lfloor>(posted - phase) / interval\<rfloor>"
  have f: "fmod (posted - phase) interval = posted - phase - interval * real_of_int k" by (simp add: fmod_def k_def)
  have "posted + batch_staleness posted interval phase = phase + real_of_int (k + 1) * interval"
    by (simp add: batch_staleness_def f algebra_simps)
  moreover have "phase + real_of_int k * interval \<le> posted"
    using fmod_bounds [OF assms, of "posted - phase"] by (simp add: f algebra_simps)
  moreover have "0 < batch_staleness posted interval phase \<and> batch_staleness posted interval phase \<le> interval"
    using fmod_bounds [OF assms, of "posted - phase"] by (simp add: batch_staleness_def)
  ultimately show ?thesis by (auto simp: Let_def)
qed

theorem batch_wait_ends_at_the_next_boundary_witness:
  "batch_staleness 7200 3600 0 = 3600 \<and> batch_staleness 7199 3600 0 \<le> 3600"
proof -
  have "\<lfloor>(7199 :: real) / 3600\<rfloor> = 1" by (simp add: floor_eq_iff)
  then show ?thesis
    using batch_wait_ends_at_the_next_boundary [of 3600 7199 0] by (simp add: batch_staleness_def fmod_def Let_def)
qed

subsection \<open>The sweep over all alignments\<close>

lemma sum_residues: "0 < n \<Longrightarrow> (\<Sum>k < n. (m - int k) mod int n) = (\<Sum>j < n. int j)"
proof -
  assume n: "0 < n"
  let ?f = "\<lambda>k. nat ((m - int k) mod int n)"
  have inj: "inj_on ?f {..<n}"
  proof (rule inj_onI)
    fix k l assume kl: "k \<in> {..<n}" "l \<in> {..<n}" "?f k = ?f l"
    then have "(m - int k) mod int n = (m - int l) mod int n" using n by (simp add: nat_eq_iff)
    then have "(m - (m - int k)) mod int n = (m - (m - int l)) mod int n" by (metis mod_diff_right_eq)
    then show "k = l" using kl by simp
  qed
  have "?f ` {..<n} \<subseteq> {..<n}" using n by (auto simp: nat_less_iff)
  from endo_inj_surj [OF finite_lessThan this inj] have "?f ` {..<n} = {..<n}" .
  then have "(\<Sum>j < n. int j) = (\<Sum>j \<in> ?f ` {..<n}. int j)" by simp
  also have "\<dots> = (\<Sum>k < n. int (?f k))" using inj by (simp add: sum.reindex)
  also have "\<dots> = (\<Sum>k < n. (m - int k) mod int n)" using n by simp
  finally show ?thesis by simp
qed

lemma fmod_grid:
  assumes "0 < step" and "0 < n" and "0 \<le> r" and "r < step"
  shows "fmod (real_of_int a * step + r) (real n * step) = real_of_int (a mod int n) * step + r"
proof -
  have "(real_of_int a * step + r) / (real n * step) = (real_of_int a + r / step) / real n"
    using assms by (simp add: field_simps)
  moreover have "\<lfloor>(real_of_int a + r / step) / real n\<rfloor> = a div int n"
  proof -
    obtain q where q: "q = r / step" by blast
    have rs: "0 \<le> q" "q < 1" using assms by (simp_all add: q divide_less_eq)
    have split: "real_of_int a = real n * real_of_int (a div int n) + real_of_int (a mod int n)"
      by (metis of_int_add of_int_mult of_int_of_nat_eq mult_div_mod_eq)
    have "a mod int n \<le> int n - 1" using assms(2) pos_mod_bound [of "int n" a] by simp
    then have up: "real_of_int (a mod int n) \<le> real n - 1" by linarith
    have "0 \<le> real_of_int (a mod int n)" using assms(2) by simp
    with split up rs assms(2) show ?thesis unfolding q [symmetric]
      by (intro floor_unique) (simp_all add: le_divide_eq divide_less_eq algebra_simps)
  qed
  moreover have "real_of_int a - real n * real_of_int (a div int n) = real_of_int (a mod int n)"
    by (metis minus_div_mult_eq_mod mult.commute of_int_diff of_int_mult of_int_of_nat_eq)
  then have "real_of_int (a mod int n) * step = real_of_int a * step - real n * real_of_int (a div int n) * step"
    by (metis left_diff_distrib)
  ultimately show ?thesis by (simp add: fmod_def algebra_simps)
qed

text \<open>One update over all alignments: half the interval and half a step, less its offset within a step.\<close>

lemma sweep_of_one:
  assumes "0 < interval" and "0 < n"
  defines "step \<equiv> interval / real n"
  shows "(\<Sum>k < n. batch_staleness p interval (real k * step)) = real n * (interval / 2 + step / 2 - fmod p step)"
proof -
  have step: "0 < step" and I: "interval = real n * step" using assms by (simp_all add: step_def)
  define a where "a = \<lfloor>p / step\<rfloor>"
  define r where "r = fmod p step"
  have r: "0 \<le> r" "r < step" using fmod_bounds [OF step] by (simp_all add: r_def)
  have p: "p = real_of_int a * step + r" by (simp add: r_def a_def fmod_def)
  have one: "batch_staleness p interval (real k * step) = interval - real_of_int ((a - int k) mod int n) * step - r" for k
  proof -
    have "p - real k * step = real_of_int (a - int k) * step + r" by (simp add: p algebra_simps)
    with fmod_grid [OF step assms(2) r, of "a - int k"] show ?thesis by (simp add: batch_staleness_def I)
  qed
  have "(\<Sum>k < n. real_of_int ((a - int k) mod int n)) = real_of_int (\<Sum>k < n. (a - int k) mod int n)" by simp
  also have "\<dots> = real_of_int (\<Sum>j < n. int j)" using sum_residues [OF assms(2), of a] by simp
  also have "\<dots> = real n * (real n - 1) / 2"
    by (induction n) (simp_all add: field_simps)
  finally have "(\<Sum>k < n. batch_staleness p interval (real k * step)) = real n * interval - real n * (real n - 1) / 2 * step - real n * r"
    by (simp add: one sum_subtractf sum_distrib_right [symmetric])
  then show ?thesis by (simp add: I r_def algebra_simps add_divide_distrib diff_divide_distrib)
qed

lemma sum_mean: "sum_list (map (\<lambda>k. mean (map (\<lambda>p. f p k) ps)) ks) = mean (map (\<lambda>p. sum_list (map (f p) ks)) ps)"
proof -
  have "(\<Sum>k\<leftarrow>ks. \<Sum>p\<leftarrow>ps. f p k) = (\<Sum>p\<leftarrow>ps. \<Sum>k\<leftarrow>ks. f p k)"
    by (induction ks) (simp_all add: sum_list_addf)
  moreover have "(\<Sum>k\<leftarrow>ks. (\<Sum>p\<leftarrow>ps. f p k) / real (length ps)) = (\<Sum>k\<leftarrow>ks. \<Sum>p\<leftarrow>ps. f p k) / real (length ps)"
    by (induction ks) (simp_all add: add_divide_distrib)
  ultimately show ?thesis by (simp add: mean_def)
qed

lemma mean_bounds: "ps \<noteq> [] \<Longrightarrow> (\<And>p. p \<in> set ps \<Longrightarrow> l < f p \<and> f p \<le> u) \<Longrightarrow> l < mean (map f ps) \<and> mean (map f ps) \<le> u"
proof -
  assume ne: "ps \<noteq> []" and b: "\<And>p. p \<in> set ps \<Longrightarrow> l < f p \<and> f p \<le> u"
  have "(\<And>p. p \<in> set ps \<Longrightarrow> l < f p \<and> f p \<le> u) \<Longrightarrow> ps \<noteq> [] \<Longrightarrow>
      l * real (length ps) < sum_list (map f ps) \<and> sum_list (map f ps) \<le> u * real (length ps)"
  proof (induction ps)
    case (Cons p ps)
    then show ?case by (cases "ps = []") (force simp: algebra_simps)+
  qed simp
  with ne b show ?thesis by (simp add: mean_def less_divide_eq divide_le_eq)
qed

text \<open>C40. The swept batch figure cannot be gamed by the arrivals: whenever anything was posted, its mean over the
  alignments lies within half a step (half a second) of half the interval, whatever the posting times.\<close>

theorem swept_mean_is_half_the_interval:
  assumes "posted \<noteq> []" and "0 < interval" and "0 < n"
  shows "let m = mean (batch_alignment_sweep posted interval n); step = interval / real n in
     interval / 2 - step / 2 < m \<and> m \<le> interval / 2 + step / 2"
proof -
  define step where "step = interval / real n"
  have step: "0 < step" using assms by (simp add: step_def)
  let ?one = "\<lambda>p. sum_list (map (\<lambda>k. batch_staleness p interval (real k * step)) [0..<n])"
  have one: "?one p = real n * (interval / 2 + step / 2 - fmod p step)" for p
    using sweep_of_one [OF assms(2,3), of p] by (simp add: step_def interv_sum_list_conv_sum_set_nat atLeast0LessThan)
  have "mean (batch_alignment_sweep posted interval n) = mean (map ?one posted) / real n"
    using assms(1) sum_mean [of "\<lambda>p k. batch_staleness p interval (real k * step)" posted "[0..<n]"]
    by (simp add: batch_alignment_sweep_def Let_def step_def mean_def)
  moreover have "real n * (interval / 2 - step / 2) < mean (map ?one posted)
      \<and> mean (map ?one posted) \<le> real n * (interval / 2 + step / 2)"
    using fmod_bounds [OF step] assms(3) by (intro mean_bounds [OF assms(1)]) (simp add: one)
  ultimately show ?thesis
    using assms(3) by (simp add: Let_def step_def [symmetric] less_divide_eq divide_le_eq mult.commute)
qed

theorem swept_mean_is_half_the_interval_witness:
  "let m = mean (batch_alignment_sweep [7200, 7201, 7210] BATCH_INTERVAL_S ALIGNMENT_COUNT) in 1799 < m \<and> m < 1801"
  using swept_mean_is_half_the_interval [of "[7200, 7201, 7210]" BATCH_INTERVAL_S ALIGNMENT_COUNT]
  unfolding Let_def BATCH_INTERVAL_S_def ALIGNMENT_COUNT_def by simp

subsection \<open>Percentiles\<close>

text \<open>Nearest rank: a percentile is one of the values, and at least that share of the values is not above it.\<close>

theorem percentile_is_nearest_rank:
  assumes "values \<noteq> []" and "p \<le> 100"
  shows "\<exists>x. percentile values p = Inr x \<and> x \<in> set values
     \<and> p / 100 * real (length values) \<le> real (length (filter (\<lambda>v. v \<le> x) values))"
proof -
  define n where "n = int (length values)"
  define c where "c = \<lceil>p / 100 * real_of_int n\<rceil>"
  define k where "k = nat (max 0 (min (n - 1) (c - 1)))"
  have n: "0 < n" using assms(1) by (simp add: n_def)
  have "p / 100 * real_of_int n \<le> 1 * real_of_int n" using assms(2) n by (intro mult_right_mono) simp_all
  then have "c \<le> n" by (simp add: c_def ceiling_le_iff)
  then have c: "c \<le> int k + 1" by (simp add: k_def)
  have "max 0 (min (n - 1) (c - 1)) < n" using n by auto
  then have k: "k < length values" by (simp add: k_def n_def nat_less_iff)
  have val: "percentile values p = Inr (sort values ! k)"
    using assms(1) by (simp add: percentile_def Let_def k_def c_def n_def)
  have "sort values ! k \<in> set values" using nth_mem [of k "sort values"] k by simp
  moreover have "k + 1 \<le> length (filter (\<lambda>v. v \<le> sort values ! k) values)"
  proof -
    have "\<forall>v \<in> set (take (k + 1) (sort values)). v \<le> sort values ! k"
      using k by (auto simp: in_set_conv_nth intro!: sorted_nth_mono)
    then have "filter (\<lambda>v. v \<le> sort values ! k) (take (k + 1) (sort values)) = take (k + 1) (sort values)"
      by (simp add: filter_id_conv)
    then have "k + 1 \<le> length (filter (\<lambda>v. v \<le> sort values ! k) (sort values))"
      using k filter_append [of "\<lambda>v. v \<le> sort values ! k" "take (k + 1) (sort values)" "drop (k + 1) (sort values)"]
      by simp
    then show ?thesis by (simp add: filter_sort)
  qed
  moreover have "p / 100 * real (length values) \<le> real (k + 1)"
  proof -
    have "p / 100 * real_of_int n \<le> real_of_int c" unfolding c_def by (rule le_of_int_ceiling)
    moreover have "real_of_int c \<le> real_of_int (int k + 1)" using c by (simp only: of_int_le_iff)
    ultimately show ?thesis by (simp add: n_def)
  qed
  ultimately show ?thesis using val by force
qed

theorem percentile_is_nearest_rank_witness:
  "\<exists>x. percentile [3, 1, 2, 4] 50 = Inr x \<and> x \<in> {1, 2, 3, 4} \<and> 2 \<le> length (filter (\<lambda>v. v \<le> x) [3, 1, 2, 4])"
  using percentile_is_nearest_rank [of "[3, 1, 2, 4]" 50] by (fastforce simp del: filter.simps)

subsection \<open>Reports without a measurement\<close>

text \<open>An update is scored once, by a row of its own, however many chunks it has.\<close>

lemma first_rows_spec:
  "distinct (map fst seen) \<Longrightarrow>
     distinct (map fst (first_rows seen rows)) \<and> set (map fst (first_rows seen rows)) = set (map fst seen) \<union> (snd \<circ> snd) ` set rows
     \<and> (\<forall>(i, p, q) \<in> set (first_rows seen rows). (i, p, q) \<in> set seen \<or> (p, q, i) \<in> set rows)"
proof (induction seen rows rule: first_rows.induct)
  case (2 seen posted queryable i rows)
  show ?case
  proof (cases "map_of seen i")
    case None
    then have "i \<notin> set (map fst seen)" by (simp add: map_of_eq_None_iff)
    with None 2 show ?thesis by auto
  next
    case (Some x)
    then have "i \<in> set (map fst seen)" by (force dest: map_of_SomeD)
    with Some 2 show ?thesis by auto
  qed
qed auto

lemma distinct_updates_counts_events:
  "length (distinct_updates rows) = card ((snd \<circ> snd) ` set rows)
   \<and> (\<forall>(p, q) \<in> set (distinct_updates rows). \<exists>i. (p, q, i) \<in> set rows)"
proof -
  have s: "distinct (map fst (first_rows [] rows))" "set (map fst (first_rows [] rows)) = (snd \<circ> snd) ` set rows"
      "\<forall>(i, p, q) \<in> set (first_rows [] rows). (p, q, i) \<in> set rows"
    using first_rows_spec [of "[]" rows] by auto
  have "length (distinct_updates rows) = card (set (map fst (first_rows [] rows)))"
    using distinct_card [OF s(1)] by (simp add: distinct_updates_def)
  with s show ?thesis by (fastforce simp: distinct_updates_def)
qed

lemma finalized_keys: "\<not> scored r \<Longrightarrow> k \<in> set EMPTY_RUN_KEYS \<Longrightarrow> map_of (finalize_report r) k = None"
  by (simp add: finalize_report_def map_of_eq_None_iff image_iff)

text \<open>A report is about the scored events: it never fails, counts each of them once, and one without any event carries
  none of the figures of a measurement and says so.\<close>

theorem report_counts_events:
  "\<exists>r. freshness_report rnd since now d = Inr r
     \<and> map_of r ''n'' = Some (Number (real (card ((snd \<circ> snd) ` set (scored_rows since now d)))))
     \<and> (if scored_rows since now d = []
        then filter (\<lambda>kv. fst kv \<in> set EMPTY_RUN_KEYS) r = [] \<and> map_of r ''status'' = Some (Words ''not yet measured'')
        else True)"
proof -
  let ?rows = "scored_rows since now d"
  let ?u = "distinct_updates ?rows"
  have n: "length ?u = card ((snd \<circ> snd) ` set ?rows)" using distinct_updates_counts_events by blast
  show ?thesis
  proof (cases "?u = []")
    case True
    then have "card ((snd \<circ> snd) ` set ?rows) = 0" using n by simp
    then have "?rows = []" by simp
    then show ?thesis
      by (simp add: freshness_report_def summarize_def distinct_updates_def finalize_report_def scored_def put_def
          EMPTY_RUN_KEYS_def Let_def)
  next
    case False
    then have rows: "?rows \<noteq> []" by (auto simp: distinct_updates_def)
    let ?s = "map (\<lambda>(p, q). streaming_staleness p q) ?u"
    have ss: "?s \<noteq> []" and sw: "batch_alignment_sweep (map fst ?u) BATCH_INTERVAL_S ALIGNMENT_COUNT \<noteq> []"
      using False by (simp_all add: batch_alignment_sweep_def ALIGNMENT_COUNT_def Let_def)
    have p: "\<exists>x. percentile xs q = Inr x" if "xs \<noteq> []" for xs q using that by (simp add: percentile_def Let_def)
    obtain a b c where "percentile (batch_alignment_sweep (map fst ?u) BATCH_INTERVAL_S ALIGNMENT_COUNT) 50 = Inr a"
        "percentile ?s 50 = Inr b" "percentile ?s 95 = Inr c"
      using p [OF sw] p [OF ss] by metis
    then obtain r where r: "summarize rnd ?s (map fst ?u) BATCH_INTERVAL_S = Inr r"
        "map_of r ''n'' = Some (Number (real (length ?u)))"
      using ss sw by (simp add: summarize_def Let_def)
    let ?r = "put ''measurement_version'' (Number 2) (put ''n_rows'' (Number (real (length ?rows))) r)"
    have other: "map_of (put k v r') ''n'' = map_of r' ''n''" if "k \<noteq> ''n''" for k v r'
      using that unfolding put_def by (induction r') auto
    have "map_of ?r ''n'' = Some (Number (real (length ?u)))" by (simp add: other r(2))
    moreover from this False have "scored ?r" by (simp add: scored_def)
    ultimately show ?thesis using rows r(1) n by (simp add: freshness_report_def finalize_report_def Let_def)
  qed
qed

end
