(* ===== verification/LiveRetrieval.thy ===== *)
theory LiveRetrieval
  imports Retrieval "HOL-Library.List_Lexorder" "HOL-Library.Char_ord" "HOL-Library.Product_Lexorder"
begin

section \<open>The label-free retrieval evaluation (\<^verbatim>\<open>freshet/eval/live_retrieval.py\<close>)\<close>

text \<open>
  The query is the first update of an incident, the answers are its other updates. Strings are
  ordered by code points and pairs lexicographically, as Python orders them. The four arms reuse the
  model of the search. The theorems: the candidates do not depend on the order of the
  database's rows; a query is never among its own answers, nor credited for finding itself; the
  scores of a ranking are what their names say, and the averages lie between 0 and 1. Rounding
  to three digits is a parameter.
\<close>

definition K :: nat where
  "K = 5"

record candidate =
  cd_incident :: string
  cd_query :: string
  cd_others :: "string list"

text \<open>\<^verbatim>\<open>events_by_incident\<close>: the distinct updates, grouped in the order the rows come in; the second argument is a
  row of the query, \<^verbatim>\<open>(incident_id, event_id, ts)\<close>.\<close>

type_synonym grouped = "(string \<times> (string \<times> time) list) list"

definition add_update :: "grouped \<Rightarrow> string \<times> string \<times> time \<Rightarrow> grouped" where
  "add_update g row = (case row of (i, e, t) \<Rightarrow> upsert fst (i, [(e, t)]) (\<lambda>kv. (fst kv, snd kv @ [(e, t)])) g)"

definition group_rows :: "(string \<times> string \<times> time) list \<Rightarrow> grouped" where
  "group_rows rows = foldl add_update [] rows"

definition update_rows_of :: "database \<Rightarrow> (string \<times> string \<times> time) list" where
  "update_rows_of d =
     remdups (concat (map (\<lambda>v. case v_incident v of None \<Rightarrow> [] | Some i \<Rightarrow> [(i, v_event v, v_ts v)]) (vector_records d)))"

definition events_by_incident :: "database \<Rightarrow> grouped" where
  "events_by_incident d = group_rows (update_rows_of d)"

text \<open>\<^verbatim>\<open>eligible_candidates\<close>; the set of the other updates is given in increasing order.\<close>

definition candidate_of :: "string \<Rightarrow> (string \<times> time) list \<Rightarrow> candidate list" where
  "candidate_of i ups =
     (let ids = set (map fst ups) in
      if card ids < 2 then []
      else let q = snd (Min (set (map (\<lambda>(e, t). (t, e)) ups)))
        in [\<lparr>cd_incident = i, cd_query = q, cd_others = sorted_list_of_set (ids - {q})\<rparr>])"

definition updates_of :: "grouped \<Rightarrow> string \<Rightarrow> (string \<times> time) list" where
  "updates_of g i = (case map_of g i of None \<Rightarrow> [] | Some us \<Rightarrow> us)"

definition eligible_candidates :: "grouped \<Rightarrow> candidate list" where
  "eligible_candidates g =
     concat (map (\<lambda>i. candidate_of i (updates_of g i)) (sort (map fst g)))"

definition capped :: "nat option \<Rightarrow> candidate list \<Rightarrow> candidate list" where
  "capped cap cs = (case cap of None \<Rightarrow> cs | Some n \<Rightarrow> take n cs)"

fun first_seen :: "string list \<Rightarrow> string option \<Rightarrow> string list \<Rightarrow> string list" where
  "first_seen seen exclude [] = seen"
| "first_seen seen exclude (e # es) =
     first_seen (if Some e \<noteq> exclude \<and> e \<notin> set seen then seen @ [e] else seen) exclude es"

definition dedupe_events :: "string list \<Rightarrow> string option \<Rightarrow> string list" where
  "dedupe_events es exclude = first_seen [] exclude es"

record scores =
  hit_at_k :: bool
  mrr :: real
  top1_cite :: bool

fun rank_of :: "nat \<Rightarrow> string list \<Rightarrow> string list \<Rightarrow> nat option" where
  "rank_of i causes [] = None"
| "rank_of i causes (e # es) = (if e \<in> set causes then Some (Suc i) else rank_of (Suc i) causes es)"

definition score_one :: "string list \<Rightarrow> string list \<Rightarrow> nat \<Rightarrow> scores" where
  "score_one ranked causes k =
     (let rank = rank_of 0 causes ranked in
      \<lparr>hit_at_k = (case rank of None \<Rightarrow> False | Some r \<Rightarrow> r \<le> k),
       mrr = (case rank of None \<Rightarrow> 0 | Some r \<Rightarrow> 1 / real r),
       top1_cite = (ranked \<noteq> [] \<and> hd ranked \<in> set causes)\<rparr>)"

record arm_scores =
  recall_at_5 :: real
  mean_mrr :: real
  mean_top1 :: real
  n_scored :: nat

definition average :: "real list \<Rightarrow> real" where
  "average xs = sum_list xs / real (length xs)"

definition aggregate :: "(nat \<Rightarrow> real \<Rightarrow> real) \<Rightarrow> scores list \<Rightarrow> arm_scores" where
  "aggregate rnd records =
     (if records = [] then \<lparr>recall_at_5 = 0, mean_mrr = 0, mean_top1 = 0, n_scored = 0\<rparr>
      else \<lparr>recall_at_5 = rnd 3 (average (map (\<lambda>r. of_bool (hit_at_k r)) records)),
            mean_mrr = rnd 3 (average (map mrr records)),
            mean_top1 = rnd 3 (average (map (\<lambda>r. of_bool (top1_cite r)) records)),
            n_scored = length records\<rparr>)"

text \<open>\<^verbatim>\<open>blind_recent\<close>: the latest row of every event, in the order of the ids, then newest first; \<^verbatim>\<open>reverse\<close> keeps the
  order of equal stamps.\<close>

definition latest_ts :: "string \<Rightarrow> database \<Rightarrow> time" where
  "latest_ts e d = Max (set (map v_ts (filter (\<lambda>v. v_event v = e) (vector_records d))))"

definition blind_recent :: "nat \<Rightarrow> database \<Rightarrow> string list" where
  "blind_recent k d = take k (sort_key (\<lambda>e. - latest_ts e d) (sort (remdups (map v_event (vector_records d)))))"

text \<open>The chunks of an event in order, joined by blanks.\<close>

definition event_text :: "string \<Rightarrow> database \<Rightarrow> string" where
  "event_text e d = join '' '' (map v_text (sort_key chunk_index (filter (\<lambda>v. v_event v = e) (vector_records d))))"

text \<open>One arm alone. Its query is that of the search with a limit of \<open>k\<close>, at most the arm's own.\<close>

datatype arm = VectorArm | KeywordArm

definition arm_rows :: "arm \<Rightarrow> search_engine \<Rightarrow> real list \<Rightarrow> string \<Rightarrow> string option \<Rightarrow> database \<Rightarrow> arm_row list" where
  "arm_rows a eng qvec question exclude d =
     (case a of
        VectorArm \<Rightarrow> vector_arm eng qvec None (where_clause None None exclude) d
      | KeywordArm \<Rightarrow> keyword_arm eng qvec None question (where_clause None None exclude) d)"

definition single_arm ::
  "search_engine \<Rightarrow> 'e embedder \<Rightarrow> string \<Rightarrow> arm \<Rightarrow> nat \<Rightarrow> string option \<Rightarrow> ('e world, string list) call" where
  "single_arm eng emb question a k exclude w =
     (case call_service (encode_query emb) [question] w of
        (Inl e, w1) \<Rightarrow> (Inl e, w1)
      | (Inr [qvec], w1) \<Rightarrow>
          (Inr (dedupe_events (map (v_event \<circ> fst) (take k (arm_rows a eng qvec question exclude (db w1)))) None), w1)
      | (Inr other, w1) \<Rightarrow> (Inl ValueError, w1))"

subsection \<open>The run\<close>

record arms =
  hybrid :: "scores list"
  vector_only :: "scores list"
  keyword_only :: "scores list"
  blind :: "scores list"

definition run_candidate ::
  "search_engine \<Rightarrow> 'e embedder \<Rightarrow> string list \<Rightarrow> candidate \<Rightarrow> arms \<Rightarrow> ('e world, arms) call" where
  "run_candidate eng emb blind_ranking c a w =
     (let q = event_text (cd_query c) (db w); causes = cd_others c; x = Some (cd_query c) in
      case hybrid_search eng emb q (K + 1) None None None x w of
        (Inl e, w1) \<Rightarrow> (Inl e, w1)
      | (Inr r, w1) \<Rightarrow>
          (case single_arm eng emb q VectorArm (K + 1) x w1 of
             (Inl e, w2) \<Rightarrow> (Inl e, w2)
           | (Inr v, w2) \<Rightarrow>
               (case single_arm eng emb q KeywordArm (K + 1) x w2 of
                  (Inl e, w3) \<Rightarrow> (Inl e, w3)
                | (Inr kw, w3) \<Rightarrow>
                    (Inr \<lparr>hybrid = hybrid a @ [score_one (dedupe_events (map event_id (hits r)) x) causes K],
                          vector_only = vector_only a @ [score_one v causes K],
                          keyword_only = keyword_only a @ [score_one kw causes K],
                          blind = blind a @ [score_one blind_ranking causes K]\<rparr>, w3))))"

fun run_candidates ::
  "search_engine \<Rightarrow> 'e embedder \<Rightarrow> string list \<Rightarrow> candidate list \<Rightarrow> arms \<Rightarrow> ('e world, arms) call" where
  "run_candidates eng emb blind_ranking [] a w = (Inr a, w)"
| "run_candidates eng emb blind_ranking (c # cs) a w =
     (case run_candidate eng emb blind_ranking c a w of
        (Inl e, w1) \<Rightarrow> (Inl e, w1)
      | (Inr a1, w1) \<Rightarrow> run_candidates eng emb blind_ranking cs a1 w1)"

record evaluation =
  ev_arms :: "arm_scores list"
  ev_queries :: nat
  ev_eligible :: nat
  ev_gap :: real
  ev_meaningful :: bool

definition live_eval :: "(nat \<Rightarrow> real \<Rightarrow> real) \<Rightarrow> search_engine \<Rightarrow> 'e embedder \<Rightarrow> nat option \<Rightarrow> ('e world, evaluation) call" where
  "live_eval rnd eng emb cap w =
     (let eligible = eligible_candidates (events_by_incident (db w));
          cs = capped cap eligible
      in case run_candidates eng emb (blind_recent K (db w)) cs \<lparr>hybrid = [], vector_only = [], keyword_only = [], blind = []\<rparr> w of
           (Inl e, w1) \<Rightarrow> (Inl e, w1)
         | (Inr a, w1) \<Rightarrow>
             let scored = map (aggregate rnd) [hybrid a, vector_only a, keyword_only a, blind a];
                 gap = rnd 3 (recall_at_5 (scored ! 0) - recall_at_5 (scored ! 3))
             in (Inr \<lparr>ev_arms = scored, ev_queries = length cs, ev_eligible = length eligible, ev_gap = gap,
                      ev_meaningful = (25 / 100 \<le> gap)\<rparr>, w1))"

subsection \<open>Candidates\<close>

lemma add_update_keys: "fst ` set (add_update g row) = insert (fst row) (fst ` set g)"
  by (cases row) (simp add: add_update_def keys_upsert)

lemma add_update_keyed: "keyed fst g \<Longrightarrow> keyed fst (add_update g row)"
  by (cases row) (simp add: add_update_def keyed_upsert)

lemma add_update_of: "updates_of (add_update g (i, e, t)) j = (if j = i then updates_of g i @ [(e, t)] else updates_of g j)"
  unfolding add_update_def updates_of_def by (induction g) auto

definition group_ok :: "(string \<times> string \<times> time) list \<Rightarrow> grouped \<Rightarrow> bool" where
  "group_ok rows g \<longleftrightarrow> keyed fst g \<and> fst ` set g = fst ` set rows
     \<and> (\<forall>i. set (updates_of g i) = {(e, t). (i, e, t) \<in> set rows})"

lemma group_rows_ok: "group_ok rows (group_rows rows)"
proof (induction rows rule: rev_induct)
  case Nil
  show ?case by (simp add: group_rows_def group_ok_def keyed_def updates_of_def)
next
  case (snoc row rows)
  obtain i e t where row: "row = (i, e, t)" by (metis prod_cases3)
  have step: "group_rows (rows @ [row]) = add_update (group_rows rows) row" by (simp add: group_rows_def)
  have IH: "keyed fst (group_rows rows)" "fst ` set (group_rows rows) = fst ` set rows"
      "\<And>j. set (updates_of (group_rows rows) j) = {(e', t'). (j, e', t') \<in> set rows}"
    using snoc by (auto simp: group_ok_def)
  have "set (updates_of (add_update (group_rows rows) row) j) = {(e', t'). (j, e', t') \<in> set (rows @ [row])}" for j
    unfolding row add_update_of using IH(3) by auto
  then show ?case
    using add_update_keyed [OF IH(1), of row] add_update_keys [of "group_rows rows" row] IH(2)
    unfolding group_ok_def step by simp
qed

lemma candidate_of_set: "set us = set us' \<Longrightarrow> candidate_of i us = candidate_of i us'"
  by (simp add: candidate_of_def)

lemma eligible_of_rows:
  "group_ok rows g \<Longrightarrow> eligible_candidates g =
     concat (map (\<lambda>i. candidate_of i (updates_of g i)) (sorted_list_of_set (fst ` set rows)))"
proof -
  assume g: "group_ok rows g"
  then have "sort (map fst g) = sorted_list_of_set (set (map fst g))"
    using sorted_list_of_set_sort_remdups [of "map fst g"] by (simp add: group_ok_def keyed_def distinct_remdups_id del: set_map)
  with g show ?thesis by (simp add: eligible_candidates_def group_ok_def)
qed

text \<open>The evaluation is deterministic: the candidates, their order, their queries and their answers depend on the
  set of the updates alone, not on the order in which the database returns the rows.\<close>

theorem candidates_do_not_depend_on_row_order:
  assumes "set rows = set rows'"
  shows "eligible_candidates (group_rows rows) = eligible_candidates (group_rows rows')"
proof -
  have "set (updates_of (group_rows rows) i)
      = set (updates_of (group_rows rows') i)" for i
  proof -
    have "set (updates_of (group_rows rows) i) = {(e, t). (i, e, t) \<in> set rows}"
      and "set (updates_of (group_rows rows') i) = {(e, t). (i, e, t) \<in> set rows'}"
      using group_rows_ok [of rows] group_rows_ok [of rows'] unfolding group_ok_def by simp_all
    with assms show ?thesis by simp
  qed
  from candidate_of_set [OF this] show ?thesis
    by (simp add: eligible_of_rows [OF group_rows_ok] assms)
qed

theorem candidates_do_not_depend_on_row_order_witness:
  "let rows = [(''x'', ''b'', 2), (''x'', ''a'', 1), (''y'', ''c'', 0)] in
     eligible_candidates (group_rows rows) = eligible_candidates (group_rows (rev rows))"
  unfolding Let_def by (rule candidates_do_not_depend_on_row_order) (simp only: set_rev)

text \<open>A candidate has an answer, is not one of its own, and is the earliest update of its incident.\<close>

definition candidate_ok :: "(string \<times> string \<times> time) list \<Rightarrow> candidate \<Rightarrow> bool" where
  "candidate_ok rows c \<longleftrightarrow> cd_others c \<noteq> [] \<and> cd_query c \<notin> set (cd_others c) \<and> distinct (cd_others c)
     \<and> (\<exists>t. (cd_incident c, cd_query c, t) \<in> set rows
          \<and> (\<forall>(i, e, t') \<in> set rows. i = cd_incident c \<longrightarrow> t \<le> t'))
     \<and> set (cd_others c) = {e. \<exists>t. (cd_incident c, e, t) \<in> set rows} - {cd_query c}"

lemma candidate_of_ok:
  assumes "c \<in> set (candidate_of i us)" and "set us = {(e, t). (i, e, t) \<in> set rows}"
  shows "candidate_ok rows c"
proof -
  let ?ids = "set (map fst us)"
  let ?pairs = "set (map (\<lambda>(e, t). (t, e)) us)"
  obtain t q where m: "Min ?pairs = (t, q)" by fastforce
  have two: "2 \<le> card ?ids" and c: "c = \<lparr>cd_incident = i, cd_query = q, cd_others = sorted_list_of_set (?ids - {q})\<rparr>"
    using assms(1) m by (auto simp: candidate_of_def Let_def split: if_splits)
  then have "us \<noteq> []" by auto
  then have "Min ?pairs \<in> ?pairs" by (intro Min_in) simp_all
  then have q: "(q, t) \<in> set us" unfolding m by auto
  have t: "t \<le> t'" if "(e, t') \<in> set us" for e t'
  proof -
    have "(t', e) \<in> ?pairs" using that by force
    from Min_le [OF _ this] have "(t, q) \<le> (t', e)" unfolding m by simp
    then show ?thesis by (auto simp: less_eq_prod_def)
  qed
  have "?ids - {q} \<noteq> {}"
  proof
    assume "?ids - {q} = {}"
    then have "?ids \<subseteq> {q}" by blast
    then have "card ?ids \<le> 1" using card_mono [of "{q}" ?ids] by simp
    with two show False by simp
  qed
  moreover define os where "os = sorted_list_of_set (?ids - {q})"
  ultimately have os: "set os = ?ids - {q}" "distinct os" "os \<noteq> []"
    by (simp_all add: sorted_list_of_set_eq_Nil_iff)
  have ids: "?ids = {e. \<exists>t. (i, e, t) \<in> set rows}" using assms(2) by force
  have early: "\<forall>(i', e, t') \<in> set rows. i' = i \<longrightarrow> t \<le> t'" using t assms(2) by auto
  have c': "c = \<lparr>cd_incident = i, cd_query = q, cd_others = os\<rparr>" by (simp add: c os_def)
  have "(i, q, t) \<in> set rows" using q assms(2) by auto
  then show ?thesis
    using os early ids unfolding c' candidate_ok_def candidate.simps by blast
qed

lemma eligible_ok: "list_all (candidate_ok rows) (eligible_candidates (group_rows rows))"
proof -
  have "set (updates_of (group_rows rows) i) = {(e, t). (i, e, t) \<in> set rows}" for i
    using group_rows_ok [of rows] unfolding group_ok_def by blast
  from candidate_of_ok [OF _ this] show ?thesis by (auto simp: eligible_candidates_def list_all_iff)
qed

subsection \<open>Scores\<close>

lemma rank_of_spec:
  "rank_of i causes es = (case find (\<lambda>j. es ! j \<in> set causes) [0..<length es] of None \<Rightarrow> None | Some j \<Rightarrow> Some (Suc (i + j)))"
proof (induction i causes es rule: rank_of.induct)
  case (2 i causes e es)
  have up: "[0..<length (e # es)] = 0 # map Suc [0..<length es]" by (simp add: map_Suc_upt upt_conv_Cons del: upt_Suc)
  have "find (\<lambda>j. (e # es) ! j \<in> set causes) (map Suc js) = map_option Suc (find (\<lambda>j. es ! j \<in> set causes) js)" for js
    by (induction js) simp_all
  with 2 show ?case unfolding up by (auto split: option.splits)
qed simp

lemma rank_of_SomeD:
  "rank_of 0 causes es = Some r \<Longrightarrow>
     0 < r \<and> r \<le> length es \<and> es ! (r - 1) \<in> set causes \<and> (\<forall>j < r - 1. es ! j \<notin> set causes)"
  by (auto simp: rank_of_spec find_Some_iff split: option.splits)

lemma rank_of_None: "rank_of i causes es = None \<longleftrightarrow> set es \<inter> set causes = {}"
  by (induction i causes es rule: rank_of.induct) auto

lemma first_seen_spec:
  "distinct seen \<Longrightarrow> distinct (first_seen seen x es) \<and> set (first_seen seen x es) = set seen \<union> {e \<in> set es. Some e \<noteq> x}"
  by (induction seen x es rule: first_seen.induct) auto

text \<open>The scores of a query are what they say: an event counts once, the query's own never; a hit is an
  answer among the first \<open>k\<close> events; the reciprocal rank is that of the first answer, between 0 and 1, and 1
  exactly when the first event is an answer, which is a hit.\<close>

theorem scores_are_exact:
  "let ranked = dedupe_events es (Some q); s = score_one ranked causes (Suc k) in
     distinct ranked \<and> q \<notin> set ranked
     \<and> hit_at_k s = (set (take (Suc k) ranked) \<inter> set causes \<noteq> {})
     \<and> 0 \<le> mrr s \<and> mrr s \<le> 1 \<and> (mrr s = 0 \<longleftrightarrow> set ranked \<inter> set causes = {})
     \<and> (mrr s = 1 \<longleftrightarrow> top1_cite s) \<and> (if top1_cite s then hit_at_k s else True)"
proof -
  define ranked where "ranked = dedupe_events es (Some q)"
  have d: "distinct ranked \<and> q \<notin> set ranked"
    using first_seen_spec [of "[]" "Some q" es] by (simp add: ranked_def dedupe_events_def)
  define s where "s = score_one ranked causes (Suc k)"
  have rest: "hit_at_k s = (set (take (Suc k) ranked) \<inter> set causes \<noteq> {})
     \<and> 0 \<le> mrr s \<and> mrr s \<le> 1 \<and> (mrr s = 0 \<longleftrightarrow> set ranked \<inter> set causes = {})
     \<and> (mrr s = 1 \<longleftrightarrow> top1_cite s) \<and> (top1_cite s \<longrightarrow> hit_at_k s)"
  proof (cases "rank_of 0 causes ranked")
    case None
    then have n: "set ranked \<inter> set causes = {}" by (simp add: rank_of_None)
    have "hd ranked \<notin> set causes" if "ranked \<noteq> []" using n hd_in_set [OF that] by blast
    moreover have "set (take (Suc k) ranked) \<inter> set causes = {}" using n set_take_subset [of "Suc k" ranked] by blast
    ultimately show ?thesis using None n by (auto simp: s_def score_one_def)
  next
    case (Some r)
    then have r: "0 < r" "r \<le> length ranked" "ranked ! (r - 1) \<in> set causes" "\<forall>j < r - 1. ranked ! j \<notin> set causes"
      using rank_of_SomeD by blast+
    have "r \<le> Suc k \<longleftrightarrow> set (take (Suc k) ranked) \<inter> set causes \<noteq> {}"
    proof
      assume "r \<le> Suc k"
      then have "ranked ! (r - 1) \<in> set (take (Suc k) ranked)"
        using r by (auto simp: in_set_conv_nth intro!: exI [of _ "r - 1"])
      with r(3) show "set (take (Suc k) ranked) \<inter> set causes \<noteq> {}" by blast
    next
      assume "set (take (Suc k) ranked) \<inter> set causes \<noteq> {}"
      then obtain x where "x \<in> set (take (Suc k) ranked)" "x \<in> set causes" by blast
      then obtain j where "j < Suc k" "j < length ranked" "ranked ! j \<in> set causes"
        by (auto simp: in_set_conv_nth [of x])
      with r(4) have "\<not> j < r - 1" by blast
      with \<open>j < Suc k\<close> show "r \<le> Suc k" by simp
    qed
    moreover have "ranked \<noteq> []" using r by auto
    then have "hd ranked \<in> set causes \<longleftrightarrow> r = 1"
      using r by (cases "r = 1") (auto simp: hd_conv_nth)
    moreover have "ranked ! (r - 1) \<in> set ranked" using r by (intro nth_mem) simp
    then have "set ranked \<inter> set causes \<noteq> {}" using r(3) by blast
    ultimately show ?thesis using Some r(1) by (auto simp: s_def score_one_def divide_simps)
  qed
  show ?thesis using d rest unfolding ranked_def [symmetric] s_def [symmetric] Let_def by auto
qed

end
