(* ===== verification/DemoTrigger.thy ===== *)
theory DemoTrigger
  imports Delivery Replay Timestamps
begin

section \<open>Firing a lifecycle event on demand (\<^verbatim>\<open>freshet/autopilot/demo_trigger.py\<close>)\<close>

text \<open>
  The candidates' query (one per mode), the reset of an incident that is shown again, and the
  events the tool publishes. The state is the world and the producer; the JSON printer, the
  broker's reports and the collation of the database are parameters. The property joins the tool
  with the autopilot: a fired incident ends up with its brief owed.
\<close>

datatype demo_mode = Opening | Repeating | Progressing | Resolving

record demo_pick =
  pick_incident :: string
  pick_service :: string
  pick_title :: string
  pick_updates :: nat
  pick_cause :: bool

subsection \<open>The candidates\<close>

text \<open>\<^verbatim>\<open>LEFT JOIN incidents\<close>, and the two conditions the modes replace.\<close>

definition joined :: "incident list \<Rightarrow> vector_row \<Rightarrow> incident option" where
  "joined t v = Option.bind (v_incident v) (\<lambda>i. row_of inc_id i t)"

definition mode_allows :: "demo_mode \<Rightarrow> incident option \<Rightarrow> bool" where
  "mode_allows mode io =
     (case mode of
        Repeating \<Rightarrow> True
      | Opening \<Rightarrow> Option.bind io brief_delivered_at = None \<and> Option.bind io resolved_at = None
      | _ \<Rightarrow> Option.bind io brief_delivered_at \<noteq> None \<and> Option.bind io resolved_at = None)"

definition candidate_row :: "demo_mode \<Rightarrow> string option \<Rightarrow> time \<Rightarrow> database \<Rightarrow> vector_row \<Rightarrow> bool" where
  "candidate_row mode service now d v \<longleftrightarrow>
     v_incident v \<noteq> None \<and> v_title v \<noteq> None \<and> now - hours 24 < v_ts v \<and> mode_allows mode (joined (incidents d) v)
     \<and> (service = None \<or> service = Some (v_service v))"

definition states_a_cause :: "string \<Rightarrow> bool" where
  "states_a_cause body \<longleftrightarrow>
     list_ex (\<lambda>p. contains p (lower body)) [''caused by'', ''root cause'', ''due to'']"

definition reads_resolved :: "string \<Rightarrow> bool" where
  "reads_resolved body \<longleftrightarrow>
     list_ex (\<lambda>p. contains p (lower body))
       [''resolved'', ''recovered'', ''operational now'', ''returned to normal'', ''fix has been implemented'',
        ''fully processed'']"

definition group_of :: "vector_row \<Rightarrow> string \<times> string" where
  "group_of v = (the (v_incident v), v_service v)"

definition last_by :: "('a \<Rightarrow> 'k::linorder) \<Rightarrow> 'a list \<Rightarrow> 'a" where
  "last_by f xs = last (sort_key f xs)"

definition pick_of_group :: "search_engine \<Rightarrow> vector_row list \<Rightarrow> demo_pick" where
  "pick_of_group eng vs =
     \<lparr>pick_incident = fst (group_of (hd vs)), pick_service = snd (group_of (hd vs)),
      pick_title = last_by (collation eng) (map (the \<circ> v_title) vs),
      pick_updates = length (remdups (map v_event vs)), pick_cause = list_ex (states_a_cause \<circ> v_text) vs\<rparr>"

definition newest_ts :: "vector_row list \<Rightarrow> time" where
  "newest_ts vs = last_by (\<lambda>t. t) (map v_ts vs)"

definition groups_of :: "vector_row list \<Rightarrow> vector_row list list" where
  "groups_of vs = map (\<lambda>g. filter (\<lambda>v. group_of v = g) vs) (remdups (map group_of vs))"

definition worth_showing :: "vector_row list \<Rightarrow> bool" where
  "worth_showing vs \<longleftrightarrow> 2 \<le> length (remdups (map v_event vs)) \<and> list_all (\<lambda>v. \<not> reads_resolved (v_text v)) vs"

text \<open>\<^verbatim>\<open>ORDER BY states_cause DESC, count DESC, max(ts) DESC\<close>, as three stable sorts from the last key to the first.\<close>

definition show_order :: "search_engine \<Rightarrow> vector_row list list \<Rightarrow> vector_row list list" where
  "show_order eng gs =
     sort_key (\<lambda>vs. \<not> pick_cause (pick_of_group eng vs))
       (sort_key (\<lambda>vs. - int (pick_updates (pick_of_group eng vs))) (sort_key (\<lambda>vs. - newest_ts vs) gs))"

definition candidates ::
  "search_engine \<Rightarrow> demo_mode \<Rightarrow> string option \<Rightarrow> nat \<Rightarrow> time \<Rightarrow> database \<Rightarrow> demo_pick list" where
  "candidates eng mode service limit now d =
     map (pick_of_group eng) (take limit (show_order eng
       (filter worth_showing (groups_of (filter (candidate_row mode service now d) (vector_records d))))))"

subsection \<open>Firing\<close>

definition lifecycle_of :: "string \<Rightarrow> demo_pick \<Rightarrow> time \<Rightarrow> lifecycle_event" where
  "lifecycle_of kind pick t =
     \<lparr>le_type = kind, le_incident = pick_incident pick, le_service = pick_service pick, le_ts = isoformat_z t,
      le_title = pick_title pick\<rparr>"

definition reset_row :: "time \<Rightarrow> time option \<Rightarrow> incident \<Rightarrow> incident" where
  "reset_row now as_of r = r\<lparr>opened_at := now, brief_as_of := as_of, resolved_at := None, resolution_summary := None,
     briefed_at := None, brief_delivered_at := None, brief_due_at := None, postmortem_at := None,
     postmortem_delivered_at := None, progress_at := None, progress_delivered_at := None, progress_needed := False,
     postmortem_needed := False, slack_ts := None, slack_channel_id := None\<rparr>"

definition earliest_ts :: "string \<Rightarrow> database \<Rightarrow> time option" where
  "earliest_ts i d =
     (case map v_ts (filter (\<lambda>v. v_incident v = Some i) (vector_records d)) of [] \<Rightarrow> None | t # later \<Rightarrow> Some (foldl min t later))"

definition reset_demo :: "time \<Rightarrow> string \<Rightarrow> database \<Rightarrow> database" where
  "reset_demo now i d = d\<lparr>incidents := update_rows (\<lambda>r. inc_id r = i) (reset_row now (earliest_ts i d)) (incidents d)\<rparr>"

type_synonym 'e rehearsal = "'e world \<times> producer"

definition publish :: "(json \<Rightarrow> string) \<Rightarrow> reports \<Rightarrow> lifecycle_event \<Rightarrow> ('e rehearsal, unit) call" where
  "publish dumps report ev s =
     (case produce_sync report LIFECYCLE_TOPIC (dumps (json_of_event ev)) (Some (le_incident ev)) (snd s) of (r, p) \<Rightarrow> (r, (fst s, p)))"

definition fire :: "(json \<Rightarrow> string) \<Rightarrow> reports \<Rightarrow> bool \<Rightarrow> demo_pick \<Rightarrow> ('e rehearsal, unit) call" where
  "fire dumps report repeat pick s =
     (let w = fst s; now = clock w; i = pick_incident pick;
          d1 = (if repeat then reset_demo now i (db w) else db w);
          d2 = ensure_incident (Some i) (pick_service pick) now (pick_title pick) d1
      in publish dumps report (lifecycle_of ''opened'' pick now) (w\<lparr>db := d2\<rparr>, snd s))"

definition resolve :: "(json \<Rightarrow> string) \<Rightarrow> reports \<Rightarrow> demo_pick \<Rightarrow> ('e rehearsal, unit) call" where
  "resolve dumps report pick s = publish dumps report (lifecycle_of ''resolved'' pick (clock (fst s))) s"

definition progress :: "(json \<Rightarrow> string) \<Rightarrow> reports \<Rightarrow> demo_pick \<Rightarrow> ('e rehearsal, unit) call" where
  "progress dumps report pick s = publish dumps report (lifecycle_of ''in_progress'' pick (clock (fst s))) s"

fun fire_all :: "(demo_pick \<Rightarrow> ('e rehearsal, unit) call) \<Rightarrow> demo_pick list \<Rightarrow> ('e rehearsal, unit) call" where
  "fire_all one [] s = (Inr (), s)"
| "fire_all one (p # ps) s =
     (case one p s of (Inl e, s1) \<Rightarrow> (Inl e, s1) | (Inr u, s1) \<Rightarrow> fire_all one ps s1)"

text \<open>\<^verbatim>\<open>picks[:count]\<close>, which drops from the end when the count is negative.\<close>

definition first_picks :: "int \<Rightarrow> 'a list \<Rightarrow> 'a list" where
  "first_picks count ps = (if count < 0 then take (length ps - nat (- count)) ps else take (nat count) ps)"

definition demo_main ::
  "search_engine \<Rightarrow> (json \<Rightarrow> string) \<Rightarrow> reports \<Rightarrow> demo_mode \<Rightarrow> string option \<Rightarrow> int \<Rightarrow> bool \<Rightarrow> ('e rehearsal, unit) call" where
  "demo_main eng dumps report mode service count showing s =
     (let picks = candidates eng mode service (nat (max count 5)) (clock (fst s)) (db (fst s)) in
      if picks = [] then (Inl (OtherError ''SystemExit''), s)
      else if showing then (Inr (), s)
      else case fire_all (case mode of Resolving \<Rightarrow> resolve dumps report | Progressing \<Rightarrow> progress dumps report
               | _ \<Rightarrow> fire dumps report (mode = Repeating)) (first_picks count picks) s of
             (Inl e, s1) \<Rightarrow> (Inl e, s1)
           | (Inr u, s1) \<Rightarrow> (Inr (), (fst s1, flush_all report (snd s1))))"

subsection \<open>What a candidate is\<close>

lemma groups_of_group: "vs \<in> set (groups_of rs) \<Longrightarrow> \<exists>g. vs = filter (\<lambda>v. group_of v = g) rs \<and> vs \<noteq> []"
  by (auto simp: groups_of_def filter_empty_conv)

lemma candidates_spec:
  assumes "p \<in> set (candidates eng mode service limit now d)"
  shows "\<exists>vs. p = pick_of_group eng vs \<and> vs \<noteq> [] \<and> worth_showing vs
    \<and> (\<forall>v \<in> set vs. v \<in> set (vector_records d) \<and> candidate_row mode service now d v
         \<and> v_incident v = Some (pick_incident p) \<and> v_service v = pick_service p)"
proof -
  let ?rs = "filter (candidate_row mode service now d) (vector_records d)"
  from assms obtain vs where p: "p = pick_of_group eng vs" and "vs \<in> set (show_order eng (filter worth_showing (groups_of ?rs)))"
    by (auto simp: candidates_def dest: in_set_takeD)
  then have w: "worth_showing vs" and "vs \<in> set (groups_of ?rs)" by (auto simp: show_order_def)
  from groups_of_group [OF this(2)] obtain g where vs: "vs = filter (\<lambda>v. group_of v = g) ?rs" "vs \<noteq> []" by blast
  have "group_of v = g" if "v \<in> set vs" for v using that unfolding vs(1) by simp
  from this [OF hd_in_set [OF vs(2)]] have "group_of (hd vs) = g" .
  then have g: "g = (pick_incident p, pick_service p)" by (simp add: p pick_of_group_def)
  have "\<forall>v \<in> set vs. v \<in> set (vector_records d) \<and> candidate_row mode service now d v
      \<and> v_incident v = Some (pick_incident p) \<and> v_service v = pick_service p"
    using vs(1) by (auto simp: g group_of_def candidate_row_def)
  with p w vs(2) show ?thesis by blast
qed


subsection \<open>A fired incident gets its brief\<close>

lemma publish_cases:
  assumes "publish dumps report ev s = (r, s')"
  shows "fst s' = fst s \<and> (r = Inr () \<longrightarrow>
    \<lparr>d_topic = LIFECYCLE_TOPIC, d_value = dumps (json_of_event ev), d_key = Some (le_incident ev)\<rparr> \<in> set (acked (snd s')))"
  using assms
  by (auto simp: publish_def produce_sync_def serve_one_def Let_def split: prod.splits if_splits option.splits)

lemma event_ts_of_fired:
  "MIN_TIME \<le> t \<Longrightarrow> t \<le> MAX_TIME \<Longrightarrow> event_ts now (lifecycle_of kind pick t) = t"
  using replaced_timestamp [of t] by (simp add: event_ts_def lifecycle_of_def as_utc_def)

lemma reset_row_facts [simp]: "inc_id (reset_row now as_of r) = inc_id r" "brief_delivered_at (reset_row now as_of r) = None"
  by (simp_all add: reset_row_def)

lemma fire_result:
  assumes "fire dumps report again pick s = (r, s')" and "pick_incident pick \<noteq> []" and "keyed inc_id (incidents (db (fst s)))"
  shows "clock (fst s') = clock (fst s) \<and> keyed inc_id (incidents (db (fst s')))
    \<and> (\<exists>q. row_of inc_id (pick_incident pick) (incidents (db (fst s'))) = Some q \<and> (again \<longrightarrow> brief_delivered_at q = None))
    \<and> (r = Inr () \<longrightarrow> \<lparr>d_topic = LIFECYCLE_TOPIC,
         d_value = dumps (json_of_event (lifecycle_of ''opened'' pick (clock (fst s)))), d_key = Some (pick_incident pick)\<rparr> \<in> set (acked (snd s')))"
proof -
  let ?i = "pick_incident pick" and ?now = "clock (fst s)"
  define d1 where "d1 = (if again then reset_demo ?now ?i (db (fst s)) else db (fst s))"
  define d2 where "d2 = ensure_incident (Some ?i) (pick_service pick) ?now (pick_title pick) d1"
  from assms(1) have p: "publish dumps report (lifecycle_of ''opened'' pick ?now) ((fst s)\<lparr>db := d2\<rparr>, snd s) = (r, s')"
    by (simp add: fire_def Let_def d1_def d2_def)
  note pub = publish_cases [OF p]
  have k1: "keyed inc_id (incidents d1)"
    using assms(3) by (simp add: d1_def reset_demo_def keyed_update_rows)
  have t2: "incidents d2 = ensure_incident_rows ?i (pick_service pick) ?now (pick_title pick) (incidents d1)"
    using assms(2) by (simp add: d2_def ensure_incident_def)
  have "brief_delivered_at q = None" if "row_of inc_id ?i (incidents d1) = Some q" again for q
    using that by (auto simp: d1_def reset_demo_def row_of_update_rows split: if_splits dest!: row_of_SomeD)
      (metis reset_row_facts(2))
  then have "\<exists>q. row_of inc_id ?i (incidents d2) = Some q \<and> (again \<longrightarrow> brief_delivered_at q = None)"
    by (auto simp: t2 row_of_ensure new_incident_def refresh_incident_def split: option.split)
  with pub k1 show ?thesis by (simp add: t2 keyed_ensure lifecycle_of_def)
qed

text \<open>C17. The tool and the autopilot agree: once \<^verbatim>\<open>fire\<close> has returned, its event has been acknowledged on the lifecycle
  topic, and the autopilot that handles it within 24 hours, whatever other work has moved the table in between, takes
  it as current and leaves the incident with its brief owed or delivered.\<close>

theorem fired_incident_gets_its_brief:
  assumes "fire dumps report again pick s = (Inr (), s')" and "pick_incident pick \<noteq> []"
    and "MIN_TIME \<le> clock (fst s)" and "clock (fst s) \<le> MAX_TIME"
    and "total_seconds (clock w - clock (fst s)) \<le> MAX_BRIEF_AGE_S"
    and "handle_lifecycle ap window (Inr (json_of_event (lifecycle_of ''opened'' pick (clock (fst s))))) w = (r, w')"
  shows "\<lparr>d_topic = LIFECYCLE_TOPIC,
        d_value = dumps (json_of_event (lifecycle_of ''opened'' pick (clock (fst s)))), d_key = Some (pick_incident pick)\<rparr> \<in> set (acked (snd s'))
    \<and> r = Inr ()
    \<and> (\<exists>q. row_of inc_id (pick_incident pick) (incidents (db w')) = Some q
         \<and> owed_or_done (brief_due_at q \<noteq> None) (brief_delivered_at q))"
proof -
  let ?ev = "lifecycle_of ''opened'' pick (clock (fst s))"
  have "publish dumps report ?ev ((fst s)\<lparr>db := ensure_incident (Some (pick_incident pick)) (pick_service pick)
      (clock (fst s)) (pick_title pick) (if again then reset_demo (clock (fst s)) (pick_incident pick) (db (fst s))
        else db (fst s))\<rparr>, snd s) = (Inr (), s')"
    using assms(1) by (simp add: fire_def Let_def)
  then have acked: "\<lparr>d_topic = LIFECYCLE_TOPIC, d_value = dumps (json_of_event ?ev), d_key = Some (le_incident ?ev)\<rparr> \<in> set (acked (snd s'))"
    using publish_cases by blast
  have "\<not> MAX_BRIEF_AGE_S < total_seconds (clock w - event_ts (clock w) ?ev)"
    using assms(3-5) by (simp add: event_ts_of_fired)
  moreover have "le_type ?ev = ''opened''" by (simp add: lifecycle_of_def)
  ultimately have "r = Inr ()" and "w' = ensure_and_schedule window ?ev w"
    using assms(6) by (auto simp: handle_lifecycle_def event_roundtrip handle_event_def handle_opened_def)
  with scheduled_row [of ?ev window w] assms(2) acked show ?thesis by (simp add: lifecycle_of_def)
qed


definition shown_pick :: demo_pick where
  "shown_pick = \<lparr>pick_incident = ''i'', pick_service = ''api'', pick_title = ''t'', pick_updates = 2, pick_cause = False\<rparr>"

theorem fired_incident_gets_its_brief_witness:
  "\<exists>q. row_of inc_id ''i'' (incidents (db (snd (handle_lifecycle (autopilot_with toy_engine demo_client 1 1 None stdout_sink) 0
         (Inr (json_of_event (lifecycle_of ''opened'' shown_pick 10))) due_world)))) = Some q
     \<and> owed_or_done (brief_due_at q \<noteq> None) (brief_delivered_at q)"
proof -
  let ?s = "(due_world, new_producer)"
  obtain s' where f: "fire (\<lambda>j. []) (\<lambda>n d. None) False shown_pick ?s = (Inr (), s')"
    by (simp add: fire_def publish_def produce_sync_def Let_def)
  have c: "clock due_world = 10" by (simp add: due_world_def)
  obtain r w' where h: "handle_lifecycle (autopilot_with toy_engine demo_client 1 1 None stdout_sink) 0
      (Inr (json_of_event (lifecycle_of ''opened'' shown_pick (clock (fst ?s))))) due_world = (r, w')" by fastforce
  have "pick_incident shown_pick = ''i''" by (simp add: shown_pick_def)
  with fired_incident_gets_its_brief [OF f _ _ _ _ h] h c show ?thesis
    by (simp add: MIN_TIME_def MAX_TIME_def MAX_BRIEF_AGE_S_def)
qed

end
