(* ===== verification/Stream.thy ===== *)
theory Stream
  imports Poller Embedder Timestamps
begin

section \<open>The stream job (\<^verbatim>\<open>freshet/stream/dedup_job.sql\<close>)\<close>

text \<open>
  The Flink SQL job between the poller's topic and the topics of the embedder and the autopilot: first-row
  deduplication of the updates, a dead letter for every row without a date, and the first row of every
  transition of an incident. Flink is a parameter where it reads and writes columns (\<open>flink\<close>); its keyed state,
  its checkpoints and its at-least-once Kafka sink are modelled: after a crash the job resumes at the last
  checkpoint, and of the records sent since then any part may have reached the topic.
\<close>

subsection \<open>Rows\<close>

text \<open>\<open>fl_text\<close> and \<open>fl_int\<close> read a column from a JSON value that is no string (or no number) already, NULL being
  \<open>None\<close>; \<open>fl_read\<close> and \<open>fl_show\<close> read and write an ISO-8601 \<^verbatim>\<open>TIMESTAMP_LTZ(3)\<close>.\<close>

record flink =
  fl_text :: "json \<Rightarrow> string option"
  fl_int :: "json \<Rightarrow> int option"
  fl_read :: "string \<Rightarrow> time option"
  fl_show :: "time \<Rightarrow> string"

record raw_row =
  rr_v :: "int option"
  rr_provider :: "string option"
  rr_incident :: "string option"
  rr_update :: "string option"
  rr_digest :: "string option"
  rr_created :: "time option"
  rr_status :: "string option"
  rr_text :: "string option"
  rr_name :: "string option"

text \<open>A \<^verbatim>\<open>STRING\<close> column; with \<^verbatim>\<open>json.ignore-parse-errors\<close> a field that cannot be read is NULL and a record that is
  no object is no row.\<close>

definition text_column :: "flink \<Rightarrow> fields \<Rightarrow> string \<Rightarrow> string option" where
  "text_column fl d k =
     (case map_of d k of
        None \<Rightarrow> None
      | Some JNull \<Rightarrow> None
      | Some (JStr s) \<Rightarrow> Some s
      | Some v \<Rightarrow> fl_text fl v)"

definition raw_row_of :: "flink \<Rightarrow> json \<Rightarrow> raw_row option" where
  "raw_row_of fl v =
     (case v of
        JObj d \<Rightarrow> Some
          \<lparr>rr_v = Option.bind (map_of d ''v'') (fl_int fl),
           rr_provider = text_column fl d ''provider'', rr_incident = text_column fl d ''incident_id'',
           rr_update = text_column fl d ''update_id'', rr_digest = text_column fl d ''body_digest'',
           rr_created = Option.bind (text_column fl d ''created_at'') (fl_read fl),
           rr_status = text_column fl d ''status'', rr_text = text_column fl d ''text'',
           rr_name = text_column fl d ''incident_name''\<rparr>
      | _ \<Rightarrow> None)"

text \<open>\<^verbatim>\<open>||\<close>, which is NULL as soon as one operand is.\<close>

definition sql_concat :: "string option list \<Rightarrow> string option" where
  "sql_concat xs = map_option concat (all_some xs)"

subsection \<open>The projections\<close>

type_synonym row_key = "string option \<times> string option \<times> string option \<times> string"
type_synonym change_key = "string option \<times> string option \<times> string"

definition update_key :: "raw_row \<Rightarrow> row_key" where
  "update_key r = (rr_provider r, rr_incident r, rr_update r, case rr_digest r of None \<Rightarrow> [] | Some s \<Rightarrow> s)"

definition transition_key :: "raw_row \<Rightarrow> string \<Rightarrow> change_key" where
  "transition_key r tr = (rr_provider r, rr_incident r, tr)"

definition RESOLVE_STATUSES :: "string list" where
  "RESOLVE_STATUSES = [''resolved'', ''completed'', ''complete'']"

definition TRACKED_STATUSES :: "string list" where
  "TRACKED_STATUSES = [''investigating'', ''identified'', ''monitoring''] @ RESOLVE_STATUSES"

text \<open>The view \<^verbatim>\<open>recent_transitions\<close> on one row, at \<^verbatim>\<open>CURRENT_TIMESTAMP\<close> \<open>now\<close>.\<close>

definition recent_transition :: "time \<Rightarrow> raw_row \<Rightarrow> string option" where
  "recent_transition now r =
     (case (rr_created r, map_option lower (rr_status r)) of
        (Some t, Some s) \<Rightarrow>
          if s \<in> set TRACKED_STATUSES \<and> now - hours 24 < t
          then Some (if s \<in> set RESOLVE_STATUSES then ''resolved''
                     else if s = ''monitoring'' then ''in_progress'' else ''opened'')
          else None
      | _ \<Rightarrow> None)"

text \<open>What a statement emits for a row: the row, and the processing time or the transition.\<close>

datatype emission = Dead time raw_row | Normalized time raw_row | Transition string raw_row

definition event_key :: "raw_row \<Rightarrow> string option" where
  "event_key r = sql_concat [rr_provider r, Some '':'', rr_incident r, Some '':'', rr_update r]"

definition incident_key :: "raw_row \<Rightarrow> string option" where
  "incident_key r = sql_concat [rr_provider r, Some '':'', rr_incident r]"

fun emission_topic :: "emission \<Rightarrow> string" where
  "emission_topic (Dead now r) = ''deadletter.raw''"
| "emission_topic (Normalized now r) = NORMALIZED_TOPIC"
| "emission_topic (Transition tr r) = LIFECYCLE_TOPIC"

text \<open>\<^verbatim>\<open>key.fields\<close> of the two keyed sinks.\<close>

fun emission_key :: "emission \<Rightarrow> string option" where
  "emission_key (Dead now r) = None"
| "emission_key (Normalized now r) = incident_key r"
| "emission_key (Transition tr r) = incident_key r"

fun emission_value :: "flink \<Rightarrow> emission \<Rightarrow> json" where
  "emission_value fl (Dead now r) = JObj
     [(''provider'', opt_json JStr (rr_provider r)), (''incident_id'', opt_json JStr (rr_incident r)),
      (''update_id'', opt_json JStr (rr_update r)), (''incident_name'', opt_json JStr (rr_name r)),
      (''status'', opt_json JStr (rr_status r)), (''text'', opt_json JStr (rr_text r)),
      (''seen_at'', JStr (fl_show fl now))]"
| "emission_value fl (Normalized now r) = JObj
     [(''v'', JInt (case rr_v r of None \<Rightarrow> 1 | Some n \<Rightarrow> n)), (''event_id'', opt_json JStr (event_key r)),
      (''ts'', opt_json (JStr \<circ> fl_show fl) (rr_created r)), (''ingested_at'', JStr (fl_show fl now)),
      (''service'', opt_json JStr (rr_provider r)), (''source'', JStr ''alert''), (''type'', JStr ''status_update''),
      (''incident_id'', opt_json JStr (incident_key r)),
      (''text'', opt_json JStr (sql_concat [rr_name r, Some '': '', rr_text r])),
      (''title'', opt_json JStr (rr_name r))]"
| "emission_value fl (Transition tr r) = JObj
     [(''incident_id'', opt_json JStr (incident_key r)), (''service'', opt_json JStr (rr_provider r)),
      (''type'', JStr tr), (''ts'', opt_json (JStr \<circ> fl_show fl) (rr_created r)),
      (''title'', opt_json JStr (rr_name r))]"

subsection \<open>The job\<close>

text \<open>The state of the two \<^verbatim>\<open>ROW_NUMBER() ... = 1\<close>: the keys that have had their first row.\<close>

record job =
  seen_updates :: "row_key list"
  seen_transitions :: "change_key list"

definition new_job :: job where
  "new_job = \<lparr>seen_updates = [], seen_transitions = []\<rparr>"

definition job_updates :: "time \<Rightarrow> raw_row \<Rightarrow> job \<Rightarrow> emission list \<times> job" where
  "job_updates now r j =
     (if rr_created r = None then ([Dead now r], j)
      else if update_key r \<in> set (seen_updates j) then ([], j)
      else ([Normalized now r], j\<lparr>seen_updates := update_key r # seen_updates j\<rparr>))"

definition job_transitions :: "time \<Rightarrow> raw_row \<Rightarrow> job \<Rightarrow> emission list \<times> job" where
  "job_transitions now r j =
     (case recent_transition now r of
        None \<Rightarrow> ([], j)
      | Some tr \<Rightarrow>
          if transition_key r tr \<in> set (seen_transitions j) then ([], j)
          else ([Transition tr r], j\<lparr>seen_transitions := transition_key r tr # seen_transitions j\<rparr>))"

definition job_row :: "time \<Rightarrow> raw_row \<Rightarrow> job \<Rightarrow> emission list \<times> job" where
  "job_row now r j =
     (case job_updates now r j of (es, j1) \<Rightarrow>
      case job_transitions now r j1 of (es', j2) \<Rightarrow> (es @ es', j2))"

definition job_record :: "flink \<Rightarrow> time \<Rightarrow> json \<Rightarrow> job \<Rightarrow> emission list \<times> job" where
  "job_record fl now v j = (case raw_row_of fl v of None \<Rightarrow> ([], j) | Some r \<Rightarrow> job_row now r j)"

text \<open>A running job: its position in the topic, its state, what has reached the sinks for good, what was sent
  since the last checkpoint, and that checkpoint.\<close>

record running =
  position :: nat
  job :: job
  delivered :: "emission list"
  sent :: "emission list"
  checkpoint :: "nat \<times> job"

datatype happening = Read time | Checkpoint | Crash "bool list"

definition survivors :: "bool list \<Rightarrow> 'a list \<Rightarrow> 'a list" where
  "survivors bs xs = map snd (filter fst (zip bs xs))"

fun happen :: "flink \<Rightarrow> json list \<Rightarrow> happening \<Rightarrow> running \<Rightarrow> running" where
  "happen fl topic (Read now) s =
     (if position s < length topic
      then (case job_record fl now (topic ! position s) (job s) of (es, j) \<Rightarrow>
              s\<lparr>position := position s + 1, job := j, sent := sent s @ es\<rparr>)
      else s)"
| "happen fl topic Checkpoint s =
     s\<lparr>delivered := delivered s @ sent s, sent := [], checkpoint := (position s, job s)\<rparr>"
| "happen fl topic (Crash bs) s =
     s\<lparr>delivered := delivered s @ survivors bs (sent s), sent := [],
       position := fst (checkpoint s), job := snd (checkpoint s)\<rparr>"

definition start_job :: running where
  "start_job = \<lparr>position = 0, job = new_job, delivered = [], sent = [], checkpoint = (0, new_job)\<rparr>"

definition run_job :: "flink \<Rightarrow> json list \<Rightarrow> happening list \<Rightarrow> running" where
  "run_job fl topic hs = fold (happen fl topic) hs start_job"

definition emitted :: "running \<Rightarrow> emission list" where
  "emitted s = delivered s @ sent s"


subsection \<open>Nothing is lost\<close>

text \<open>What the job's state says has been emitted has been, and the rows before a position are accounted for;
  \<open>T\<close> is the set of times at which rows were read.\<close>

definition backed :: "job \<Rightarrow> emission list \<Rightarrow> bool" where
  "backed j es \<longleftrightarrow>
     (\<forall>k \<in> set (seen_updates j). \<exists>now r. Normalized now r \<in> set es \<and> update_key r = k)
   \<and> (\<forall>k \<in> set (seen_transitions j). \<exists>tr r. Transition tr r \<in> set es \<and> transition_key r tr = k)"

definition row_done :: "time set \<Rightarrow> raw_row \<Rightarrow> job \<Rightarrow> emission list \<Rightarrow> bool" where
  "row_done T r j es \<longleftrightarrow>
     (if rr_created r = None then \<exists>now. Dead now r \<in> set es else update_key r \<in> set (seen_updates j))
   \<and> (\<forall>tr. (\<forall>now \<in> T. recent_transition now r = Some tr) \<longrightarrow> transition_key r tr \<in> set (seen_transitions j))"

definition rows_done :: "time set \<Rightarrow> raw_row option list \<Rightarrow> job \<Rightarrow> emission list \<Rightarrow> bool" where
  "rows_done T rs j es \<longleftrightarrow> (\<forall>r. Some r \<in> set rs \<longrightarrow> row_done T r j es)"

definition job_extends :: "job \<Rightarrow> job \<Rightarrow> bool" where
  "job_extends j j' \<longleftrightarrow> set (seen_updates j) \<subseteq> set (seen_updates j')
     \<and> set (seen_transitions j) \<subseteq> set (seen_transitions j')"

lemma backed_mono: "backed j es \<Longrightarrow> set es \<subseteq> set es' \<Longrightarrow> backed j es'"
  unfolding backed_def by blast

lemma row_done_mono:
  "row_done T r j es \<Longrightarrow> job_extends j j' \<Longrightarrow> set es \<subseteq> set es' \<Longrightarrow> row_done T r j' es'"
  unfolding row_done_def job_extends_def by (auto split: if_splits)

lemma rows_done_mono:
  "rows_done T rs j es \<Longrightarrow> job_extends j j' \<Longrightarrow> set es \<subseteq> set es' \<Longrightarrow> rows_done T rs j' es'"
  unfolding rows_done_def using row_done_mono by blast

lemma backed_more:
  "backed j es \<Longrightarrow> backed (j\<lparr>seen_updates := update_key r # seen_updates j\<rparr>) (es @ [Normalized now r])"
  "backed j es \<Longrightarrow> backed (j\<lparr>seen_transitions := transition_key r tr # seen_transitions j\<rparr>) (es @ [Transition tr r])"
  by (simp add: backed_def; blast)+

lemma job_row_step:
  assumes "job_row now r j = (es, j')" and "now \<in> T" and "backed j es0"
  shows "backed j' (es0 @ es)" and "job_extends j j'" and "row_done T r j' (es0 @ es)"
proof -
  obtain e1 j1 where 1: "job_updates now r j = (e1, j1)" by fastforce
  obtain e2 where 2: "job_transitions now r j1 = (e2, j')" and es: "es = e1 @ e2"
    using assms(1) 1 by (auto simp: job_row_def split: prod.splits)
  have u1: "backed j1 (es0 @ e1)"
    using 1 assms(3) backed_more(1) [OF assms(3)] backed_mono [OF assms(3), of "es0 @ [Dead now r]"]
    by (auto simp: job_updates_def split: if_splits)
  have u: "job_extends j j1"
    "if rr_created r = None then \<exists>now. Dead now r \<in> set (es0 @ e1) else update_key r \<in> set (seen_updates j1)"
    using 1 by (auto simp: job_updates_def job_extends_def split: if_splits)
  have "backed j' ((es0 @ e1) @ e2)"
    using 2 u1 backed_more(2) [OF u1] by (auto simp: job_transitions_def split: option.splits if_splits)
  then show "backed j' (es0 @ es)" by (simp add: es)
  have t: "job_extends j1 j'" "seen_updates j' = seen_updates j1"
    "\<And>tr. recent_transition now r = Some tr \<Longrightarrow> transition_key r tr \<in> set (seen_transitions j')"
    using 2 by (auto simp: job_transitions_def job_extends_def split: option.splits if_splits)
  show "job_extends j j'" using u(1) t(1) unfolding job_extends_def by blast
  show "row_done T r j' (es0 @ es)"
    unfolding row_done_def using u(2) t(2) t(3) es assms(2) by auto
qed

definition job_inv :: "flink \<Rightarrow> json list \<Rightarrow> time set \<Rightarrow> running \<Rightarrow> bool" where
  "job_inv fl topic T s \<longleftrightarrow>
     backed (job s) (emitted s) \<and> rows_done T (map (raw_row_of fl) (take (position s) topic)) (job s) (emitted s)
   \<and> backed (snd (checkpoint s)) (delivered s)
   \<and> rows_done T (map (raw_row_of fl) (take (fst (checkpoint s)) topic)) (snd (checkpoint s)) (delivered s)"

lemma start_job_inv: "job_inv fl topic T start_job"
  by (simp add: job_inv_def start_job_def new_job_def backed_def rows_done_def)

lemma job_record_step:
  assumes "job_record fl now v j = (es, j')" and "now \<in> T" and "backed j es0"
    and "rows_done T rs j es0"
  shows "backed j' (es0 @ es)" and "rows_done T (rs @ [raw_row_of fl v]) j' (es0 @ es)"
proof -
  have "backed j' (es0 @ es) \<and> rows_done T (rs @ [raw_row_of fl v]) j' (es0 @ es)"
  proof (cases "raw_row_of fl v")
    case None
    then show ?thesis using assms by (auto simp: job_record_def rows_done_def)
  next
    case (Some r)
    then have "job_row now r j = (es, j')" using assms(1) by (simp add: job_record_def)
    note step = job_row_step [OF this assms(2,3)]
    have "rows_done T rs j' (es0 @ es)" by (rule rows_done_mono [OF assms(4) step(2)]) simp
    with step Some show ?thesis by (auto simp: rows_done_def)
  qed
  then show "backed j' (es0 @ es)" and "rows_done T (rs @ [raw_row_of fl v]) j' (es0 @ es)" by blast+
qed

lemma happen_inv:
  assumes "job_inv fl topic T s" and "\<And>now. h = Read now \<Longrightarrow> now \<in> T"
  shows "job_inv fl topic T (happen fl topic h s)"
proof (cases h)
  case (Read now)
  show ?thesis
  proof (cases "position s < length topic")
    case True
    obtain es j where run: "job_record fl now (topic ! position s) (job s) = (es, j)" by fastforce
    have take: "take (Suc (position s)) topic = take (position s) topic @ [topic ! position s]"
      using True by (simp add: take_Suc_conv_app_nth)
    have old: "backed (job s) (emitted s)"
      "rows_done T (map (raw_row_of fl) (take (position s) topic)) (job s) (emitted s)"
      using assms(1) by (simp_all add: job_inv_def)
    show ?thesis
      using assms(1) Read True run job_record_step [OF run assms(2) [OF Read] old]
      by (simp add: job_inv_def emitted_def take)
  qed (use assms(1) Read in simp)
next
  case Checkpoint
  then show ?thesis using assms(1) by (simp add: job_inv_def emitted_def)
next
  case (Crash bs)
  then show ?thesis
    using assms(1) backed_mono [of "snd (checkpoint s)" "delivered s"]
      rows_done_mono [of T _ "snd (checkpoint s)" "delivered s" "snd (checkpoint s)"]
    by (simp add: job_inv_def emitted_def job_extends_def)
qed

lemma run_job_inv: "(\<And>now. Read now \<in> set hs \<Longrightarrow> now \<in> T) \<Longrightarrow> job_inv fl topic T (run_job fl topic hs)"
  unfolding run_job_def
  by (rule List.fold_invariant [where Q = "\<lambda>h. h \<in> set hs"]) (auto intro: happen_inv start_job_inv)

lemma rows_doneD:
  "rows_done T (map (raw_row_of fl) (take n topic)) j es \<Longrightarrow> i < n \<Longrightarrow> i < length topic \<Longrightarrow>
     raw_row_of fl (topic ! i) = Some r \<Longrightarrow> row_done T r j es"
  unfolding rows_done_def by (metis (no_types, lifting) image_eqI in_set_conv_nth length_take list.set_map min_less_iff_conj nth_take)

text \<open>C6. The stream loses nothing: however reading, checkpoints and crashes follow each other, every row the job
  has read past is accounted for in what it has emitted, and every row before the last checkpoint in what no crash
  can take back. A row without a date has its dead letter, an update has a normalized record of its key, and a
  transition that was recent whenever rows were read has a lifecycle event of its key.\<close>

theorem stream_loses_nothing:
  assumes "s = run_job fl topic hs" and "raw_row_of fl (topic ! i) = Some r" and "i < length topic"
    and "(n, es) \<in> {(position s, emitted s), (fst (checkpoint s), delivered s)}" and "i < n"
  shows "(if rr_created r = None then \<exists>now. Dead now r \<in> set es
          else \<exists>now r'. Normalized now r' \<in> set es \<and> update_key r' = update_key r)
    \<and> ((\<forall>now. Read now \<in> set hs \<longrightarrow> recent_transition now r = Some tr) \<longrightarrow>
        (\<exists>tr' r'. Transition tr' r' \<in> set es \<and> transition_key r' tr' = transition_key r tr))"
proof -
  define T where "T = {now. Read now \<in> set hs}"
  have inv: "job_inv fl topic T s" unfolding assms(1) by (rule run_job_inv) (simp add: T_def)
  obtain j where "backed j es" and "rows_done T (map (raw_row_of fl) (take n topic)) j es"
    using inv assms(4) by (auto simp: job_inv_def)
  from this(1) rows_doneD [OF this(2) assms(5,3,2)] show ?thesis
    by (auto simp: backed_def row_done_def T_def split: if_splits)
qed

subsection \<open>Each once, in order\<close>

definition normalized_keys :: "emission list \<Rightarrow> row_key list" where
  "normalized_keys es = [update_key r. Normalized now r \<leftarrow> es]"

definition transition_keys :: "emission list \<Rightarrow> change_key list" where
  "transition_keys es = [transition_key r tr. Transition tr r \<leftarrow> es]"

definition dead_rows :: "emission list \<Rightarrow> raw_row list" where
  "dead_rows es = [r. Dead now r \<leftarrow> es]"

definition rows_of :: "flink \<Rightarrow> json list \<Rightarrow> raw_row list" where
  "rows_of fl vs = List.map_filter (raw_row_of fl) vs"

definition dated :: "raw_row list \<Rightarrow> raw_row list" where
  "dated rs = filter (\<lambda>r. rr_created r \<noteq> None) rs"

definition undated_rows :: "raw_row list \<Rightarrow> raw_row list" where
  "undated_rows rs = filter (\<lambda>r. rr_created r = None) rs"

definition is_crash :: "happening \<Rightarrow> bool" where
  "is_crash h = (case h of Crash bs \<Rightarrow> True | _ \<Rightarrow> False)"

text \<open>The first occurrence of each element.\<close>

definition firsts :: "'a list \<Rightarrow> 'a list" where
  "firsts xs = rev (remdups (rev xs))"

lemma firsts_snoc [simp]: "firsts (xs @ [x]) = (if x \<in> set xs then firsts xs else firsts xs @ [x])"
  by (simp add: firsts_def)

lemma firsts_facts [simp]: "set (firsts xs) = set xs" "distinct (firsts xs)" "firsts [] = []"
  by (simp_all add: firsts_def)

lemma keys_append [simp]:
  "normalized_keys (a @ b) = normalized_keys a @ normalized_keys b"
  "transition_keys (a @ b) = transition_keys a @ transition_keys b"
  "dead_rows (a @ b) = dead_rows a @ dead_rows b"
  by (simp_all add: normalized_keys_def transition_keys_def dead_rows_def)

definition exact :: "flink \<Rightarrow> json list \<Rightarrow> running \<Rightarrow> bool" where
  "exact fl topic s \<longleftrightarrow>
     (let rs = rows_of fl (take (position s) topic) in
      dead_rows (emitted s) = undated_rows rs
    \<and> normalized_keys (emitted s) = firsts (map update_key (dated rs))
    \<and> set (seen_updates (job s)) = set (normalized_keys (emitted s))
    \<and> set (seen_transitions (job s)) = set (transition_keys (emitted s))
    \<and> distinct (transition_keys (emitted s)))"

lemma job_row_exact:
  assumes "job_row now r j = (es, j')" and "set (seen_updates j) = set us"
    and "set (seen_transitions j) = set trs" and "distinct trs"
  shows "dead_rows es = (if rr_created r = None then [r] else [])"
    and "normalized_keys es = (if rr_created r = None \<or> update_key r \<in> set us then [] else [update_key r])"
    and "set (seen_updates j') = set (us @ normalized_keys es)"
    and "set (seen_transitions j') = set (trs @ transition_keys es)" and "distinct (trs @ transition_keys es)"
  using assms
  by (auto simp: job_row_def job_updates_def job_transitions_def dead_rows_def normalized_keys_def transition_keys_def
      split: if_splits option.splits prod.splits)

lemma happen_exact:
  assumes "exact fl topic s" and "\<not> is_crash h"
  shows "exact fl topic (happen fl topic h s)"
proof (cases h)
  case (Read now)
  show ?thesis
  proof (cases "position s < length topic")
    case True
    obtain es j where run: "job_record fl now (topic ! position s) (job s) = (es, j)" by fastforce
    have take: "take (Suc (position s)) topic = take (position s) topic @ [topic ! position s]"
      using True by (simp add: take_Suc_conv_app_nth)
    show ?thesis
    proof (cases "raw_row_of fl (topic ! position s)")
      case None
      then show ?thesis
        using assms(1) Read True run
        by (simp add: exact_def emitted_def take rows_of_def map_filter_simps map_filter_def job_record_def)
    next
      case (Some r)
      then have "job_row now r (job s) = (es, j)" using run by (simp add: job_record_def)
      moreover have "set (seen_updates (job s)) = set (normalized_keys (emitted s))"
        "set (seen_transitions (job s)) = set (transition_keys (emitted s))" "distinct (transition_keys (emitted s))"
        and old: "dead_rows (emitted s) = undated_rows (rows_of fl (take (position s) topic))"
        "normalized_keys (emitted s) = firsts (map update_key (dated (rows_of fl (take (position s) topic))))"
        using assms(1) by (simp_all add: exact_def Let_def)
      ultimately have step: "dead_rows es = (if rr_created r = None then [r] else [])"
        "normalized_keys es =
           (if rr_created r = None \<or> update_key r \<in> set (normalized_keys (emitted s)) then [] else [update_key r])"
        "set (seen_updates j) = set (normalized_keys (emitted s @ es))"
        "set (seen_transitions j) = set (transition_keys (emitted s @ es))" "distinct (transition_keys (emitted s @ es))"
        using job_row_exact [of now r "job s" es j "normalized_keys (emitted s)" "transition_keys (emitted s)"]
        by simp_all
      have rows: "rows_of fl (take (Suc (position s)) topic) = rows_of fl (take (position s) topic) @ [r]"
        using Some by (simp add: take rows_of_def map_filter_def)
      have new: "happen fl topic h s = s\<lparr>position := Suc (position s), job := j, sent := sent s @ es\<rparr>"
        using Read True run by simp
      have "dead_rows (emitted s @ es) = undated_rows (rows_of fl (take (Suc (position s)) topic))"
        using old(1) step(1) rows by (simp add: undated_rows_def)
      moreover have "normalized_keys (emitted s @ es) =
          firsts (map update_key (dated (rows_of fl (take (Suc (position s)) topic))))"
        using old(2) step(2) rows by (simp add: dated_def)
      ultimately show ?thesis
        using step(3-5) unfolding new exact_def Let_def by (simp add: emitted_def)
    qed
  qed (use assms(1) Read in simp)
qed (use assms in \<open>simp_all add: exact_def emitted_def is_crash_def\<close>)

lemma start_exact: "exact fl topic start_job"
  by (simp add: exact_def start_job_def new_job_def emitted_def Let_def rows_of_def map_filter_def dead_rows_def
      normalized_keys_def transition_keys_def undated_rows_def dated_def)

text \<open>C13. Each update passes once: while the job does not crash, the records it has sent are, in order, one for
  the first row of every update key and one dead letter for every row without a date, and no transition of an
  incident is announced twice.\<close>

theorem each_update_passes_once:
  fixes fl topic hs
  assumes "list_all (\<lambda>h. \<not> is_crash h) hs"
  defines "s \<equiv> run_job fl topic hs"
  defines "rs \<equiv> rows_of fl (take (position s) topic)"
  shows "normalized_keys (emitted s) = firsts (map update_key (dated rs))
    \<and> dead_rows (emitted s) = undated_rows rs
    \<and> distinct (transition_keys (emitted s))"
proof -
  have "exact fl topic s"
    unfolding s_def run_job_def
    by (rule List.fold_invariant [where Q = "\<lambda>h. \<not> is_crash h"])
      (use assms(1) in \<open>simp_all add: list_all_iff happen_exact start_exact\<close>)
  then show ?thesis by (simp add: exact_def rs_def Let_def)
qed


subsection \<open>From the poller to the workers\<close>

definition row_of_update :: "incident_update \<Rightarrow> time \<Rightarrow> raw_row" where
  "row_of_update u t =
     \<lparr>rr_v = Some WIRE_VERSION, rr_provider = Some (iu_provider u), rr_incident = Some (iu_incident u),
      rr_update = Some (iu_update u), rr_digest = Some (iu_body_digest u), rr_created = Some t,
      rr_status = Some (iu_status u), rr_text = Some (iu_text u), rr_name = Some (iu_name u)\<rparr>"

lemma row_of_message:
  assumes "fl_read fl (isoformat_z (iu_created_at u)) = Some t" and "fl_int fl (JInt WIRE_VERSION) = Some WIRE_VERSION"
  shows "raw_row_of fl (to_message u) = Some (row_of_update u t)"
  using assms by (simp add: raw_row_of_def to_message_def text_column_def row_of_update_def)

lemma keys_of_update [simp]:
  "event_key (row_of_update u t) = Some (dedup_key u)" "incident_key (row_of_update u t) = Some (partition_key u)"
  by (simp_all add: event_key_def incident_key_def sql_concat_def row_of_update_def dedup_key_def partition_key_def)

lemma normalized_event:
  assumes "as_int (JInt WIRE_VERSION) = Some WIRE_VERSION"
    and "as_stamp (JStr (fl_show fl t)) = Some (t, Some 0)" and "as_stamp (JStr (fl_show fl now)) = Some (now, Some 0)"
  shows "event_of_wire as_int as_stamp new_id started (emission_value fl (Normalized now (row_of_update u t))) = Inr
        \<lparr>ev_id = dedup_key u, ev_v = WIRE_VERSION, ev_ts = t, ev_ingested_at = Some now, ev_indexed_at = None,
         ev_service = iu_provider u, ev_source = ALERT, ev_type = ''status_update'', ev_severity = None,
         ev_incident = Some (partition_key u), ev_title = Some (iu_name u),
         ev_text = iu_name u @ '': '' @ iu_text u, ev_structured = [], ev_refs = []\<rparr>"
proof -
  have alert: "as_source (JStr ''alert'') = Some ALERT" using as_source_value [of ALERT] by simp
  have pieces: "rr_v (row_of_update u t) = Some WIRE_VERSION" "rr_provider (row_of_update u t) = Some (iu_provider u)"
    "rr_created (row_of_update u t) = Some t" "rr_name (row_of_update u t) = Some (iu_name u)"
    "rr_text (row_of_update u t) = Some (iu_text u)"
    by (simp_all add: row_of_update_def)
  show ?thesis
    using assms
    by (simp add: pieces event_of_wire_def event_of_fields_def req_field_def def_field_def opt_field_def checked_def
        opt_json_def alert sql_concat_def as_utc_def)
qed

lemma transition_event:
  "event_of_json (emission_value fl (Transition tr (row_of_update u t))) = Inr
     \<lparr>le_type = tr, le_incident = partition_key u, le_service = iu_provider u, le_ts = fl_show fl t,
      le_title = iu_name u\<rparr>"
proof -
  have pieces: "rr_provider (row_of_update u t) = Some (iu_provider u)" "rr_created (row_of_update u t) = Some t"
    "rr_name (row_of_update u t) = Some (iu_name u)"
    by (simp_all add: row_of_update_def)
  show ?thesis
    by (simp add: pieces event_of_json_def rename_status_def default_title_def validate_event_def str_field_def
        set_key_def opt_json_def)
qed

text \<open>C16. An update crosses the stream: the row the job reads from the poller's message of an update is written as a
  record that the embedder validates as the event of that update, with its key, its date, its text and a version
  the embedder knows, and as a lifecycle event that the autopilot reads with the same incident; both records carry
  the key of the incident. Flink is assumed to read the date and the version and to write dates that pydantic
  reads.\<close>

theorem updates_cross_the_stream:
  assumes "fl_read fl (isoformat_z (iu_created_at u)) = Some t" and "fl_int fl (JInt WIRE_VERSION) = Some WIRE_VERSION"
    and "as_int (JInt WIRE_VERSION) = Some WIRE_VERSION"
    and "as_stamp (JStr (fl_show fl t)) = Some (t, Some 0)" and "as_stamp (JStr (fl_show fl now)) = Some (now, Some 0)"
  shows "\<exists>r. raw_row_of fl (to_message u) = Some r
    \<and> event_of_wire as_int as_stamp new_id started (emission_value fl (Normalized now r)) = Inr
        \<lparr>ev_id = dedup_key u, ev_v = WIRE_VERSION, ev_ts = t, ev_ingested_at = Some now, ev_indexed_at = None,
         ev_service = iu_provider u, ev_source = ALERT, ev_type = ''status_update'', ev_severity = None,
         ev_incident = Some (partition_key u), ev_title = Some (iu_name u),
         ev_text = iu_name u @ '': '' @ iu_text u, ev_structured = [], ev_refs = []\<rparr>
    \<and> WIRE_VERSION \<in> set KNOWN_WIRE_VERSIONS
    \<and> event_of_json (emission_value fl (Transition tr r)) = Inr
        \<lparr>le_type = tr, le_incident = partition_key u, le_service = iu_provider u, le_ts = fl_show fl t,
         le_title = iu_name u\<rparr>
    \<and> emission_key (Normalized now r) = Some (partition_key u)
    \<and> emission_key (Transition tr r) = Some (partition_key u)"
  using row_of_message [OF assms(1,2)] normalized_event [of as_int as_stamp fl t now, OF assms(3-5)] transition_event
  by (intro exI [of _ "row_of_update u t"]) (simp add: KNOWN_WIRE_VERSIONS_def WIRE_VERSION_def)

subsection \<open>Nothing is invented\<close>

fun emission_row :: "emission \<Rightarrow> raw_row" where
  "emission_row (Dead now r) = r"
| "emission_row (Normalized now r) = r"
| "emission_row (Transition tr r) = r"

definition from_topic :: "flink \<Rightarrow> json list \<Rightarrow> time set \<Rightarrow> emission list \<Rightarrow> bool" where
  "from_topic fl topic T es \<longleftrightarrow>
     (\<forall>e \<in> set es. Some (emission_row e) \<in> raw_row_of fl ` set topic \<and> (\<forall>now r. e = Normalized now r \<longrightarrow> now \<in> T))"

lemma from_topic_append [simp]: "from_topic fl topic T (a @ b) \<longleftrightarrow> from_topic fl topic T a \<and> from_topic fl topic T b"
  unfolding from_topic_def by auto

lemma survivors_sent: "set (survivors bs es) \<subseteq> set es"
  unfolding survivors_def by (auto dest: set_zip_rightD)

lemma job_record_from:
  "job_record fl now v j = (es, j') \<Longrightarrow> v \<in> set topic \<Longrightarrow> now \<in> T \<Longrightarrow> from_topic fl topic T es"
  by (force simp: job_record_def job_row_def job_updates_def job_transitions_def from_topic_def
      split: option.splits prod.splits if_splits)

lemma happen_from:
  assumes "from_topic fl topic T (emitted s)" and "\<And>now. h = Read now \<Longrightarrow> now \<in> T"
  shows "from_topic fl topic T (emitted (happen fl topic h s))"
proof (cases h)
  case (Read now)
  obtain es j where run: "job_record fl now (topic ! position s) (job s) = (es, j)" by fastforce
  with assms Read job_record_from [OF run, of topic T] show ?thesis
    by (cases "position s < length topic") (simp_all add: emitted_def)
next
  case (Crash bs)
  with assms survivors_sent [of bs "sent s"] show ?thesis by (auto simp: emitted_def from_topic_def)
qed (use assms in \<open>simp add: emitted_def\<close>)

lemma run_job_from: "from_topic fl topic {now. Read now \<in> set hs} (emitted (run_job fl topic hs))"
  unfolding run_job_def
  by (rule List.fold_invariant [where Q = "\<lambda>h. h \<in> set hs"])
    (simp, simp add: from_topic_def emitted_def start_job_def, rule happen_from, simp_all)

text \<open>Flink's timestamps are whole milliseconds between the ends of the calendar. What Flink and pydantic are relied
  on for: such a date written by the poller is read, and one written by Flink is read back.\<close>

definition millis :: "time \<Rightarrow> bool" where
  "millis t \<longleftrightarrow> MIN_TIME \<le> t \<and> t \<le> MAX_TIME \<and> 1000 dvd t"

definition dates_pass :: "flink \<Rightarrow> (json \<Rightarrow> (time \<times> time option) option) \<Rightarrow> bool" where
  "dates_pass fl as_stamp \<longleftrightarrow>
     (\<forall>t. millis t \<longrightarrow> fl_read fl (isoformat_z t) = Some t \<and> as_stamp (JStr (fl_show fl t)) = Some (t, Some 0))"

lemma same_update_key:
  "update_key (row_of_update u t) = update_key (row_of_update u' t') \<Longrightarrow>
     dedup_key u = dedup_key u' \<and> partition_key u = partition_key u' \<and> iu_body_digest u = iu_body_digest u'"
  by (simp add: update_key_def row_of_update_def dedup_key_def partition_key_def)

text \<open>Every update reaches the embedder's topic: once the job has read past an update's message, the topic has a
  normalized record with the update's own key and body, which validates, whatever the defaults of the parse, as an
  event with the update's id, and whose date and text are those of a polled update with the same key and body.\<close>

lemma update_reaches_the_embedder:
  assumes "s = run_job fl (map to_message us) hs" and "i < position s" and "i < length us"
    and "dates_pass fl as_stamp" and "fl_int fl (JInt WIRE_VERSION) = Some WIRE_VERSION"
    and "as_int (JInt WIRE_VERSION) = Some WIRE_VERSION"
    and "\<forall>u \<in> set us. millis (iu_created_at u)" and "\<forall>now. Read now \<in> set hs \<longrightarrow> millis now"
  shows "\<exists>now r ev u. Normalized now r \<in> set (emitted s)
    \<and> update_key r = update_key (row_of_update (us ! i) (iu_created_at (us ! i)))
    \<and> (\<forall>new_id started. event_of_wire as_int as_stamp new_id started (emission_value fl (Normalized now r)) = Inr ev)
    \<and> emission_key (Normalized now r) = Some (partition_key (us ! i))
    \<and> ev_id ev = dedup_key (us ! i) \<and> ev_incident ev = Some (partition_key (us ! i))
    \<and> u \<in> set us \<and> iu_body_digest u = iu_body_digest (us ! i) \<and> dedup_key u = dedup_key (us ! i)
    \<and> ev_ts ev = iu_created_at u \<and> ev_text ev = iu_name u @ '': '' @ iu_text u"
proof -
  let ?topic = "map to_message us" and ?row = "\<lambda>u. row_of_update u (iu_created_at u)"
  have reads: "raw_row_of fl (to_message u) = Some (?row u)" if "u \<in> set us" for u
    using assms(4,5,7) that by (intro row_of_message) (simp_all add: dates_pass_def)
  have here: "us ! i \<in> set us" using assms(3) by simp
  have "job_inv fl ?topic {now. Read now \<in> set hs} s" unfolding assms(1) by (rule run_job_inv) simp
  then have backed: "backed (job s) (emitted s)"
    and past: "rows_done {now. Read now \<in> set hs} (map (raw_row_of fl) (take (position s) ?topic)) (job s) (emitted s)"
    by (simp_all add: job_inv_def)
  have "row_done {now. Read now \<in> set hs} (?row (us ! i)) (job s) (emitted s)"
    by (rule rows_doneD [OF past assms(2)]) (use assms(3) reads [OF here] in simp_all)
  then have "update_key (?row (us ! i)) \<in> set (seen_updates (job s))"
    by (simp add: row_done_def row_of_update_def)
  then obtain now r where e: "Normalized now r \<in> set (emitted s)" and key: "update_key r = update_key (?row (us ! i))"
    using backed unfolding backed_def by blast
  have "from_topic fl ?topic {now. Read now \<in> set hs} (emitted s)" unfolding assms(1) by (rule run_job_from)
  with e have "Some r \<in> raw_row_of fl ` set ?topic" and "Read now \<in> set hs"
    unfolding from_topic_def by fastforce+
  then obtain u where u: "u \<in> set us" and r: "r = ?row u" and now: "millis now"
    using reads assms(8) by auto
  have same: "dedup_key u = dedup_key (us ! i)" "partition_key u = partition_key (us ! i)"
    "iu_body_digest u = iu_body_digest (us ! i)"
    using same_update_key [OF key [unfolded r]] by simp_all
  have "\<forall>new_id started. event_of_wire as_int as_stamp new_id started (emission_value fl (Normalized now r)) = Inr
        \<lparr>ev_id = dedup_key u, ev_v = WIRE_VERSION, ev_ts = iu_created_at u, ev_ingested_at = Some now,
         ev_indexed_at = None, ev_service = iu_provider u, ev_source = ALERT, ev_type = ''status_update'',
         ev_severity = None, ev_incident = Some (partition_key u), ev_title = Some (iu_name u),
         ev_text = iu_name u @ '': '' @ iu_text u, ev_structured = [], ev_refs = []\<rparr>"
    unfolding r using assms(4,6,7) u now by (intro allI normalized_event) (simp_all add: dates_pass_def)
  then show ?thesis
    using e u same key unfolding r
    by (intro exI [of _ now] exI [of _ "?row u"] exI [of _ u] exI conjI) (assumption | simp)+
qed

text \<open>And every transition the autopilot's.\<close>

lemma transition_reaches_the_autopilot:
  assumes "s = run_job fl (map to_message us) hs" and "i < position s" and "i < length us"
    and "dates_pass fl as_stamp" and "fl_int fl (JInt WIRE_VERSION) = Some WIRE_VERSION"
    and "\<forall>u \<in> set us. millis (iu_created_at u)"
    and "\<forall>now. Read now \<in> set hs \<longrightarrow>
      recent_transition now (row_of_update (us ! i) (iu_created_at (us ! i))) = Some tr"
  shows "\<exists>u. u \<in> set us \<and> Transition tr (row_of_update u (iu_created_at u)) \<in> set (emitted s)
    \<and> partition_key u = partition_key (us ! i)"
proof -
  let ?topic = "map to_message us" and ?row = "\<lambda>u. row_of_update u (iu_created_at u)"
  have reads: "raw_row_of fl (to_message u) = Some (?row u)" if "u \<in> set us" for u
    using assms(4,5,6) that by (intro row_of_message) (simp_all add: dates_pass_def)
  have here: "us ! i \<in> set us" using assms(3) by simp
  have "job_inv fl ?topic {now. Read now \<in> set hs} s" unfolding assms(1) by (rule run_job_inv) simp
  then have backed: "backed (job s) (emitted s)"
    and past: "rows_done {now. Read now \<in> set hs} (map (raw_row_of fl) (take (position s) ?topic)) (job s) (emitted s)"
    by (simp_all add: job_inv_def)
  have "row_done {now. Read now \<in> set hs} (?row (us ! i)) (job s) (emitted s)"
    by (rule rows_doneD [OF past assms(2)]) (use assms(3) reads [OF here] in simp_all)
  then have "transition_key (?row (us ! i)) tr \<in> set (seen_transitions (job s))"
    using assms(7) by (simp add: row_done_def)
  then obtain tr' r where e: "Transition tr' r \<in> set (emitted s)"
    and key: "transition_key r tr' = transition_key (?row (us ! i)) tr"
    using backed unfolding backed_def by blast
  have "from_topic fl ?topic {now. Read now \<in> set hs} (emitted s)" unfolding assms(1) by (rule run_job_from)
  with e have "Some r \<in> raw_row_of fl ` set ?topic" unfolding from_topic_def by fastforce
  then obtain u where "u \<in> set us" and "r = ?row u" using reads by auto
  with e key show ?thesis by (auto simp: transition_key_def row_of_update_def partition_key_def)
qed

subsection \<open>A run\<close>

definition demo_flink :: flink where
  "demo_flink = \<lparr>fl_text = (\<lambda>v. None), fl_int = (\<lambda>v. case v of JInt n \<Rightarrow> Some n | _ \<Rightarrow> None),
     fl_read = (\<lambda>s. case fromisoformat (replace_z s) of Some (t, Some off) \<Rightarrow> Some (t - off) | _ \<Rightarrow> None),
     fl_show = isoformat_z\<rparr>"

definition demo_incident_update :: "string \<Rightarrow> string \<Rightarrow> incident_update" where
  "demo_incident_update i status =
     \<lparr>iu_provider = ''zoom'', iu_incident = ''x1'', iu_update = i, iu_created_at = 0, iu_status = status,
      iu_text = ''we look'', iu_name = ''Calls fail'', iu_body_digest = ''d''\<rparr>"

lemma demo_flink_reads:
  "fl_read demo_flink (isoformat_z 0) = Some 0" "fl_int demo_flink (JInt WIRE_VERSION) = Some WIRE_VERSION"
  by (simp_all add: demo_flink_def replaced_timestamp MIN_TIME_def MAX_TIME_def)

lemma demo_row:
  "raw_row_of demo_flink (to_message (demo_incident_update i status)) = Some (row_of_update (demo_incident_update i status) 0)"
  by (rule row_of_message) (simp_all add: demo_flink_reads, simp add: demo_incident_update_def demo_flink_reads)

lemma demo_null: "raw_row_of fl JNull = None"
  by (simp add: raw_row_of_def)

lemma demo_keys:
  "update_key (row_of_update (demo_incident_update i status) t) = (Some ''zoom'', Some ''x1'', Some i, ''d'')"
  "transition_key (row_of_update (demo_incident_update i status) t) tr = (Some ''zoom'', Some ''x1'', tr)"
  "rr_created (row_of_update (demo_incident_update i status) t) = Some t"
  by (simp_all add: update_key_def transition_key_def row_of_update_def demo_incident_update_def)

lemma demo_transition:
  "recent_transition 0 (row_of_update (demo_incident_update i ''resolved'') 0) = Some ''resolved''"
  by (simp add: recent_transition_def row_of_update_def demo_incident_update_def TRACKED_STATUSES_def
      RESOLVE_STATUSES_def lower_def lower_char_def is_upper_def in_range_def code_def)

definition demo_topic :: "json list" where
  "demo_topic = [to_message (demo_incident_update ''u1'' ''resolved''), JNull,
     to_message (demo_incident_update ''u1'' ''resolved''), to_message (demo_incident_update ''u2'' ''resolved'')]"

lemmas run_simps = run_job_def start_job_def new_job_def demo_topic_def job_record_def demo_row job_row_def
  job_updates_def job_transitions_def demo_transition demo_keys survivors_def emitted_def demo_null

theorem stream_loses_nothing_witness:
  "\<exists>now r'. Normalized now r' \<in> set (delivered (run_job demo_flink demo_topic
        [Read 0, Crash [True, False], Read 0, Read 0, Read 0, Checkpoint]))
     \<and> update_key r' = (Some ''zoom'', Some ''x1'', Some ''u1'', ''d'')"
proof -
  let ?hs = "[Read 0, Crash [True, False], Read 0, Read 0, Read 0, Checkpoint]"
  have "fst (checkpoint (run_job demo_flink demo_topic ?hs)) = 3"
    by (simp add: run_simps)
  then show ?thesis
    using stream_loses_nothing [OF refl, of demo_flink demo_topic 2 "row_of_update (demo_incident_update ''u1'' ''resolved'') 0"
        "fst (checkpoint (run_job demo_flink demo_topic ?hs))" "delivered (run_job demo_flink demo_topic ?hs)" ?hs
        "''resolved''"]
    by (simp add: demo_topic_def demo_row demo_keys)
qed

theorem each_update_passes_once_witness:
  "normalized_keys (emitted (run_job demo_flink demo_topic [Read 0, Read 0, Checkpoint, Read 0, Read 0]))
   = [(Some ''zoom'', Some ''x1'', Some ''u1'', ''d''), (Some ''zoom'', Some ''x1'', Some ''u2'', ''d'')]"
proof -
  let ?hs = "[Read 0, Read 0, Checkpoint, Read 0, Read 0]"
  have "position (run_job demo_flink demo_topic ?hs) = 4" by (simp add: run_simps)
  then show ?thesis
    using each_update_passes_once [of ?hs demo_flink demo_topic]
    by (simp add: is_crash_def rows_of_def map_filter_def dated_def firsts_def demo_topic_def demo_row demo_keys
        demo_null)
qed

theorem updates_cross_the_stream_witness:
  "\<exists>r ev. raw_row_of demo_flink (to_message (demo_incident_update ''u1'' ''resolved'')) = Some r
    \<and> event_of_wire (\<lambda>v. case v of JInt n \<Rightarrow> Some n | _ \<Rightarrow> None)
        (\<lambda>v. case v of JStr s \<Rightarrow> fromisoformat (replace_z s) | _ \<Rightarrow> None) [] 0
        (emission_value demo_flink (Normalized 0 r)) = Inr ev
    \<and> ev_id ev = ''zoom:x1:u1''"
  using updates_cross_the_stream [of demo_flink "demo_incident_update ''u1'' ''resolved''" 0
      "\<lambda>v. case v of JInt n \<Rightarrow> Some n | _ \<Rightarrow> None" "\<lambda>v. case v of JStr s \<Rightarrow> fromisoformat (replace_z s) | _ \<Rightarrow> None" 0
      "[]" 0 "''resolved''"]
  by (auto simp: demo_flink_reads demo_flink_def demo_incident_update_def dedup_key_def replaced_timestamp
      MIN_TIME_def MAX_TIME_def)

lemma positions:
  "position (happen fl topic (Read now) s) = (if position s < length topic then position s + 1 else position s)"
  "position (happen fl topic (Crash bs) s) = fst (checkpoint s)"
  "checkpoint (happen fl topic (Read now) s) = checkpoint s" "checkpoint (happen fl topic (Crash bs) s) = checkpoint s"
  by (simp_all split: prod.split)

end
