(* ===== verification/ReplayDemo.thy ===== *)
theory ReplayDemo
  imports Autopilot Embedder Timestamps
begin

section \<open>The captured replay (\<^verbatim>\<open>freshet/autopilot/replay_demo.py\<close>)\<close>

text \<open>
  The keyless rehearsal: it shadows every table by a temporary one of the session, then drives the embedder's handler
  and the autopilot's over a captured incident. A session resolves a table's name to its temporary table if it has
  one and to the public one otherwise; the fixture's rows, the vectors and the printing of an event are parameters. The property states
  what a rehearsal does as a plan: every row indexed, and the first row of each transition handled right after.
\<close>

record captured =
  cp_provider :: string
  cp_incident :: string
  cp_update :: string
  cp_created_at :: string
  cp_status :: string
  cp_text :: string
  cp_name :: string



subsection \<open>The session\<close>

text \<open>\<^verbatim>\<open>db\<close> of the session's world holds the public tables.\<close>

record 'e session =
  se_world :: "'e world"
  temp_names :: "string list"
  temp_tables :: database





text \<open>\<^verbatim>\<open>CREATE TEMP TABLE ... (LIKE ...)\<close>: an empty table, or an error if the session has one of that name.\<close>

fun create_temps :: "string list \<Rightarrow> ('e session, unit) call" where
  "create_temps [] s = (Inr (), s)"
| "create_temps (t # us) s =
     (if t \<in> set (temp_names s) then (Inl (OtherError ''DuplicateTable''), s)
      else create_temps us (s\<lparr>temp_names := temp_names s @ [t]\<rparr>))"


subsection \<open>The composer\<close>





subsection \<open>The replay\<close>
















subsection \<open>Isolation\<close>



lemma create_temps_keep:
  "create_temps us s = (r, s') \<Longrightarrow> se_world s' = se_world s \<and> (r = Inr () \<longrightarrow> set (temp_names s') = set (temp_names s) \<union> set us)"
  by (induction us arbitrary: s) (auto split: if_splits)


subsection \<open>The plan of a rehearsal\<close>

text \<open>What is done, in order: each row is indexed, and the first row of each transition is then handled by the autopilot.\<close>

datatype act = Index captured | Handle captured



definition handled_in :: "act list \<Rightarrow> captured list" where
  "handled_in as = concat (map (\<lambda>a. case a of Index c \<Rightarrow> [] | Handle c \<Rightarrow> [c]) as)"







lemma handled_in_simps [simp]:
  "handled_in [] = []" "handled_in (as @ bs) = handled_in as @ handled_in bs"
  "handled_in (Index c # as) = handled_in as" "handled_in (Handle c # as) = c # handled_in as"
  by (simp_all add: handled_in_def)









subsection \<open>A keyless rehearsal ends well\<close>













end
