(* ===== verification/Processes.thy ===== *)
theory Processes
  imports Indexing Supervisor IndexReady Replay Freshness Metrics
begin

section \<open>The processes and their command lines\<close>

text \<open>
  What the entry points add to the components: the embedder's \<^verbatim>\<open>run\<close> with its \<^verbatim>\<open>finally\<close>, the
  replay of dead letters with its last flush, the supervisor's exit status, and the small tools. What a process
  builds from its environment (an embedder, a connection, a bound port) is given as the result of building it.
\<close>

subsection \<open>\<^verbatim>\<open>freshet/common/kafka_io.py\<close>: a setting\<close>

definition DEFAULT_MAX_POLL_INTERVAL_MS :: int where
  "DEFAULT_MAX_POLL_INTERVAL_MS = 900000"

text \<open>\<open>raw\<close> is what \<^verbatim>\<open>int\<close> makes of the environment variable, if it is set.\<close>

definition max_poll_interval_ms :: "int res option \<Rightarrow> int res" where
  "max_poll_interval_ms raw =
     (case raw of
        None \<Rightarrow> Inr DEFAULT_MAX_POLL_INTERVAL_MS
      | Some (Inl e) \<Rightarrow> if e = ValueError then Inr DEFAULT_MAX_POLL_INTERVAL_MS else Inl e
      | Some (Inr n) \<Rightarrow> Inr n)"

text \<open>The settings of the clients.\<close>

datatype setting = Text string | Number int | Flag bool

definition producer_settings :: "string \<Rightarrow> (string \<times> setting) list" where
  "producer_settings brokers = [(''bootstrap.servers'', Text brokers), (''linger.ms'', Number 5)]"

definition consumer_settings :: "string \<Rightarrow> string \<Rightarrow> bool \<Rightarrow> int res option \<Rightarrow> (string \<times> setting) list res" where
  "consumer_settings brokers group_id auto raw =
     and_then (max_poll_interval_ms raw) (\<lambda>n.
       Inr [(''bootstrap.servers'', Text brokers), (''group.id'', Text group_id), (''auto.offset.reset'', Text ''earliest''),
            (''enable.auto.commit'', Flag auto), (''max.poll.interval.ms'', Number n)])"

text \<open>A value that is not a number is ignored, so the settings never keep a worker from starting; the client commits by
  itself only where the loop does not.\<close>

lemma consumer_settings_total:
  assumes "\<And>e. raw = Some (Inl e) \<Longrightarrow> e = ValueError"
  shows "\<exists>cs. consumer_settings brokers group_id auto raw = Inr cs \<and> map_of cs ''enable.auto.commit'' = Some (Flag auto)"
  using assms by (auto simp: consumer_settings_def max_poll_interval_ms_def split: option.splits sum.splits)

subsection \<open>\<^verbatim>\<open>freshet/pipeline/embedder.py\<close>: \<^verbatim>\<open>run\<close>\<close>

text \<open>The handler's configuration with the embedder the process was given or has made.\<close>

definition with_embedder :: "'e embedder \<Rightarrow> 'e embed_config \<Rightarrow> 'e embed_config" where
  "with_embedder m cfg = cfg\<lparr>encode := encode_texts m, model_name := emb_name m\<rparr>"

text \<open>The loop and, however it ends, the last flush of the producer.\<close>

definition embedder_session ::
  "'e embed_config \<Rightarrow> nat option \<Rightarrow> time option \<Rightarrow> int \<Rightarrow> (message \<Rightarrow> unit res) \<Rightarrow> poll_item list \<Rightarrow> 'e world
     \<Rightarrow> time \<Rightarrow> loop_end \<times> 'e embed_state loop_state" where
  "embedder_session cfg limit idle every broker is w now =
     (case consume_loop (embedder_loop cfg limit idle every broker) is (start_embedder w) now of
        (e, s) \<Rightarrow> (e, s\<lparr>inner := snd (flush_embedder cfg (inner s))\<rparr>))"

definition embedder_run ::
  "(nat \<Rightarrow> unit res) \<Rightarrow> nat \<Rightarrow> 'e embedder option \<Rightarrow> 'e embedding_env \<Rightarrow> 'e world res \<Rightarrow> 'e embed_config
     \<Rightarrow> nat option \<Rightarrow> time option \<Rightarrow> int \<Rightarrow> (message \<Rightarrow> unit res) \<Rightarrow> poll_item list \<Rightarrow> time
     \<Rightarrow> (loop_end \<times> 'e embed_state loop_state) res" where
  "embedder_run bind port emb ee conn cfg limit idle every broker is now =
     and_then (start_metrics_server bind port) (\<lambda>u.
     and_then (case emb of Some m \<Rightarrow> Inr m | None \<Rightarrow> make_embedder ee ''bge'') (\<lambda>m.
     and_then conn (\<lambda>w. Inr (embedder_session (with_embedder m cfg) limit idle every broker is w now))))"

text \<open>\<^verbatim>\<open>main\<close>; its only embedder is \<^verbatim>\<open>bge\<close>.\<close>

definition embedder_main ::
  "(nat \<Rightarrow> unit res) \<Rightarrow> nat \<Rightarrow> 'e embedding_env \<Rightarrow> 'e world res \<Rightarrow> 'e embed_config \<Rightarrow> nat option \<Rightarrow> time option
     \<Rightarrow> (message \<Rightarrow> unit res) \<Rightarrow> poll_item list \<Rightarrow> time \<Rightarrow> (loop_end \<times> 'e embed_state loop_state) res" where
  "embedder_main bind port ee conn cfg limit idle broker is now =
     and_then (make_embedder ee ''bge'') (\<lambda>m.
       embedder_run bind port (Some m) ee conn cfg limit idle DEFAULT_COMMIT_EVERY broker is now)"

lemma flush_all_empty: "in_flight (flush_all report p) = []"
proof -
  have "in_flight (foldl (\<lambda>q d. serve_one report d q) p' ds) = in_flight p'" for p' ds
    by (induction ds arbitrary: p') simp_all
  then show ?thesis by (simp add: flush_all_def serve_def)
qed

lemma with_embedder_settled [simp]: "embed_settled (with_embedder m cfg) value s = embed_settled cfg value s"
  by (simp add: embed_settled_def dead_lettered_def with_embedder_def)

lemma past_inner [simp]: "committed_past (s\<lparr>inner := x\<rparr>) m = committed_past s m"
  by (simp add: committed_past_def)

text \<open>At the end of the process every covered record is settled and nothing is left unsent.\<close>

lemma embedder_run_settles:
  assumes "embedder_run bind port emb ee conn cfg limit idle every broker is now = Inr (e, s)"
  shows "in_flight (es_producer (inner s)) = []"
    and "offsets_in_order (records_of is) \<Longrightarrow> m \<in> set (records_of is) \<Longrightarrow> committed_past s m \<Longrightarrow>
      \<exists>value. m_value m = Inr value \<and> embed_settled cfg value (inner s)"
proof -
  obtain model w where run: "embedder_session (with_embedder model cfg) limit idle every broker is w now = (e, s)"
    using assms(1) by (auto simp: embedder_run_def and_then_Inr_iff)
  let ?cfg = "with_embedder model cfg"
  obtain e' t where loop: "consume_loop (embedder_loop ?cfg limit idle every broker) is (start_embedder w) now = (e', t)"
    by fastforce
  with run have s: "s = t\<lparr>inner := snd (flush_embedder ?cfg (inner t))\<rparr>" by (simp add: embedder_session_def)
  then show "in_flight (es_producer (inner s)) = []" by (simp add: flush_embedder_def flush_all_empty)
  assume order: "offsets_in_order (records_of is)" and m: "m \<in> set (records_of is)" "committed_past s m"
  have "committed_past t m" using m(2) by (simp add: s)
  from embedder.covered_is_settled [OF loop order m(1) this TrueI] obtain v where
    v: "m_value m = Inr v" "embed_settled cfg v (inner t)" by auto
  have "flush_embedder ?cfg (inner t) = (Inr (), inner s)" by (simp add: s flush_embedder_def)
  with v flush_embedder_keeps [of ?cfg] have "embed_settled cfg v (inner s)" by fastforce
  with v show "\<exists>value. m_value m = Inr value \<and> embed_settled cfg value (inner s)" by blast
qed

text \<open>C5. The embedder process loses no message: whatever it polls, whichever encodings, deliveries and commits fail,
  and however the loop ends, no produced record is left unsent; and every record that the broker will not deliver
  again, because the process has committed its offset or a later one of its partition, has been indexed, has
  nothing to index or has been acknowledged as a dead letter.\<close>

theorem embedder_process_loses_nothing:
  assumes "embedder_run bind port emb ee conn cfg limit idle every broker is now = Inr (e, s)"
  shows "in_flight (es_producer (inner s)) = []
    \<and> (offsets_in_order (records_of is) \<longrightarrow> (\<forall>m \<in> set (records_of is). committed_past s m \<longrightarrow>
        (\<exists>value. m_value m = Inr value \<and> embed_settled cfg value (inner s))))"
  using embedder_run_settles [OF assms] by blast

definition demo_model :: "unit embedder" where
  "demo_model = \<lparr>emb_name = Some ''bge'', emb_floor = None, emb_floor_centered = None,
     encode_texts = encode demo_config, encode_query = encode demo_config\<rparr>"

definition demo_backends :: "unit embedding_env" where
  "demo_backends = \<lparr>stub_numbers = (\<lambda>t i. 0), import_transformers = Inl ImportError,
     load_transformer = (\<lambda>n. Inl ImportError), int_of = (\<lambda>s. None), torch_threads = None, has_torch = False, float_of = (\<lambda>t. None),
     floor_override = None, centered_override = None\<rparr>"

text \<open>Two records of one partition; one commit, of the second, covers both.\<close>

definition demo_second :: poll_item where
  "demo_second = \<lparr>stopped = False, clock_reading = 0,
     polled = Record \<lparr>m_topic = NORMALIZED_TOPIC, m_partition = 0, m_offset = 1, m_value = Inr ''note''\<rparr>\<rparr>"

theorem embedder_process_loses_nothing_witness:
  "\<exists>e s. embedder_run (\<lambda>p. Inl OS_ERROR) 8002 (Some demo_model) demo_backends (Inr (start_world empty_database 2000000 ()))
        demo_config (Some 2) None DEFAULT_COMMIT_EVERY (\<lambda>m. Inr ()) [demo_poll, demo_second] 0 = Inr (e, s)
    \<and> length (committed s) = 1 \<and> list_all (committed_past s) (records_of [demo_poll, demo_second])
    \<and> embed_settled demo_config ''note'' (inner s) \<and> in_flight (es_producer (inner s)) = []"
proof -
  let ?w = "start_world empty_database 2000000 ()"
  let ?run = "embedder_run (\<lambda>p. Inl OS_ERROR) 8002 (Some demo_model) demo_backends (Inr ?w) demo_config (Some 2) None
    DEFAULT_COMMIT_EVERY (\<lambda>m. Inr ()) [demo_poll, demo_second] 0"
  have same: "with_embedder demo_model demo_config = demo_config"
    by (simp add: with_embedder_def demo_model_def demo_config_def)
  obtain e s where session: "embedder_session demo_config (Some 2) None DEFAULT_COMMIT_EVERY (\<lambda>m. Inr ())
      [demo_poll, demo_second] ?w 0 = (e, s)"
    by fastforce
  then have run: "?run = Inr (e, s)" by (simp add: embedder_run_def start_metrics_server_def same)
  obtain s1 where h: "handle demo_config ''note'' (start_embedder ?w) = (Inr (), s1)"
    using demo_handle [of "start_embedder ?w"] by (metis prod.collapse)
  obtain s2 where h2: "handle demo_config ''note'' s1 = (Inr (), s2)"
    using demo_handle [of s1] by (metis prod.collapse)
  have c: "committed s = [\<lparr>m_topic = NORMALIZED_TOPIC, m_partition = 0, m_offset = 1, m_value = Inr ''note''\<rparr>]"
    using session [symmetric]
    by (simp add: embedder_session_def consume_loop_def demo_poll_def demo_second_def start_loop_def full_def embedder_loop_def
        handle_record_def run_inner_def h h2 run_hook_def note_handled_def Let_def DEFAULT_COMMIT_EVERY_def finish_def
        commit_unless_auto_def commit_pending_def flush_embedder_def partition_of_def numeral_2_eq_2)
  have rs: "records_of [demo_poll, demo_second] =
      [\<lparr>m_topic = NORMALIZED_TOPIC, m_partition = 0, m_offset = 0, m_value = Inr ''note''\<rparr>,
       \<lparr>m_topic = NORMALIZED_TOPIC, m_partition = 0, m_offset = 1, m_value = Inr ''note''\<rparr>]"
    by (simp add: records_of_def demo_poll_def demo_second_def)
  have covered: "list_all (committed_past s) (records_of [demo_poll, demo_second])"
    by (simp add: rs committed_past_def c partition_of_def)
  have "offsets_in_order (records_of [demo_poll, demo_second])" by (simp add: rs offsets_in_order_def)
  with embedder_process_loses_nothing [OF run] covered rs have "in_flight (es_producer (inner s)) = []"
    and "embed_settled demo_config ''note'' (inner s)" by auto
  with run c covered show ?thesis by simp
qed

subsection \<open>\<^verbatim>\<open>freshet/pipeline/replay_deadletter.py\<close>: \<^verbatim>\<open>main\<close>\<close>

definition replay_deadletter_main ::
  "(string \<Rightarrow> json option) \<Rightarrow> reports \<Rightarrow> (producer \<Rightarrow> nat) \<Rightarrow> nat option \<Rightarrow> time \<Rightarrow> (message \<Rightarrow> unit res)
     \<Rightarrow> poll_item list \<Rightarrow> time \<Rightarrow> loop_end \<times> replay_state loop_state" where
  "replay_deadletter_main loads report q limit idle broker is now =
     (case consume_loop (replay_config loads report q limit (Some idle) broker) is (new_producer, []) now of
        (Exited n, s) \<Rightarrow>
          (case flush_replay report (inner s) of
             (Inl e, i) \<Rightarrow> (Raised e, s\<lparr>inner := i\<rparr>)
           | (Inr u, i) \<Rightarrow> (Exited n, s\<lparr>inner := i\<rparr>))
      | (e, s) \<Rightarrow> (e, s))"

subsection \<open>\<^verbatim>\<open>freshet/ops/supervisor.py\<close>: \<^verbatim>\<open>main\<close>\<close>

definition CHILDREN :: "(string \<times> string list \<times> string) list" where
  "CHILDREN =
    [(''poller'', [''-m'', ''freshet.ingest.poller''], ''logs/poller.log''),
     (''embedder'', [''-m'', ''freshet.pipeline.embedder''], ''logs/embedder.log''),
     (''autopilot'', [''-m'', ''freshet.autopilot'', ''--brokers'', ''127.0.0.1:9092'', ''--sink'', ''slack''],
      ''logs/autopilot.log'')]"

text \<open>A halt on a dead dependency is reported and exits with status 1; another exception is raised as it is.\<close>

definition supervisor_main :: "'e os \<Rightarrow> nat \<Rightarrow> real \<Rightarrow> 'e \<Rightarrow> sup_end \<times> 'e sup" where
  "supervisor_main sys n now e =
     (case supervise default_config sys (length CHILDREN) n now e of
        (Halted DependencyDown, s) \<Rightarrow> (Halted (OtherError ''SystemExit''), s)
      | (x, s) \<Rightarrow> (x, s))"

subsection \<open>The tools\<close>

definition GROUPS :: "string list" where
  "GROUPS = [''freshet-stream'', ''embedder'']"

definition index_ready_main ::
  "('e, string, nat) service \<Rightarrow> time \<Rightarrow> time \<Rightarrow> 'e world \<Rightarrow> (int res \<times> 'e world) option" where
  "index_ready_main reader timeout interval w =
     (case wait_ready reader GROUPS timeout interval w of
        None \<Rightarrow> None
      | Some (Inl e, w1) \<Rightarrow> Some (Inl e, w1)
      | Some (Inr lags, w1) \<Rightarrow> Some (Inr 0, w1))"

text \<open>\<^verbatim>\<open>index_stats.main\<close>: the line it prints.\<close>

definition index_stats_main :: "search_engine \<Rightarrow> string \<Rightarrow> 'e world \<Rightarrow> string \<times> 'e world" where
  "index_stats_main eng model w =
     (case refresh_centroid eng model w of
        (n, w1) \<Rightarrow>
          (if n = 0 then ''[index-stats] no rows for '' @ model
           else ''[index-stats] centroid for '' @ model @ '' recomputed over '' @ digits_of n @ '' chunks'', w1))"

text \<open>The gate of the freshness report: fewer live arrivals than \<^verbatim>\<open>--min-n\<close> is a failure.\<close>

definition freshness_gate :: "nat \<Rightarrow> nat \<Rightarrow> unit res" where
  "freshness_gate n min_n = (if n < min_n then Inl (OtherError ''SystemExit'') else Inr ())"

record provenance =
  pv_chunks :: nat
  pv_events :: nat
  pv_providers :: nat
  pv_measured_at :: string

definition index_provenance :: "time \<Rightarrow> database \<Rightarrow> provenance" where
  "index_provenance now d =
     \<lparr>pv_chunks = length (vector_records d), pv_events = length (remdups (map v_event (vector_records d))),
      pv_providers = length (remdups (map v_service (vector_records d))),
      pv_measured_at = isoformat (now - now mod seconds 1)\<rparr>"

text \<open>The tools' contracts: the replay of dead letters ends well only with everything acknowledged, and the wait
  for the index only with no lag in either group.\<close>

lemma replay_main_acknowledges:
  assumes "replay_deadletter_main loads report q limit idle broker is now = (Exited n, s)"
  shows "in_flight (fst (inner s)) = [] \<and> errors (fst (inner s)) = []"
  using assms
  by (auto simp: replay_deadletter_main_def flush_replay_def flush_checked_def flush_all_empty Let_def
      split: prod.splits loop_end.splits sum.splits if_splits)

end
