(* ===== verification/StreamHealth.thy ===== *)
theory StreamHealth
  imports Lifecycle
begin

section \<open>What the stream job reads and writes (\<^verbatim>\<open>freshet/stream/health.py\<close>)\<close>

text \<open>
  The report on the running Flink jobs. Flink's REST API is the parameter \<open>get\<close>, from a URL to a JSON value or an
  exception; what the code does with a value that is not what it expects is Python's behaviour.
\<close>

subsection \<open>JSON values as Python values\<close>

text \<open>\<^verbatim>\<open>v[k]\<close>, iteration and \<^verbatim>\<open>v.get(k)\<close>.\<close>

definition item :: "string \<Rightarrow> json \<Rightarrow> json res" where
  "item k v = (case v of
      JObj d \<Rightarrow> (case map_of d k of None \<Rightarrow> Inl KeyError | Some x \<Rightarrow> Inr x)
    | _ \<Rightarrow> Inl TypeError)"

definition elements :: "json \<Rightarrow> json list res" where
  "elements v = (case v of
      JArr xs \<Rightarrow> Inr xs
    | JObj d \<Rightarrow> Inr (map (\<lambda>kv. JStr (fst kv)) d)
    | JStr s \<Rightarrow> Inr (map (\<lambda>c. JStr [c]) s)
    | _ \<Rightarrow> Inl TypeError)"

definition get_item :: "string \<Rightarrow> json \<Rightarrow> json option res" where
  "get_item k v = (case v of JObj d \<Rightarrow> Inr (map_of d k) | _ \<Rightarrow> Inl AttributeError)"

text \<open>\<^verbatim>\<open>int(v)\<close>; \<open>parse\<close> is its reading of a string.\<close>

definition int_of :: "(string \<Rightarrow> int option) \<Rightarrow> json \<Rightarrow> int res" where
  "int_of parse v = (case v of
      JInt n \<Rightarrow> Inr n
    | JBool b \<Rightarrow> Inr (of_bool b)
    | JReal x \<Rightarrow> Inr (if 0 \<le> x then \<lfloor>x\<rfloor> else \<lceil>x\<rceil>)
    | JStr s \<Rightarrow> (case parse s of None \<Rightarrow> Inl ValueError | Some n \<Rightarrow> Inr n)
    | _ \<Rightarrow> Inl TypeError)"

fun map_res :: "('a \<Rightarrow> 'b res) \<Rightarrow> 'a list \<Rightarrow> 'b list res" where
  "map_res f [] = Inr []"
| "map_res f (x # xs) = and_then (f x) (\<lambda>y. and_then (map_res f xs) (\<lambda>ys. Inr (y # ys)))"

lemma map_res_length: "map_res f xs = Inr ys \<Longrightarrow> length ys = length xs"
  by (induction xs arbitrary: ys) (auto simp: and_then_Inr_iff)

subsection \<open>The report\<close>

type_synonym rest_api = "string \<Rightarrow> json res"

definition running_id :: "json \<Rightarrow> json list res" where
  "running_id j = and_then (item ''status'' j) (\<lambda>st.
     if st = JStr ''RUNNING'' then and_then (item ''id'' j) (\<lambda>i. Inr [i]) else Inr [])"

definition running_job_ids :: "rest_api \<Rightarrow> string \<Rightarrow> json list res" where
  "running_job_ids get base =
     and_then (get (base @ ''/jobs'')) (\<lambda>v.
     and_then (item ''jobs'' v) (\<lambda>js.
     and_then (elements js) (\<lambda>xs.
     and_then (map_res running_id xs) (\<lambda>yss. Inr (concat yss)))))"

definition metric :: "(string \<Rightarrow> int option) \<Rightarrow> string \<Rightarrow> json \<Rightarrow> int res" where
  "metric parse k m = and_then (get_item k m) (\<lambda>x. case x of None \<Rightarrow> Inr 0 | Some v \<Rightarrow> int_of parse v)"

definition vertex_row :: "(string \<Rightarrow> int option) \<Rightarrow> json \<Rightarrow> (json \<times> int \<times> int) res" where
  "vertex_row parse v =
     and_then (get_item ''metrics'' v) (\<lambda>m0.
     let m = (case m0 of None \<Rightarrow> JObj [] | Some x \<Rightarrow> if falsy x then JObj [] else x) in
     and_then (item ''name'' v) (\<lambda>name.
     and_then (metric parse ''read-records'' m) (\<lambda>r.
     and_then (metric parse ''write-records'' m) (\<lambda>w. Inr (name, r, w)))))"

text \<open>\<open>show\<close> is \<^verbatim>\<open>str\<close> of a value inside a URL or a line.\<close>

definition vertex_rows ::
  "(string \<Rightarrow> int option) \<Rightarrow> (json \<Rightarrow> string) \<Rightarrow> rest_api \<Rightarrow> string \<Rightarrow> json \<Rightarrow> (json \<times> int \<times> int) list res" where
  "vertex_rows parse show get base job =
     and_then (get (base @ ''/jobs/'' @ show job)) (\<lambda>v.
     and_then (item ''vertices'' v) (\<lambda>vs.
     and_then (elements vs) (map_res (vertex_row parse))))"

text \<open>\<^verbatim>\<open>f"  {name[:70]:70} in={read:>10} out={wrote:>10}"\<close>; only a string can be cut and padded so.\<close>

definition pad_right :: "nat \<Rightarrow> string \<Rightarrow> string" where
  "pad_right n s = s @ replicate (n - length s) CHR '' ''"

definition right_10 :: "int \<Rightarrow> string" where
  "right_10 n = pad_left 10 CHR '' '' (show_int n)"

definition vertex_line :: "json \<times> int \<times> int \<Rightarrow> string res" where
  "vertex_line row =
     (case row of (name, r, w) \<Rightarrow>
        (case name of
           JStr s \<Rightarrow> Inr (''  '' @ pad_right 70 (take 70 s) @ '' in='' @ right_10 r @ '' out='' @ right_10 w)
         | JObj d \<Rightarrow> Inl KeyError
         | _ \<Rightarrow> Inl TypeError))"

definition job_lines ::
  "(string \<Rightarrow> int option) \<Rightarrow> (json \<Rightarrow> string) \<Rightarrow> rest_api \<Rightarrow> string \<Rightarrow> json \<Rightarrow> string list res" where
  "job_lines parse show get base job =
     and_then (vertex_rows parse show get base job) (\<lambda>rs.
     and_then (map_res vertex_line rs) (\<lambda>ls. Inr ((''job '' @ show job) # ls)))"

definition render :: "(string \<Rightarrow> int option) \<Rightarrow> (json \<Rightarrow> string) \<Rightarrow> rest_api \<Rightarrow> string \<Rightarrow> string res" where
  "render parse show get base =
     and_then (running_job_ids get base) (\<lambda>jobs.
       if jobs = [] then Inr ''no RUNNING job on this cluster''
       else and_then (map_res (job_lines parse show get base) jobs) (\<lambda>lss. Inr (join newline (concat lss))))"

text \<open>\<^verbatim>\<open>main\<close>: the exit status and what is printed; an unreachable API is status 1, anything else unexpected is
  raised.\<close>

definition unreachable :: "exn \<Rightarrow> bool" where
  "unreachable e \<longleftrightarrow> e \<in> {OtherError ''URLError'', OtherError ''OSError'', TimeoutError}"

definition health_main ::
  "(string \<Rightarrow> int option) \<Rightarrow> (json \<Rightarrow> string) \<Rightarrow> rest_api \<Rightarrow> string \<Rightarrow> (int \<times> string) res" where
  "health_main parse show get url =
     (case render parse show get url of
        Inr report \<Rightarrow> Inr (0, report)
      | Inl e \<Rightarrow> if unreachable e then Inr (1, ''[stream-health] no Flink REST API at '' @ url) else Inl e)"

text \<open>The report on a job has one line for it and one for each of its operators, in the API's order.\<close>

lemma job_report_is_complete:
  assumes "job_lines parse show get base job = Inr ls"
    and "get (base @ ''/jobs/'' @ show job) = Inr (JObj d)" and "map_of d ''vertices'' = Some (JArr vs)"
  shows "length ls = 1 + length vs"
  using assms
  by (auto simp: job_lines_def vertex_rows_def item_def elements_def and_then_Inr_iff dest!: map_res_length)

lemma unreachable_api_is_status_one:
  assumes "get (url @ ''/jobs'') = Inl e" and "unreachable e"
  shows "\<exists>line. health_main parse show get url = Inr (1, line)"
  using assms by (simp add: health_main_def render_def running_job_ids_def)

end
