(* ===== verification/Pipeline.thy ===== *)
theory Pipeline
  imports Stream Processes Autopilot
begin

section \<open>From the feed to the brief\<close>

text \<open>
  The composition of the processes. The poller's topic, the stream job and the embedder process, or the autopilot
  process, run one after the other over what the one before has written; every one of them may crash, repeat and
  fail on the way. \<open>wire\<close> is the text of a record on a topic; the workers' parsers are assumed to read from it the
  JSON value that the job wrote, each parse with its own defaults. A record of the job is done with when a worker
  has polled it and committed its offset or a later one of its partition.
\<close>

subsection \<open>Text of an update is never blank\<close>

lemma split_acc_blank: "split_acc cur s = [] \<Longrightarrow> cur = [] \<and> list_all is_space s"
  by (induction cur s rule: split_acc.induct) (auto split: if_splits)

lemma chunks_of_text:
  assumes "c \<in> set s" and "\<not> is_space c"
  shows "chunk_text s None \<noteq> []"
proof
  assume "chunk_text s None = []"
  moreover have "concat (map split_ws (chunk_text s None)) = split_ws s"
    by (simp add: chunk_text_def Let_def words_of_chunk_loop words_of_sentences)
  ultimately have "split_acc [] s = []" by (simp add: split_ws_def)
  then show False using split_acc_blank assms by (force simp: list_all_iff)
qed

lemma update_has_chunks: "chunk_text (name @ '': '' @ body) None \<noteq> []"
  by (rule chunks_of_text [of "CHR '':''"]) (simp_all add: is_space_def code_def)

subsection \<open>Updates\<close>

text \<open>The broker holds a dead letter of the update's own normalized record: the one with its key and the digest of its
  body, unchanged.\<close>

definition update_rejected ::
  "'e embed_config \<Rightarrow> (emission \<Rightarrow> string) \<Rightarrow> emission list \<Rightarrow> incident_update \<Rightarrow> 'e embed_state \<Rightarrow> bool" where
  "update_rejected cfg wire es u st \<longleftrightarrow>
     (\<exists>e \<in> set es. (case e of Normalized now r \<Rightarrow> update_key r = update_key (row_of_update u (iu_created_at u)) | _ \<Rightarrow> False)
        \<and> dead_lettered cfg (wire e) st)"

lemma polled_update_settles:
  assumes job: "s = run_job fl (map to_message us) hs" "i < position s" "i < length us"
    and dates: "dates_pass fl as_stamp" "\<forall>u \<in> set us. millis (iu_created_at u)" "\<forall>now. Read now \<in> set hs \<longrightarrow> millis now"
    and version: "fl_int fl (JInt WIRE_VERSION) = Some WIRE_VERSION" "as_int (JInt WIRE_VERSION) = Some WIRE_VERSION"
    and worker: "embedder_run bind port emb ee conn cfg limit pause every broker is now = Inr (end, es)"
    and order: "offsets_in_order (records_of is)"
    and committed: "\<And>e. e \<in> set (emitted s) \<Longrightarrow> emission_topic e = NORMALIZED_TOPIC \<Longrightarrow>
        \<exists>m \<in> set (records_of is). committed_past es m \<and> m_value m = Inr (wire e)"
    and parsed: "\<And>e k t. e \<in> set (emitted s) \<Longrightarrow> emission_topic e = NORMALIZED_TOPIC \<Longrightarrow>
        parse cfg k t (wire e) = event_of_wire as_int as_stamp (new_id k) t (emission_value fl e)"
  shows "indexed_event (dedup_key (us ! i)) (edb (inner es)) \<or> update_rejected cfg wire (emitted s) (us ! i) (inner es)"
proof -
  obtain now' r ev and u :: incident_update where e: "Normalized now' r \<in> set (emitted s)"
    and own: "update_key r = update_key (row_of_update (us ! i) (iu_created_at (us ! i)))"
    and ev: "\<And>new_id started. event_of_wire as_int as_stamp new_id started (emission_value fl (Normalized now' r)) = Inr ev"
      "ev_id ev = dedup_key (us ! i)"
    and body: "ev_text ev = iu_name u @ '': '' @ iu_text u"
    using update_reaches_the_embedder [of s fl us hs i as_stamp as_int, OF job dates(1) version dates(2,3)]
    by (auto simp del: emission_value.simps)
  have topic: "emission_topic (Normalized now' r) = NORMALIZED_TOPIC" by simp
  obtain m where "m \<in> set (records_of is)" "committed_past es m" "m_value m = Inr (wire (Normalized now' r))"
    using committed [OF e topic] by blast
  with embedder_run_settles(2) [OF worker order] have "embed_settled cfg (wire (Normalized now' r)) (inner es)" by fastforce
  moreover have "dead_lettered cfg (wire (Normalized now' r)) (inner es) \<Longrightarrow> update_rejected cfg wire (emitted s) (us ! i) (inner es)"
    using e own unfolding update_rejected_def by (intro bexI [of _ "Normalized now' r"]) simp_all
  ultimately show ?thesis
    using parsed [OF e topic] update_has_chunks [of "iu_name u" "iu_text u"]
    by (auto simp: embed_settled_def body ev simp del: emission_value.simps)
qed

text \<open>C7. A polled update becomes searchable: once the stream job has read past the message of an update and the
  embedder process has committed past the job's records, then, whatever crashed, failed or was repeated in between
  and however the process ended, an event with the update's key has a completed receipt in the index, or the broker
  has acknowledged the normalized record of this very update (its key and the digest of its body), unchanged, as a
  dead letter.\<close>

theorem polled_update_becomes_searchable:
  assumes job: "s = run_job fl (map to_message us) hs" "i < position s" "i < length us"
    and dates: "dates_pass fl as_stamp" "\<forall>u \<in> set us. millis (iu_created_at u)" "\<forall>now. Read now \<in> set hs \<longrightarrow> millis now"
    and version: "fl_int fl (JInt WIRE_VERSION) = Some WIRE_VERSION" "as_int (JInt WIRE_VERSION) = Some WIRE_VERSION"
    and worker: "embedder_run bind port emb ee conn cfg limit pause every broker is now = Inr (end, es)"
    and order: "offsets_in_order (records_of is)"
    and committed: "\<And>e. e \<in> set (emitted s) \<Longrightarrow> emission_topic e = NORMALIZED_TOPIC \<Longrightarrow>
        \<exists>m \<in> set (records_of is). committed_past es m \<and> m_value m = Inr (wire e)"
    and parsed: "\<And>e k t. e \<in> set (emitted s) \<Longrightarrow> emission_topic e = NORMALIZED_TOPIC \<Longrightarrow>
        parse cfg k t (wire e) = event_of_wire as_int as_stamp (new_id k) t (emission_value fl e)"
  shows "indexed_event (dedup_key (us ! i)) (edb (inner es)) \<or> update_rejected cfg wire (emitted s) (us ! i) (inner es)"
  by (rule polled_update_settles [OF assms])

subsection \<open>Feeds\<close>

lemma same_message:
  assumes "to_message u = to_message v"
  shows "dedup_key u = dedup_key v"
    and "update_key (row_of_update u (iu_created_at u)) = update_key (row_of_update v (iu_created_at v))"
  using assms by (simp_all add: to_message_def dedup_key_def update_key_def row_of_update_def)

text \<open>C1. A feed the poller will not fetch again is searchable: if the cache file a run of the poller leaves holds a new
  \<^verbatim>\<open>ETag\<close>, so that from now on the server may answer 304 and send nothing, then it came with a feed, and once the stream
  job has read the topic to its end and the embedder process has committed past the job's records, every update of that
  feed is indexed or its own normalized record has been acknowledged as a dead letter. The topic holds at least what the broker has acknowledged to the poller, in any
  order and any number of times; every interleaving of the poller's threads, every failed save, flush or sweep and every
  crash of the job and the embedder is allowed.\<close>

theorem skipped_feed_is_searchable:
  assumes poll: "run_poller n pcfg fetch path mono0 wall0 stagger d e = (r, p)"
    and saved: "(url, etag) \<in> set (f_etag (file_of (rs_disk p)))" "(url, etag) \<notin> set (f_etag (file_of d))"
    and topic: "\<And>x. x \<in> set (acked (rs_producer p)) \<Longrightarrow> d_value x \<in> set topic_values"
    and decoded: "map loads topic_values = map (Some \<circ> to_message) us"
      "\<And>rc u. rc \<in> set (ps_log (rs_poll p)) \<Longrightarrow> u \<in> set (Pool.parsed (pc_lib pcfg) rc) \<Longrightarrow>
        loads (pc_dumps pcfg (to_message u)) = Some (to_message u)"
    and job: "s = run_job fl (map to_message us) hs" "length us \<le> position s"
    and dates: "dates_pass fl as_stamp" "\<forall>u \<in> set us. millis (iu_created_at u)" "\<forall>now. Read now \<in> set hs \<longrightarrow> millis now"
    and version: "fl_int fl (JInt WIRE_VERSION) = Some WIRE_VERSION" "as_int (JInt WIRE_VERSION) = Some WIRE_VERSION"
    and worker: "embedder_run bind port emb ee conn cfg limit pause every broker is now = Inr (end, es)"
    and order: "offsets_in_order (records_of is)"
    and committed: "\<And>e. e \<in> set (emitted s) \<Longrightarrow> emission_topic e = NORMALIZED_TOPIC \<Longrightarrow>
        \<exists>m \<in> set (records_of is). committed_past es m \<and> m_value m = Inr (wire e)"
    and parsed: "\<And>e k t. e \<in> set (emitted s) \<Longrightarrow> emission_topic e = NORMALIZED_TOPIC \<Longrightarrow>
        parse cfg k t (wire e) = event_of_wire as_int as_stamp (new_id k) t (emission_value fl e)"
  shows "\<exists>rc \<in> set (ps_log (rs_poll p)). case rc of (pg, headers, body) \<Rightarrow>
      pg_url pg = url \<and> dict_get headers ''ETag'' = Some etag \<and> Pool.parsed (pc_lib pcfg) rc \<noteq> []
      \<and> (\<forall>u \<in> set (Pool.parsed (pc_lib pcfg) rc). indexed_event (dedup_key u) (edb (inner es))
          \<or> update_rejected cfg wire (emitted s) u (inner es))"
proof -
  obtain pg headers body where rc: "(pg, headers, body) \<in> set (ps_log (rs_poll p))" "pg_url pg = url"
    "dict_get headers ''ETag'' = Some etag" "Pool.parsed (pc_lib pcfg) (pg, headers, body) \<noteq> []"
    and acked: "\<forall>u \<in> set (Pool.parsed (pc_lib pcfg) (pg, headers, body)). delivery_of pcfg u \<in> set (acked (rs_producer p))"
    using run_poller_covers [OF poll saved] by (auto simp: list_all_iff)
  have "indexed_event (dedup_key u) (edb (inner es)) \<or> update_rejected cfg wire (emitted s) u (inner es)"
    if u: "u \<in> set (Pool.parsed (pc_lib pcfg) (pg, headers, body))" for u
  proof -
    have "pc_dumps pcfg (to_message u) \<in> set topic_values"
      using topic acked u by (force simp: delivery_of_def)
    then have "Some (to_message u) \<in> set (map loads topic_values)" using decoded(2) [OF rc(1) u] by force
    then obtain i where i: "i < length us" "to_message (us ! i) = to_message u"
      unfolding decoded(1) by (auto simp: in_set_conv_nth)
    with job(2) have "i < position s" by linarith
    from polled_update_settles [OF job(1) this i(1) dates version worker order committed parsed]
    show ?thesis unfolding update_rejected_def same_message [OF i(2)] .
  qed
  with rc show ?thesis by (intro bexI [of _ "(pg, headers, body)"]) auto
qed

subsection \<open>Transitions\<close>

text \<open>C8. A polled transition is owed or delivered: once the stream job has read past the message of an update whose
  status was a recent transition whenever rows were read, and the autopilot process has committed past the job's
  lifecycle events, the topic holds the event of that transition with the date of a polled update of the incident,
  and the process was still polling when it came to it. Unless that very event was set aside by what the clock and the
  table said at that moment (an opening more than a day old, an event from before the incident's opening, the
  resolution of an incident not in the table), the incident has its brief, its progress update or its resolution and
  postmortem owed or delivered in the database, whatever failed on the way and however the process ended.\<close>

theorem polled_transition_is_owed_or_delivered:
  assumes job: "s = run_job fl (map to_message us) hs" "i < position s" "i < length us"
    and dates: "dates_pass fl as_stamp" "\<forall>u \<in> set us. millis (iu_created_at u)"
    and version: "fl_int fl (JInt WIRE_VERSION) = Some WIRE_VERSION"
    and recent: "\<forall>now. Read now \<in> set hs \<longrightarrow>
      recent_transition now (row_of_update (us ! i) (iu_created_at (us ! i))) = Some tr"
    and worker: "autopilot_main sur embedder_kind kind window limit is w now = Inr (end, ap)"
      "keyed inc_id (incidents (db w))"
    and order: "offsets_in_order (records_of is)"
    and committed: "\<And>e. e \<in> set (emitted s) \<Longrightarrow> emission_topic e = LIFECYCLE_TOPIC \<Longrightarrow>
        \<exists>m \<in> set (records_of is). committed_past ap m \<and> m_value m = Inr (wire e)"
    and parsed: "\<And>e. e \<in> set (emitted s) \<Longrightarrow> emission_topic e = LIFECYCLE_TOPIC \<Longrightarrow>
        json_loads sur (wire e) = Inr (emission_value fl e)"
  shows "\<exists>u k m s1. u \<in> set us \<and> partition_key u = partition_key (us ! i)
    \<and> k < length is \<and> polled (is ! k) = Record m
    \<and> m_value m = Inr (wire (Transition tr (row_of_update u (iu_created_at u))))
    \<and> autopilot_main sur embedder_kind kind window limit (take k is) w now = Inr (Polling, s1)
    \<and> (let ev = \<lparr>le_type = tr, le_incident = partition_key (us ! i), le_service = iu_provider u,
          le_ts = fl_show fl (iu_created_at u), le_title = iu_name u\<rparr>
       in set_aside ev (ag_world (inner s1)) \<or> debts_kept ev (ag_world (inner ap)))"
proof -
  obtain u where u: "u \<in> set us" "Transition tr (row_of_update u (iu_created_at u)) \<in> set (emitted s)"
    and key: "partition_key u = partition_key (us ! i)"
    using transition_reaches_the_autopilot [OF job dates(1) version dates(2) recent] by blast
  let ?e = "Transition tr (row_of_update u (iu_created_at u))"
  obtain m where m: "m \<in> set (records_of is)" "committed_past ap m" "m_value m = Inr (wire ?e)" using committed [OF u(2)] by auto
  from m(1) nth_record obtain k where k: "k < length is" "polled (is ! k) = Record m" by (metis in_set_conv_nth)
  from autopilot_mainD(2) [OF worker order k m(2)] obtain s1 v ev where
    first: "autopilot_main sur embedder_kind kind window limit (take k is) w now = Inr (Polling, s1)"
    and v: "json_loads sur (wire ?e) = Inr v" "event_of_json v = Inr ev"
    and d: "set_aside ev (ag_world (inner s1)) \<or> debts_kept ev (ag_world (inner ap))" using m(3) by auto
  have "v = emission_value fl ?e" using v(1) parsed [OF u(2)] by (simp del: emission_value.simps)
  then have "ev = \<lparr>le_type = tr, le_incident = partition_key (us ! i), le_service = iu_provider u,
      le_ts = fl_show fl (iu_created_at u), le_title = iu_name u\<rparr>"
    using v(2) key by (simp add: transition_event del: emission_value.simps)
  with d u(1) key k m(3) first show ?thesis by (auto simp: Let_def)
qed

subsection \<open>A run of both\<close>

abbreviation as_int_demo :: "json \<Rightarrow> int option" where
  "as_int_demo \<equiv> (\<lambda>v. case v of JInt n \<Rightarrow> Some n | _ \<Rightarrow> None)"

abbreviation as_stamp_demo :: "json \<Rightarrow> (time \<times> time option) option" where
  "as_stamp_demo \<equiv> (\<lambda>v. case v of JStr s \<Rightarrow> fromisoformat (replace_z s) | _ \<Rightarrow> None)"

abbreviation demo_resolved :: incident_update where
  "demo_resolved \<equiv> demo_incident_update ''u1'' ''resolved''"

abbreviation demo_opening :: incident_update where
  "demo_opening \<equiv> demo_incident_update ''u1'' ''investigating''"

lemma demo_millis: "millis 0" "iu_created_at (demo_incident_update i st) = 0"
  by (simp_all add: millis_def MIN_TIME_def MAX_TIME_def demo_incident_update_def)

lemma demo_dates: "dates_pass demo_flink as_stamp_demo"
  by (simp add: dates_pass_def demo_flink_def millis_def replaced_timestamp)

lemma demo_opening_transition: "recent_transition 0 (row_of_update demo_opening 0) = Some ''opened''"
  by (simp add: recent_transition_def row_of_update_def demo_incident_update_def TRACKED_STATUSES_def
      RESOLVE_STATUSES_def lower_def lower_char_def is_upper_def in_range_def code_def)

lemma demo_emitted:
  "emitted (run_job demo_flink (map to_message [demo_resolved]) [Read 0])
     = [Normalized 0 (row_of_update demo_resolved 0), Transition ''resolved'' (row_of_update demo_resolved 0)]"
  "emitted (run_job demo_flink (map to_message [demo_opening]) [Read 0])
     = [Normalized 0 (row_of_update demo_opening 0), Transition ''opened'' (row_of_update demo_opening 0)]"
  by (simp_all add: run_simps demo_opening_transition)

lemma demo_position: "0 < position (run_job demo_flink (map to_message [u]) [Read 0])"
  by (simp add: run_job_def positions start_job_def del: happen.simps)

definition demo_indexed :: event where
  "demo_indexed = \<lparr>ev_id = ''zoom:x1:u1'', ev_v = WIRE_VERSION, ev_ts = 0, ev_ingested_at = Some 0, ev_indexed_at = None,
     ev_service = ''zoom'', ev_source = ALERT, ev_type = ''status_update'', ev_severity = None,
     ev_incident = Some ''zoom:x1'', ev_title = Some ''Calls fail'', ev_text = ''Calls fail: we look'',
     ev_structured = [], ev_refs = []\<rparr>"

lemma demo_wire:
  "event_of_wire as_int_demo as_stamp_demo new_id started (emission_value demo_flink (Normalized 0 (row_of_update demo_resolved 0)))
     = Inr demo_indexed"
  by (subst normalized_event)
    (simp_all add: demo_flink_def replaced_timestamp MIN_TIME_def MAX_TIME_def demo_indexed_def demo_incident_update_def
      dedup_key_def partition_key_def)

definition demo_parse :: "unit embed_config" where
  "demo_parse = demo_config\<lparr>parse := (\<lambda>k t v. Inr demo_indexed)\<rparr>"

lemma demo_parse_handle: "\<exists>s1. handle demo_parse v s = (Inr (), s1) \<and> es_producer s1 = es_producer s"
proof -
  have c: "encode_attempts (encode demo_config) texts 0 3 w =
      (Inr (map (\<lambda>t. replicate 768 0) texts), w\<lparr>clock := clock w + 5, env := env w\<rparr>)" for texts w
    by (simp add: numeral_3_eq_3 call_service_def demo_config_def)
  have t: "chunk_text (ev_text demo_indexed) None = [''Calls fail: we look'']" unfolding demo_indexed_def by code_simp
  have p: "parse_now demo_parse v s = Inr demo_indexed" "attempts demo_parse = 3" "encode demo_parse = encode demo_config"
    by (simp_all add: demo_parse_def demo_config_def parse_now_def EMBED_ATTEMPTS_def)
  show ?thesis
    by (simp add: handle_def p c Let_def index_vectors_def t EMBEDDING_DIM_def list_ex_iff records_for_event_def
        split: prod.split)
qed

abbreviation demo_note :: message where
  "demo_note \<equiv> \<lparr>m_topic = NORMALIZED_TOPIC, m_partition = 0, m_offset = 0, m_value = Inr ''note''\<rparr>"

lemma demo_poll_records: "records_of [demo_poll] = [demo_note]" "offsets_in_order (records_of [demo_poll])"
  by (simp_all add: records_of_def demo_poll_def offsets_in_order_def)

lemma demo_worker:
  "\<exists>e es. embedder_run (\<lambda>p. Inr ()) 0 (Some demo_model) demo_backends (Inr (start_world empty_database 2000000 ()))
      demo_parse (Some 1) None DEFAULT_COMMIT_EVERY (\<lambda>m. Inr ()) [demo_poll] 0 = Inr (e, es)
    \<and> committed_past es demo_note \<and> acked (es_producer (inner es)) = []"
proof -
  let ?w = "start_world empty_database 2000000 ()"
  have same: "with_embedder demo_model demo_parse = demo_parse"
    by (simp add: with_embedder_def demo_model_def demo_parse_def demo_config_def)
  obtain e s where session: "embedder_session demo_parse (Some 1) None DEFAULT_COMMIT_EVERY (\<lambda>m. Inr ()) [demo_poll] ?w 0 = (e, s)"
    by fastforce
  obtain s1 where h: "handle demo_parse ''note'' (start_embedder ?w) = (Inr (), s1)" "es_producer s1 = new_producer"
    using demo_parse_handle [of "''note''" "start_embedder ?w"] by (auto simp: start_embedder_def)
  have "committed s = [demo_note] \<and> acked (es_producer (inner s)) = []"
    using session [symmetric]
    by (simp add: embedder_session_def consume_loop_def demo_poll_def start_loop_def full_def embedder_loop_def
        handle_record_def run_inner_def h run_hook_def note_handled_def Let_def DEFAULT_COMMIT_EVERY_def finish_def
        commit_unless_auto_def commit_pending_def flush_embedder_def flush_checked_def flush_all_def new_producer_def serve_def)
  then show ?thesis
    using session by (intro exI [of _ e] exI [of _ s])
      (simp add: embedder_run_def start_metrics_server_def same committed_past_def)
qed

theorem polled_update_becomes_searchable_witness:
  "\<exists>e es. embedder_run (\<lambda>p. Inr ()) 0 (Some demo_model) demo_backends (Inr (start_world empty_database 2000000 ()))
      demo_parse (Some 1) None DEFAULT_COMMIT_EVERY (\<lambda>m. Inr ()) [demo_poll] 0 = Inr (e, es)
    \<and> indexed_event (dedup_key demo_resolved) (edb (inner es))"
proof -
  obtain e es where run: "embedder_run (\<lambda>p. Inr ()) 0 (Some demo_model) demo_backends
      (Inr (start_world empty_database 2000000 ())) demo_parse (Some 1) None DEFAULT_COMMIT_EVERY (\<lambda>m. Inr ()) [demo_poll] 0
      = Inr (e, es)" and m: "committed_past es demo_note" "acked (es_producer (inner es)) = []"
    using demo_worker by blast
  have "indexed_event (dedup_key ([demo_resolved] ! 0)) (edb (inner es))
      \<or> update_rejected demo_parse (\<lambda>e. ''note'') (emitted (run_job demo_flink (map to_message [demo_resolved]) [Read 0]))
          ([demo_resolved] ! 0) (inner es)"
    by (rule polled_update_becomes_searchable [where as_int = as_int_demo and as_stamp = as_stamp_demo and hs = "[Read 0]"
          and us = "[demo_resolved]" and i = 0 and wire = "\<lambda>e. ''note''" and new_id = "\<lambda>k. []",
          OF refl demo_position _ demo_dates _ _ _ _ run demo_poll_records(2)])
      (use m(1) in \<open>auto simp: demo_poll_records(1) demo_millis demo_flink_reads demo_emitted [unfolded list.map] demo_wire
        demo_parse_def NORMALIZED_TOPIC_def LIFECYCLE_TOPIC_def simp del: emission_value.simps\<close>)
  with run m(2) show ?thesis by (auto simp: update_rejected_def dead_lettered_def)
qed

definition demo_page_lib :: feed_lib where
  "demo_page_lib = \<lparr>xml_entries = (\<lambda>feed. Some [\<lparr>e_id = Some ''tag:status.zoom.us,2005:Incident/x1'',
       e_updated = Some ''1970-01-01T00:00:00Z'', e_published = None, e_title = Some ''Calls fail'', e_content = Some feed\<rparr>]),
     unescape = (\<lambda>s. s), blake = (\<lambda>s. if s = ''we look'' then ''d'' else ''u1''), machine_zone = Inr\<rparr>"

definition demo_page_feed :: string where
  "demo_page_feed = ''<b>Status: Resolved</b>we look''"

definition demo_page :: page where
  "demo_page = \<lparr>pg_provider = ''zoom'', pg_url = ''https://status.zoom.us/history.atom''\<rparr>"

definition demo_poll_config :: poll_config where
  "demo_poll_config = \<lparr>pc_lib = demo_page_lib, pc_dumps = (\<lambda>j. ''m''), pc_reports = (\<lambda>n d. None), pc_served = (\<lambda>p. 0),
     pc_pages = [demo_page], pc_interval = 60, pc_jitter = (\<lambda>k. 0), pc_writes = (\<lambda>k. True), pc_schedule = (\<lambda>k. [])\<rparr>"

definition demo_site :: "unit fetcher" where
  "demo_site req e = (Inr (200, [(''ETag'', ''e1'')], Some demo_page_feed), e)"

lemma demo_page_parse: "parse_atom demo_page_lib ''zoom'' demo_page_feed = Inr [demo_resolved]"
  unfolding demo_incident_update_def by code_simp

lemma demo_poller_run:
  "\<exists>p. run_poller 1 demo_poll_config demo_site ''cache.json'' 5 1000 0 NoFile () = (Inr 1, p)
    \<and> f_etag (file_of (rs_disk p)) = [(pg_url demo_page, ''e1'')]
    \<and> acked (rs_producer p) = [delivery_of demo_poll_config demo_resolved]
    \<and> ps_log (rs_poll p) = [(demo_page, [(''ETag'', ''e1'')], demo_page_feed)]"
proof -
  have h: "dict_get [(''ETag'', ''e1'')] ''ETag'' = Some ''e1''" "dict_get [(''ETag'', ''e1'')] ''Last-Modified'' = None"
    by code_simp+
  have b: "demo_page_feed \<noteq> []" by (simp add: demo_page_feed_def)
  show ?thesis
    by (simp add: run_poller_def Let_def sweep_def sequential_sweep demo_poll_config_def demo_page_def idle_def load_cache_def
        empty_file_def restore_def new_backoff_def poll_page_def skip_def demo_site_def read_feed_def b truthy_def
        demo_page_parse h remember_def remember_in_def dict_set_def count_fetch_def produce_update_def produce_def serve_def
        serve_one_def flush_checked_def flush_all_def new_producer_def save_cache_def file_of_def delivery_of_def)
qed

theorem skipped_feed_is_searchable_witness:
  "\<exists>p e es. run_poller 1 demo_poll_config demo_site ''cache.json'' 5 1000 0 NoFile () = (Inr 1, p)
    \<and> f_etag (file_of (rs_disk p)) = [(pg_url demo_page, ''e1'')]
    \<and> embedder_run (\<lambda>p. Inr ()) 0 (Some demo_model) demo_backends (Inr (start_world empty_database 2000000 ()))
      demo_parse (Some 1) None DEFAULT_COMMIT_EVERY (\<lambda>m. Inr ()) [demo_poll] 0 = Inr (e, es)
    \<and> indexed_event (dedup_key demo_resolved) (edb (inner es))"
proof -
  obtain p where poll: "run_poller 1 demo_poll_config demo_site ''cache.json'' 5 1000 0 NoFile () = (Inr 1, p)"
    and p: "f_etag (file_of (rs_disk p)) = [(pg_url demo_page, ''e1'')]"
      "acked (rs_producer p) = [delivery_of demo_poll_config demo_resolved]"
      "ps_log (rs_poll p) = [(demo_page, [(''ETag'', ''e1'')], demo_page_feed)]"
    using demo_poller_run by blast
  obtain e es where run: "embedder_run (\<lambda>p. Inr ()) 0 (Some demo_model) demo_backends
      (Inr (start_world empty_database 2000000 ())) demo_parse (Some 1) None DEFAULT_COMMIT_EVERY (\<lambda>m. Inr ()) [demo_poll] 0
      = Inr (e, es)" and m: "committed_past es demo_note" "acked (es_producer (inner es)) = []"
    using demo_worker by blast
  have feed: "Pool.parsed (pc_lib demo_poll_config) (demo_page, [(''ETag'', ''e1'')], demo_page_feed) = [demo_resolved]"
    by (simp add: Pool.parsed_def demo_poll_config_def demo_page_def demo_page_parse)
  have "(pg_url demo_page, ''e1'') \<in> set (f_etag (file_of (rs_disk p)))"
    "(pg_url demo_page, ''e1'') \<notin> set (f_etag (file_of NoFile))"
    using p(1) by (simp_all add: file_of_def empty_file_def)
  then have "\<exists>rc \<in> set (ps_log (rs_poll p)). case rc of (pg, headers, body) \<Rightarrow>
      pg_url pg = pg_url demo_page \<and> dict_get headers ''ETag'' = Some ''e1'' \<and> Pool.parsed (pc_lib demo_poll_config) rc \<noteq> []
      \<and> (\<forall>u \<in> set (Pool.parsed (pc_lib demo_poll_config) rc). indexed_event (dedup_key u) (edb (inner es))
          \<or> update_rejected demo_parse (\<lambda>e. ''note'')
              (emitted (run_job demo_flink (map to_message [demo_resolved]) [Read 0])) u (inner es))"
    by (rule skipped_feed_is_searchable [where as_int = as_int_demo and as_stamp = as_stamp_demo and hs = "[Read 0]"
          and us = "[demo_resolved]" and wire = "\<lambda>e. ''note''" and new_id = "\<lambda>k. []"
          and topic_values = "[''m'']" and loads = "\<lambda>v. Some (to_message demo_resolved)",
          OF poll _ _ _ _ _ refl _ demo_dates _ _ _ _ run demo_poll_records(2)])
      (use m(1) demo_position [of demo_resolved] feed in \<open>auto simp: p(2,3) demo_poll_records(1) demo_millis demo_flink_reads
        demo_emitted [unfolded list.map] demo_wire demo_parse_def delivery_of_def demo_poll_config_def NORMALIZED_TOPIC_def
        LIFECYCLE_TOPIC_def simp del: emission_value.simps\<close>)
  then have "indexed_event (dedup_key demo_resolved) (edb (inner es))"
    by (auto simp: p(3) feed m(2) update_rejected_def dead_lettered_def)
  with poll p(1) run show ?thesis by blast
qed

theorem polled_transition_is_owed_or_delivered_witness:
  "\<exists>v s ev. autopilot_main (demo_surroundings v) ''stub'' ''stdout'' 60000000 None [demo_record 0 0 ''x''] Autopilot.demo_start 0
      = Inr (Polling, s) \<and> le_type ev = ''opened'' \<and> le_incident ev = ''zoom:x1''
    \<and> \<not> set_aside ev Autopilot.demo_start \<and> debts_kept ev (ag_world (inner s))"
proof -
  let ?v = "emission_value demo_flink (Transition ''opened'' (row_of_update demo_opening 0))"
  let ?ev = "\<lparr>le_type = ''opened'', le_incident = partition_key demo_opening, le_service = iu_provider demo_opening,
      le_ts = fl_show demo_flink 0, le_title = iu_name demo_opening\<rparr>"
  let ?m = "\<lparr>m_topic = ''t'', m_partition = 0, m_offset = 0, m_value = Inr ''x''\<rparr>" and ?is = "[demo_record 0 0 ''x'']"
  have now: "event_ts t ?ev = 0" for t
    by (simp add: event_ts_def demo_flink_def replaced_timestamp MIN_TIME_def MAX_TIME_def as_utc_def)
  have own: "partition_key demo_opening = ''zoom:x1''" by (simp add: partition_key_def demo_incident_update_def)
  then have "partition_key demo_opening \<noteq> []" by simp
  then obtain s where run: "autopilot_main (demo_surroundings ?v) ''stub'' ''stdout'' 60000000 None ?is Autopilot.demo_start 0
      = Inr (Polling, s)" and c: "committed s = [?m]"
    using demo_run [OF transition_event [of demo_flink "''opened''" demo_opening 0]] now by auto
  have k: "keyed inc_id (incidents (db Autopilot.demo_start))"
    by (simp add: Autopilot.demo_start_def empty_database_def keyed_def)
  have rs: "records_of ?is = [?m]" by (simp add: records_of_def demo_record_def)
  have o: "offsets_in_order (records_of ?is)" by (simp add: rs offsets_in_order_def)
  have p: "committed_past s ?m" by (simp add: committed_past_def c)
  have "\<exists>u k m s1. u \<in> set [demo_opening] \<and> partition_key u = partition_key ([demo_opening] ! 0)
      \<and> k < length ?is \<and> polled (?is ! k) = Record m
      \<and> m_value m = Inr ((\<lambda>e. ''x'') (Transition ''opened'' (row_of_update u (iu_created_at u))))
      \<and> autopilot_main (demo_surroundings ?v) ''stub'' ''stdout'' 60000000 None (take k ?is) Autopilot.demo_start 0 = Inr (Polling, s1)
      \<and> (let ev = \<lparr>le_type = ''opened'', le_incident = partition_key ([demo_opening] ! 0), le_service = iu_provider u,
            le_ts = fl_show demo_flink (iu_created_at u), le_title = iu_name u\<rparr>
         in set_aside ev (ag_world (inner s1)) \<or> debts_kept ev (ag_world (inner s)))"
    by (rule polled_transition_is_owed_or_delivered [where as_stamp = as_stamp_demo and hs = "[Read 0]"
          and us = "[demo_opening]" and i = 0 and wire = "\<lambda>e. ''x''", OF refl demo_position _ demo_dates _ _ _ run k o])
      (use p in \<open>auto simp: rs demo_millis demo_flink_reads demo_emitted [unfolded list.map] demo_opening_transition
        demo_surroundings_def NORMALIZED_TOPIC_def LIFECYCLE_TOPIC_def simp del: emission_value.simps\<close>)
  then obtain s1 where first: "autopilot_main (demo_surroundings ?v) ''stub'' ''stdout'' 60000000 None [] Autopilot.demo_start 0
      = Inr (Polling, s1)" and d: "set_aside ?ev (ag_world (inner s1)) \<or> debts_kept ?ev (ag_world (inner s))"
    by (auto simp: Let_def demo_millis)
  have "\<not> set_aside ?ev Autopilot.demo_start"
    unfolding set_aside_def now using own by (simp add: Autopilot.demo_start_def MAX_BRIEF_AGE_S_def total_seconds_def)
  with d demo_first [OF first] have "\<not> set_aside ?ev Autopilot.demo_start \<and> debts_kept ?ev (ag_world (inner s))" by simp
  with run own show ?thesis by (intro exI [of _ ?v] exI [of _ s] exI [of _ ?ev]) simp
qed

end
