(* ===== verification/Crash.thy ===== *)
theory Crash
  imports Indexing
begin

section \<open>A crash between the statements of indexing (\<^verbatim>\<open>freshet/pipeline/embedder.py\<close>)\<close>

text \<open>
  The worker's connection is in autocommit mode, so indexing an event is a sequence of statements
  and a crash leaves any prefix of it behind. The message is not committed then and comes again.
  The theory lists the statements, shows that running them all is \<open>index_event\<close>, and that a run
  over what earlier crashes left is the run over the database before them: the comment over
  \<^verbatim>\<open>_REGISTER_INDEXING_SQL\<close> says that a crash partway can resume the first indexing.
\<close>

type_synonym statement = "database \<Rightarrow> database"

text \<open>The two statements of \<^verbatim>\<open>ensure_incident\<close>, and the link, when the event has an incident.\<close>

definition incident_statements :: "event \<Rightarrow> statement list" where
  "incident_statements ev =
     (case ev_incident ev of
        None \<Rightarrow> []
      | Some i \<Rightarrow>
          if i = [] then []
          else [\<lambda>d. d\<lparr>incidents := ensure_incident_rows i (ev_service ev) (ev_ts ev)
                   (case ev_title ev of None \<Rightarrow> [] | Some t \<Rightarrow> t) (incidents d)\<rparr>,
                \<lambda>d. d\<lparr>incident_services := insert_once (i, ev_service ev) (incident_services d)\<rparr>])"

definition link_statements :: "event \<Rightarrow> statement list" where
  "link_statements ev =
     (case ev_incident ev of None \<Rightarrow> [] | Some i \<Rightarrow> if i = [] then [] else [link_event i (ev_id ev)])"

definition closing_statements :: "event \<Rightarrow> nat \<Rightarrow> statement list" where
  "closing_statements ev n = delete_orphans (ev_id ev) n # incident_statements ev @ link_statements ev"

definition index_statements ::
  "event \<Rightarrow> (vector_record \<times> real list) list \<Rightarrow> string option \<Rightarrow> time \<Rightarrow> statement list" where
  "index_statements ev rvs model now =
     register_indexing (ev_id ev)
     # map (\<lambda>(rec, vec). upsert_record (rec\<lparr>rec_indexed_at := now\<rparr>) vec model) rvs
     @ closing_statements ev (length rvs) @ [complete_indexing (ev_id ev) now]"

definition run_statements :: "statement list \<Rightarrow> database \<Rightarrow> database" where
  "run_statements ss d = foldl (\<lambda>d s. s d) d ss"

text \<open>An attempt that died: the vectors it had, its clock, and how many statements it had run.\<close>

record cut_run =
  at_stamp :: time
  at_vectors :: "real list list"
  at_model :: "string option"
  at_now :: time
  at_ran :: nat

definition attempt_statements :: "event \<Rightarrow> cut_run \<Rightarrow> statement list" where
  "attempt_statements ev a =
     index_statements ev (zip (records_for_event ev (at_stamp a)) (at_vectors a)) (at_model a) (at_now a)"

definition crash :: "event \<Rightarrow> cut_run \<Rightarrow> database \<Rightarrow> database" where
  "crash ev a d = run_statements (take (at_ran a) (attempt_statements ev a)) d"

text \<open>The vectors passed the worker's check, and the receipt's stamp was not reached.\<close>

definition died_early :: "event \<Rightarrow> cut_run \<Rightarrow> bool" where
  "died_early ev a \<longleftrightarrow> vectors_ok (at_vectors a) ev \<and> at_vectors a \<noteq> [] \<and> at_ran a < length (attempt_statements ev a)"

definition crashes :: "event \<Rightarrow> cut_run list \<Rightarrow> database \<Rightarrow> database" where
  "crashes ev ats d = foldl (\<lambda>d a. crash ev a d) d ats"

subsection \<open>The statements are the operation\<close>

lemma run_Nil [simp]: "run_statements [] d = d"
  by (simp add: run_statements_def)

lemma run_Cons [simp]: "run_statements (s # ss) d = run_statements ss (s d)"
  by (simp add: run_statements_def)

lemma run_append [simp]: "run_statements (ss @ us) d = run_statements us (run_statements ss d)"
  by (simp add: run_statements_def)

lemma run_writes:
  "run_statements (map (\<lambda>(rec, vec). upsert_record (rec\<lparr>rec_indexed_at := now\<rparr>) vec model) rvs) d =
     write_chunks rvs model now d"
  by (induction rvs arbitrary: d) (simp_all add: write_chunks_Cons case_prod_beta)

lemma run_incident:
  "run_statements (incident_statements ev) d =
     ensure_incident (ev_incident ev) (ev_service ev) (ev_ts ev) (case ev_title ev of None \<Rightarrow> [] | Some t \<Rightarrow> t) d"
  by (simp add: incident_statements_def ensure_incident_def split: option.split)

lemma index_event_statements:
  "run_statements (index_statements ev rvs model now) d = index_event ev rvs model now d"
  by (simp add: index_statements_def index_event_def closing_statements_def run_writes run_incident Let_def
      link_statements_def split: option.split)

lemma run_invariant:
  "(\<And>s d. s \<in> set ss \<Longrightarrow> I d \<Longrightarrow> I (s d)) \<Longrightarrow> I d \<Longrightarrow> I (run_statements (take k ss) d)"
proof (induction ss arbitrary: d k)
  case (Cons s ss)
  then show ?case by (cases k) auto
qed simp

subsection \<open>Rows written again\<close>

definition put_rows :: "vector_row list \<Rightarrow> vector_row list \<Rightarrow> vector_row list" where
  "put_rows news t = foldl (\<lambda>t new. upsert chunk_id new (overwrite_row new) t) t news"

lemma put_Nil [simp]: "put_rows [] t = t"
  by (simp add: put_rows_def)

lemma put_Cons [simp]: "put_rows (new # news) t = put_rows news (upsert chunk_id new (overwrite_row new) t)"
  by (simp add: put_rows_def)

lemma write_chunks_put:
  "vector_records (write_chunks rvs model now d) = put_rows (map (written model now) rvs) (vector_records d)"
  by (induction rvs arbitrary: d) (simp_all add: write_chunks_Cons upsert_record_rows)

text \<open>The columns a conflict does not overwrite agree.\<close>

definition supersedes :: "vector_row \<Rightarrow> vector_row \<Rightarrow> bool" where
  "supersedes a b \<longleftrightarrow> chunk_id a = chunk_id b \<and> overwrite_row a b = a"

lemma overwrite_twice [simp]: "overwrite_row a (overwrite_row b r) = overwrite_row a r"
  by (simp add: overwrite_row_def)

lemma upsert_supersedes:
  "supersedes a b \<Longrightarrow> upsert chunk_id a (overwrite_row a) (upsert chunk_id b (overwrite_row b) t) =
     upsert chunk_id a (overwrite_row a) t"
  by (induction t) (auto simp: supersedes_def)

lemma upsert_commutes:
  assumes "\<And>r. key (f r) = key r" and "\<And>r. key (g r) = key r"
    and "key a \<noteq> key b" and "key a \<in> key ` set t"
  shows "upsert key a f (upsert key b g t) = upsert key b g (upsert key a f t)"
  using assms(4)
proof (induction t)
  case (Cons r t)
  then show ?case using assms(1-3) by auto
qed simp

lemma upsert_put:
  "chunk_id a \<notin> chunk_id ` set news \<Longrightarrow> chunk_id a \<in> chunk_id ` set t \<Longrightarrow>
     upsert chunk_id a (overwrite_row a) (put_rows news t) = put_rows news (upsert chunk_id a (overwrite_row a) t)"
proof (induction news arbitrary: t)
  case (Cons b news)
  have "upsert chunk_id a (overwrite_row a) (upsert chunk_id b (overwrite_row b) t) =
      upsert chunk_id b (overwrite_row b) (upsert chunk_id a (overwrite_row a) t)"
    by (rule upsert_commutes) (use Cons.prems in auto)
  with Cons.IH [of "upsert chunk_id b (overwrite_row b) t"] Cons.prems show ?case
    by (simp add: keys_upsert)
qed simp

text \<open>Writing a prefix first changes nothing: its rows are in place, and every column that may differ is
  overwritten.\<close>

lemma put_over_prefix:
  "list_all2 supersedes (take (length olds) news) olds \<Longrightarrow> distinct (map chunk_id olds) \<Longrightarrow>
     put_rows news (put_rows olds t) = put_rows news t"
proof (induction olds arbitrary: news t)
  case (Cons b olds)
  then obtain a news' where n: "news = a # news'" by (cases news) simp_all
  have ab: "supersedes a b" and rest: "list_all2 supersedes (take (length olds) news') olds"
    using Cons.prems(1) by (simp_all add: n)
  let ?u = "\<lambda>x t. upsert chunk_id x (overwrite_row x) t"
  have "chunk_id a \<notin> chunk_id ` set olds" using ab Cons.prems(2) by (simp add: supersedes_def)
  moreover have "chunk_id a \<in> chunk_id ` set (?u b t)" using ab by (simp add: keys_upsert supersedes_def)
  ultimately have "?u a (put_rows olds (?u b t)) = put_rows olds (?u a (?u b t))" by (rule upsert_put)
  with Cons.IH [OF rest, of "?u a t"] Cons.prems(2) ab show ?case by (simp add: n upsert_supersedes)
qed simp

text \<open>Deleting the orphans first changes nothing either: the rows written are none of them.\<close>

definition proper :: "vector_row list \<Rightarrow> bool" where
  "proper t \<longleftrightarrow> list_all (\<lambda>r. chunk_id r = chunk_key (v_event r) (chunk_index r)) t"

lemma inv_proper: "index_inv d \<Longrightarrow> proper (vector_records d)"
  by (simp add: index_inv_def proper_def list_all_iff)

lemma proper_upsert: "proper [new] \<Longrightarrow> proper t \<Longrightarrow> proper (upsert chunk_id new (overwrite_row new) t)"
  by (induction t) (auto simp: proper_def overwrite_row_def chunk_key_inj)

definition orphan :: "string \<Rightarrow> nat \<Rightarrow> vector_row \<Rightarrow> bool" where
  "orphan e n r \<longleftrightarrow> v_event r = e \<and> n \<le> chunk_index r"

lemma upsert_orphans:
  assumes "proper [new]" and "\<not> orphan e n new"
  shows "proper t \<Longrightarrow> filter (\<lambda>r. \<not> orphan e n r) (upsert chunk_id new (overwrite_row new) t) =
    upsert chunk_id new (overwrite_row new) (filter (\<lambda>r. \<not> orphan e n r) t)"
  using assms by (induction t) (auto simp: proper_def orphan_def overwrite_row_def chunk_key_inj)

lemma put_orphans:
  "proper news \<Longrightarrow> list_all (\<lambda>r. \<not> orphan e n r) news \<Longrightarrow> proper t \<Longrightarrow>
     filter (\<lambda>r. \<not> orphan e n r) (put_rows news t) = put_rows news (filter (\<lambda>r. \<not> orphan e n r) t)"
proof (induction news arbitrary: t)
  case (Cons new news)
  have p: "proper [new]" and q: "proper news" using Cons.prems(1) by (simp_all add: proper_def)
  from proper_upsert [OF p Cons.prems(3)] upsert_orphans [OF p _ Cons.prems(3)] Cons.IH [OF q] Cons.prems(2)
  show ?case by simp
qed simp

subsection \<open>One crash\<close>

definition rows_written :: "event \<Rightarrow> time \<Rightarrow> real list list \<Rightarrow> string option \<Rightarrow> time \<Rightarrow> vector_row list" where
  "rows_written ev stamp vs model now = map (written model now) (zip (records_for_event ev stamp) vs)"

lemma rows_written_length: "vectors_ok vs ev \<Longrightarrow> length (rows_written ev stamp vs model now) = length vs"
  by (simp add: rows_written_def vectors_ok_def)

lemma rows_written_nth:
  assumes "vectors_ok vs ev" and "i < length vs"
  shows "rows_written ev stamp vs model now ! i =
    row_of_record ((record_for ev stamp i (chunk_text (ev_text ev) None ! i))\<lparr>rec_indexed_at := now\<rparr>) (vs ! i) model"
  using assms by (simp add: rows_written_def vectors_ok_def records_nth written_def)

lemma rows_written_proper:
  assumes "vectors_ok vs ev"
  shows "proper (rows_written ev stamp vs model now)"
    and "list_all (\<lambda>r. \<not> orphan (ev_id ev) (length vs) r) (rows_written ev stamp vs model now)"
    and "distinct (map chunk_id (rows_written ev stamp vs model now))"
  using rows_written_length [OF assms, of stamp model now] rows_written_nth [OF assms, of _ stamp model now]
  by (auto simp: proper_def list_all_length orphan_def row_of_record_def record_for_def distinct_conv_nth chunk_key_inj)

lemma rows_written_supersede:
  assumes "vectors_ok vs ev" and "vectors_ok vs' ev" and "n \<le> length vs'"
  shows "list_all2 supersedes (take n (rows_written ev stamp vs model now)) (take n (rows_written ev stamp' vs' model' now'))"
proof -
  have "length vs = length vs'" using assms(1,2) by (simp add: vectors_ok_def)
  then show ?thesis
    using assms rows_written_length [OF assms(1), of stamp model now]
      rows_written_length [OF assms(2), of stamp' model' now']
    by (simp add: list_all2_conv_all_nth rows_written_nth supersedes_def row_of_record_def record_for_def
        overwrite_row_def)
qed

definition registered :: "string \<Rightarrow> database \<Rightarrow> bool" where
  "registered e d \<longleftrightarrow> row_of r_event e (event_indexing d) \<noteq> None"

lemma upsert_present: "row_of key (key new) t \<noteq> None \<Longrightarrow> upsert key new (\<lambda>r. r) t = t"
  by (induction t) (auto simp: table_simps)

lemma register_again: "registered e d \<Longrightarrow> register_indexing e d = d"
  by (rule database.equality) (simp_all add: register_indexing_def registered_def upsert_present)

lemma register_registers: "registered e (register_indexing e d)"
  by (simp add: registered_def register_row split: option.split)

definition settled_index :: "event \<Rightarrow> nat \<Rightarrow> vector_row list \<Rightarrow> vector_row list" where
  "settled_index ev n t = filter (\<lambda>r. \<not> orphan (ev_id ev) n r) t"

lemma index_event_put:
  assumes "vectors_ok vs ev"
  shows "vector_records (index_event ev (zip (records_for_event ev stamp) vs) model now d) =
    settled_index ev (length vs) (put_rows (rows_written ev stamp vs model now) (vector_records d))"
  using assms
  by (simp add: index_event_rows write_chunks_put settled_index_def orphan_def rows_written_def vectors_ok_def)

definition linked :: "event \<Rightarrow> (string \<times> string) list \<Rightarrow> (string \<times> string) list" where
  "linked ev t = (case ev_incident ev of None \<Rightarrow> t | Some i \<Rightarrow> if i = [] then t else insert_once (i, ev_id ev) t)"

lemma index_event_linked: "incident_events (index_event ev rvs model now d) = linked ev (incident_events d)"
  by (simp add: index_event_tables linked_def)

text \<open>Two databases that differ in what indexing rewrites are indexed to the same database.\<close>

definition ensured :: "event \<Rightarrow> database \<Rightarrow> database" where
  "ensured ev d = ensure_incident (ev_incident ev) (ev_service ev) (ev_ts ev) (no_title ev) d"

lemma index_event_same:
  assumes "vectors_ok vs ev"
    and "settled_index ev (length vs) (put_rows (rows_written ev stamp vs model now) (vector_records x)) =
      settled_index ev (length vs) (put_rows (rows_written ev stamp vs model now) (vector_records d))"
    and "event_indexing (register_indexing (ev_id ev) x) = event_indexing (register_indexing (ev_id ev) d)"
    and "incidents (ensured ev x) = incidents (ensured ev d)"
    and "incident_services (ensured ev x) = incident_services (ensured ev d)"
    and "linked ev (incident_events x) = linked ev (incident_events d)"
    and "llm_budget x = llm_budget d" "heartbeats x = heartbeats d" "heartbeat_log x = heartbeat_log d"
      "index_stats x = index_stats d"
  shows "index_event ev (zip (records_for_event ev stamp) vs) model now x =
    index_event ev (zip (records_for_event ev stamp) vs) model now d"
  using assms
  by (intro database.equality)
    (simp_all add: index_event_put index_event_receipts index_event_linked index_event_tables(1,2,4-) ensured_def)

lemma ensured_twice:
  "incidents d1 = incidents (ensured ev d) \<Longrightarrow> incidents (ensured ev d1) = incidents (ensured ev d)"
  "incident_services d1 = incident_services (ensured ev d) \<Longrightarrow>
     incident_services (ensured ev d1) = incident_services (ensured ev d)"
  by (simp_all add: ensured_def ensure_rows_twice)

lemma linked_twice: "linked ev (linked ev t) = linked ev t"
  by (simp add: linked_def split: option.split)

lemma ensured_field:
  "incidents x = incidents d \<Longrightarrow> incidents (ensured ev x) = incidents (ensured ev d)"
  "incident_services x = incident_services d \<Longrightarrow> incident_services (ensured ev x) = incident_services (ensured ev d)"
  by (simp_all add: ensured_def ensure_incident_def split: option.split)

text \<open>What each closing statement does to a table.\<close>

lemma closing_cases:
  assumes "s \<in> set (closing_statements ev n)"
  obtains (orphans) "\<And>d. s d = d\<lparr>vector_records := settled_index ev n (vector_records d)\<rparr>"
  | (incident) "\<And>d. s d = d\<lparr>incidents := incidents (ensured ev d)\<rparr>"
  | (service) "\<And>d. s d = d\<lparr>incident_services := incident_services (ensured ev d)\<rparr>"
  | (link) "\<And>d. s d = d\<lparr>incident_events := linked ev (incident_events d)\<rparr>"
proof -
  have "s = delete_orphans (ev_id ev) n \<or> s \<in> set (incident_statements ev) \<or> s \<in> set (link_statements ev)"
    using assms by (simp add: closing_statements_def)
  then consider "s = delete_orphans (ev_id ev) n" | "s = (\<lambda>d. d\<lparr>incidents := incidents (ensured ev d)\<rparr>)"
    | "s = (\<lambda>d. d\<lparr>incident_services := incident_services (ensured ev d)\<rparr>)"
    | "s = (\<lambda>d. d\<lparr>incident_events := linked ev (incident_events d)\<rparr>)"
    by (cases "ev_incident ev")
      (auto simp: incident_statements_def link_statements_def ensured_def ensure_incident_def no_title_def
        linked_def fun_eq_iff [of "link_event _ _"] link_event_def split: if_splits)
  then show ?thesis
    using that by cases (simp_all add: delete_orphans_def settled_index_def orphan_def)
qed

lemma closing_invariant:
  assumes "s \<in> set (closing_statements ev n)" and "index_inv d \<and> registered e d"
  shows "index_inv (s d) \<and> registered e (s d)"
  using assms(1)
  by (rule closing_cases) (use assms(2) in \<open>auto simp: index_inv_def registered_def settled_index_def keyed_filter\<close>)

lemma filter_filter_same: "filter P (filter P t) = filter P t"
  by simp

lemma closing_absorbed:
  assumes ok: "vectors_ok vs ev" and s: "s \<in> set (closing_statements ev (length vs))"
    and x: "index_inv x" "registered (ev_id ev) x"
  shows "index_event ev (zip (records_for_event ev stamp) vs) model now (s x) =
    index_event ev (zip (records_for_event ev stamp) vs) model now x"
proof -
  have reg: "event_indexing (register_indexing (ev_id ev) (s x)) = event_indexing (register_indexing (ev_id ev) x)"
  proof -
    have "registered (ev_id ev) (s x)" using closing_invariant [OF s] x by simp
    moreover have "event_indexing (s x) = event_indexing x" by (rule closing_cases [OF s]) simp_all
    ultimately show ?thesis using x(2) by (simp add: register_again)
  qed
  have put: "settled_index ev (length vs) (put_rows (rows_written ev stamp vs model now) (settled_index ev (length vs) t)) =
      settled_index ev (length vs) (put_rows (rows_written ev stamp vs model now) t)" if "proper t" for t
    using put_orphans [OF rows_written_proper(1,2) [OF ok] that, of stamp model now]
    by (simp add: settled_index_def) (metis filter_filter_same)
  note same = index_event_same [OF ok _ reg]
  show ?thesis
  proof (rule closing_cases [OF s])
    assume "\<And>d. s d = d\<lparr>vector_records := settled_index ev (length vs) (vector_records d)\<rparr>"
    then show ?thesis
      using put [OF inv_proper [OF x(1)]] by (intro same ensured_field) simp_all
  next
    assume "\<And>d. s d = d\<lparr>incidents := incidents (ensured ev d)\<rparr>"
    then show ?thesis by (intro same ensured_field(2) ensured_twice(1)) simp_all
  next
    assume "\<And>d. s d = d\<lparr>incident_services := incident_services (ensured ev d)\<rparr>"
    then show ?thesis by (intro same ensured_field(1) ensured_twice(2)) simp_all
  next
    assume "\<And>d. s d = d\<lparr>incident_events := linked ev (incident_events d)\<rparr>"
    then show ?thesis by (intro same ensured_field) (simp_all add: linked_twice)
  qed
qed

lemma records_zip_ok: "list_all (\<lambda>rv. record_ok (fst rv)) (zip (records_for_event ev stamp) vs)"
  using zip_all [OF records_all] by (rule list.pred_mono_strong) simp

text \<open>A crash among the writes of the chunks, then one among the closing statements.\<close>

lemma partial_writes_absorbed:
  fixes vs' :: "real list list" and stamp' now' :: time and model' :: "string option" and k :: nat
  assumes ok: "vectors_ok vs ev" and ok': "vectors_ok vs' ev" and d: "index_inv d"
  defines "x \<equiv> write_chunks (take k (zip (records_for_event ev stamp') vs')) model' now' (register_indexing (ev_id ev) d)"
  shows "index_event ev (zip (records_for_event ev stamp) vs) model now x =
      index_event ev (zip (records_for_event ev stamp) vs) model now d"
    and "index_inv x" and "registered (ev_id ev) x"
proof -
  let ?olds = "take k (rows_written ev stamp' vs' model' now')" and ?news = "rows_written ev stamp vs model now"
  have rows: "vector_records x = put_rows ?olds (vector_records d)"
    by (simp add: x_def write_chunks_put rows_written_def take_map)
  have "list_all2 supersedes (take (length ?olds) ?news) ?olds"
    using rows_written_supersede [OF ok ok', of k stamp model now stamp' model' now']
      rows_written_supersede [OF ok ok', of "length vs'" stamp model now stamp' model' now']
      rows_written_length [OF ok', of stamp' model' now'] by (cases "k < length vs'") simp_all
  then have put: "put_rows ?news (vector_records x) = put_rows ?news (vector_records d)"
    unfolding rows
    by (rule put_over_prefix) (use rows_written_proper(3) [OF ok'] in \<open>simp add: take_map [symmetric]\<close>)
  show registered: "registered (ev_id ev) x"
    using register_registers [of "ev_id ev" d] by (simp add: x_def registered_def)
  have rest: "event_indexing (register_indexing (ev_id ev) x) = event_indexing (register_indexing (ev_id ev) d)"
    unfolding register_again [OF registered] by (simp add: x_def)
  have frame: "llm_budget x = llm_budget d" "heartbeats x = heartbeats d" "heartbeat_log x = heartbeat_log d"
    "index_stats x = index_stats d" by (simp_all add: x_def register_indexing_def)
  show "index_event ev (zip (records_for_event ev stamp) vs) model now x =
      index_event ev (zip (records_for_event ev stamp) vs) model now d"
    by (intro index_event_same [OF ok _ rest] ensured_field)
      (simp_all only: put frame, simp_all add: x_def)
  have "list_all (\<lambda>rv. record_ok (fst rv)) (take k (zip (records_for_event ev stamp') vs'))"
    using records_zip_ok [of ev stamp' vs'] by (auto simp: list_all_iff dest: in_set_takeD)
  then show "index_inv x"
    unfolding x_def by (rule write_chunks_inv) (rule register_inv, rule d)
qed

lemma crash_steps:
  fixes a :: cut_run
  assumes "died_early ev a" and "at_ran a = Suc k"
  defines "rvs \<equiv> zip (records_for_event ev (at_stamp a)) (at_vectors a)"
  shows "crash ev a d = run_statements (take (k - length rvs) (closing_statements ev (length rvs)))
    (write_chunks (take k rvs) (at_model a) (at_now a) (register_indexing (ev_id ev) d))"
proof -
  have "take (k - length rvs) (closing_statements ev (length rvs) @ [complete_indexing (ev_id ev) (at_now a)]) =
      take (k - length rvs) (closing_statements ev (length rvs))"
    using assms(1,2) by (simp add: died_early_def attempt_statements_def index_statements_def rvs_def)
  then show ?thesis
    using assms(2)
    by (simp add: crash_def attempt_statements_def index_statements_def rvs_def [symmetric] take_map run_writes
        del: take_append) (simp add: take_map run_writes)
qed

lemma crash_absorbed:
  assumes ok: "vectors_ok vs ev" and a: "died_early ev a" and d: "index_inv d"
  shows "index_event ev (zip (records_for_event ev stamp) vs) model now (crash ev a d) =
      index_event ev (zip (records_for_event ev stamp) vs) model now d \<and> index_inv (crash ev a d)"
proof (cases "at_ran a")
  case 0
  with d show ?thesis by (simp add: crash_def)
next
  case (Suc k)
  let ?rvs = "zip (records_for_event ev (at_stamp a)) (at_vectors a)"
    and ?ix = "index_event ev (zip (records_for_event ev stamp) vs) model now"
  define x where "x = write_chunks (take k ?rvs) (at_model a) (at_now a) (register_indexing (ev_id ev) d)"
  have ok': "vectors_ok (at_vectors a) ev" using a by (simp add: died_early_def)
  then have n: "length ?rvs = length vs" using ok by (simp add: vectors_ok_def)
  have x: "?ix x = ?ix d \<and> index_inv x \<and> registered (ev_id ev) x"
    using partial_writes_absorbed [OF ok ok' d] by (simp add: x_def)
  have "?ix (run_statements (take j (closing_statements ev (length vs))) x) = ?ix d
      \<and> index_inv (run_statements (take j (closing_statements ev (length vs))) x)
      \<and> registered (ev_id ev) (run_statements (take j (closing_statements ev (length vs))) x)" for j
  proof (rule run_invariant [where I = "\<lambda>y. ?ix y = ?ix d \<and> index_inv y \<and> registered (ev_id ev) y"])
    fix s y
    assume s: "s \<in> set (closing_statements ev (length vs))" and y: "?ix y = ?ix d \<and> index_inv y \<and> registered (ev_id ev) y"
    from closing_absorbed [OF ok s, of y stamp model now] closing_invariant [OF s, of y "ev_id ev"] y
    show "?ix (s y) = ?ix d \<and> index_inv (s y) \<and> registered (ev_id ev) (s y)" by simp
  qed (rule x)
  then show ?thesis unfolding crash_steps [OF a Suc] x_def [symmetric] n by blast
qed

lemma crashes_absorbed:
  assumes "vectors_ok vs ev"
  shows "list_all (died_early ev) ats \<Longrightarrow> index_inv d \<Longrightarrow>
    index_event ev (zip (records_for_event ev stamp) vs) model now (crashes ev ats d) =
      index_event ev (zip (records_for_event ev stamp) vs) model now d"
proof (induction ats arbitrary: d)
  case (Cons a ats)
  with crash_absorbed [OF assms, of a d stamp model now] show ?case by (simp add: crashes_def)
qed (simp add: crashes_def)

subsection \<open>The redelivery\<close>

text \<open>A state of the worker whose database earlier attempts at \<open>ev\<close> left half written.\<close>

definition with_db :: "database \<Rightarrow> 'e world \<Rightarrow> 'e world" where
  "with_db d w = w\<lparr>db := d\<rparr>"

definition crashed :: "event \<Rightarrow> cut_run list \<Rightarrow> 'e embed_state \<Rightarrow> 'e embed_state" where
  "crashed ev ats s = s\<lparr>es_world := with_db (crashes ev ats (edb s)) (es_world s)\<rparr>"

lemma with_db_frame [simp]: "clock (with_db d w) = clock w" "db (with_db d w) = d" "with_db d' (with_db d w) = with_db d' w"
  by (simp_all add: with_db_def)

lemma note_version_with: "note_version ev (with_db d w) = with_db d (note_version ev w)"
  by (simp add: note_version_def with_db_def inc_counter_def)

lemma call_service_with: "call_service srv q (with_db d w) = (fst (call_service srv q w), with_db d (snd (call_service srv q w)))"
  by (simp add: call_service_def with_db_def split: prod.split)

lemma sleep_with: "sleep t (with_db d w) = with_db d (sleep t w)"
  by (simp add: sleep_def with_db_def)

lemma encode_attempts_with:
  "encode_attempts enc texts k n (with_db d w) =
     (fst (encode_attempts enc texts k n w), with_db d (snd (encode_attempts enc texts k n w)))"
proof (induction n arbitrary: k w)
  case (Suc n)
  then show ?case by (auto simp: call_service_with sleep_with split: prod.split sum.split)
qed simp

lemma index_vectors_with:
  assumes "vectors_ok vs ev \<Longrightarrow> index_event ev (zip recs vs) (model_name cfg) (clock w) d =
      index_event ev (zip recs vs) (model_name cfg) (clock w) (db w)"
    and "index_vectors cfg ev recs vs (s\<lparr>es_world := w\<rparr>) = (Inr u, s')"
    and "length recs = length (chunk_text (ev_text ev) None)"
  shows "index_vectors cfg ev recs vs (s\<lparr>es_world := with_db d w\<rparr>) = (Inr u, s')"
proof -
  have "vectors_ok vs ev"
    using assms(2,3) by (auto simp: index_vectors_def vectors_ok_def list_ex_iff list_all_iff split: if_splits)
  from assms(1) [OF this] assms(2) show ?thesis
    by (simp add: index_vectors_def with_db_def split: if_splits)
qed

lemma died_early_chunks: "died_early ev a \<Longrightarrow> chunk_text (ev_text ev) None \<noteq> []"
  by (auto simp: died_early_def vectors_ok_def)

lemma crashed_parse: "parse_now cfg value (crashed ev ats s) = parse_now cfg value s"
  by (simp add: parse_now_def crashed_def with_db_def)

text \<open>C10. However often the worker died while it indexed a message, and after whichever statement short of the
  receipt's stamp, with whatever vectors, model name and clock: handling the redelivered message to the
  end gives the state it would have given had it never died, the index with the order of its rows, the
  receipt with its first observation, the incidents, the metrics and the heartbeat included.\<close>

theorem crashed_indexing_resumes:
  assumes "parse_now cfg value s = Inr ev" and "index_inv (edb s)" and "list_all (died_early ev) ats"
    and "handle cfg value s = (Inr (), s')" and "es_streak s' = 0"
  shows "handle cfg value (crashed ev ats s) = (Inr (), s')"
proof (cases "chunk_text (ev_text ev) None = []")
  case True
  then have "ats = []" using assms(3) died_early_chunks by (cases ats) auto
  then show ?thesis using assms(4) by (simp add: crashed_def crashes_def with_db_def)
next
  case False
  define w0 where "w0 = note_version ev (es_world s)"
  let ?d = "crashes ev ats (edb s)" and ?recs = "records_for_event ev (clock w0)"
  let ?enc = "encode_attempts (encode cfg) (map rec_text ?recs) 0 (attempts cfg)"
  have recs: "?recs \<noteq> []" using False by (metis length_0_conv records_length)
  obtain r w1 where e: "?enc w0 = (r, w1)" by force
  have w1: "db w1 = edb s" using encode_attempts_db [OF e] by (simp add: w0_def note_version_def)
  have h: "handle cfg value s = (if attempts cfg = 0 then (Inl (OtherError ''UnboundLocalError''), s\<lparr>es_parses := Suc (es_parses s), es_world := w0\<rparr>)
      else case r of Inl x \<Rightarrow> dead_letter cfg (gave_up cfg x) value True (s\<lparr>es_parses := Suc (es_parses s), es_world := w1\<rparr>)
        | Inr vs \<Rightarrow> index_vectors cfg ev ?recs vs (s\<lparr>es_parses := Suc (es_parses s), es_world := w1\<rparr>))"
    using assms(1) recs e by (simp add: handle_def w0_def [symmetric] Let_def split: sum.split)
  have n: "attempts cfg \<noteq> 0" using h assms(4) by (simp split: if_splits)
  show ?thesis
  proof (cases r)
    case (Inl x)
    with h n assms(4) have "dead_letter cfg (gave_up cfg x) value True (s\<lparr>es_parses := Suc (es_parses s), es_world := w1\<rparr>) = (Inr (), s')" by simp
    from dead_letter_frame(3) [OF this] assms(5) show ?thesis by simp
  next
    case (Inr vs)
    with h n assms(4) have "index_vectors cfg ev ?recs vs (s\<lparr>es_parses := Suc (es_parses s), es_world := w1\<rparr>) = (Inr (), s')" by simp
    then have "index_vectors cfg ev ?recs vs (s\<lparr>es_parses := Suc (es_parses s), es_world := with_db ?d w1\<rparr>) = (Inr (), s')"
      by (intro index_vectors_with) (simp_all add: w1 crashes_absorbed [OF _ assms(3,2)])
    moreover have "handle cfg value (crashed ev ats s) = index_vectors cfg ev ?recs vs (s\<lparr>es_parses := Suc (es_parses s), es_world := with_db ?d w1\<rparr>)"
      unfolding handle_def [of cfg "value" "crashed ev ats s"] crashed_parse assms(1)
      using recs n encode_attempts_with [of "encode cfg" "map rec_text ?recs" 0 "attempts cfg" ?d w0] e Inr
      by (simp add: crashed_def note_version_with w0_def [symmetric] Let_def)
    ultimately show ?thesis by simp
  qed
qed

text \<open>The worker dies after it has written the chunk, and again after the orphans, with other vectors and an older
  clock; the redelivery leaves what a first run leaves.\<close>

definition demo_crashes :: "cut_run list" where
  "demo_crashes =
     [\<lparr>at_stamp = 1000000, at_vectors = [replicate 768 1], at_model = None, at_now = 1000005, at_ran = 2\<rparr>,
      \<lparr>at_stamp = 1500000, at_vectors = [replicate 768 2], at_model = Some ''old'', at_now = 1500005, at_ran = 3\<rparr>]"

lemma demo_records: "records_for_event demo_note t = [record_for demo_note t 0 ''we look'']"
proof -
  have "ev_text demo_note = ''we look''" by (simp add: demo_note_def)
  then show ?thesis by (simp add: records_for_event_def demo_chunks)
qed

theorem crashed_indexing_resumes_witness:
  "handle demo_config ''note'' (crashed demo_note demo_crashes demo_start) = (Inr (), demo_once)
     \<and> edb (crashed demo_note demo_crashes demo_start) \<noteq> edb demo_start"
proof
  show "handle demo_config ''note'' (crashed demo_note demo_crashes demo_start) = (Inr (), demo_once)"
  proof (rule crashed_indexing_resumes)
    show "parse_now demo_config ''note'' demo_start = Inr demo_note" by (simp add: demo_config_def parse_now_def)
    show "index_inv (edb demo_start)" by (simp add: demo_start_def start_embedder_def index_inv_empty)
    show "list_all (died_early demo_note) demo_crashes"
      by (simp add: demo_crashes_def died_early_def vectors_ok_def demo_note_def demo_chunks EMBEDDING_DIM_def
          attempt_statements_def index_statements_def closing_statements_def)
    show "handle demo_config ''note'' demo_start = (Inr (), demo_once)" "es_streak demo_once = 0"
      using demo_handle [of demo_start] by (simp_all add: demo_once_def prod_eq_iff)
  qed
  have "event_indexing (edb (crashed demo_note demo_crashes demo_start)) \<noteq> event_indexing (edb demo_start)"
    by (simp add: crashed_def crashes_def crash_def demo_crashes_def attempt_statements_def index_statements_def
        closing_statements_def demo_records demo_start_def start_embedder_def empty_database_def
        register_indexing_def upsert_record_def delete_orphans_def Let_def numeral_2_eq_2 numeral_3_eq_3)
  then show "edb (crashed demo_note demo_crashes demo_start) \<noteq> edb demo_start" by metis
qed

end
