(* ===== verification/Spec2Isabelle.thy ===== *)
theory Spec2Isabelle
  imports Concurrency Timeframe Indexing Autopilot Poller Connection IndexReady Supervisor Freshness LiveRetrieval
    DemoTrigger Stream ReplayDemo Processes StreamHealth Pipeline Crash
begin

text \<open>
  \<^bold>\<open>Freshet: a verification development.\<close> Freshet (\<^verbatim>\<open>src/freshet\<close>) watches public status pages, indexes every update
  and posts cited incident briefs to Slack. A \<^emph>\<open>poller\<close> reads the feeds and publishes updates to Kafka; a Flink SQL
  \<^emph>\<open>stream job\<close> removes duplicates and derives the transitions of incidents; an \<^emph>\<open>embedding worker\<close> turns updates into
  searchable chunks in Postgres; the \<^emph>\<open>autopilot\<close> consumes the transitions, writes a brief, progress update or
  postmortem through a language model within a budget, posts it, and answers questions in the Slack thread.

  \<^bold>\<open>How the parts interact.\<close> They share nothing but Kafka topics and one database. A message is a string that the
  next process parses; a table is a list of rows in the order of insertion, changed by one function per SQL
  statement. So a handler is a function from a \<open>world\<close> (\<open>Database\<close>: the tables, the database clock, the process's
  metrics and caches, and the state \<open>env\<close> of whatever is outside the repository) to a result and a new world, and a
  process is the Kafka loop (\<open>Kafka\<close>) over its handler. \<open>Workers\<close> and \<open>Concurrency\<close> interleave several processes over
  one row as a step relation.

  \<^bold>\<open>Theories, from the ground up.\<close>
  \<^item> \<open>Prelude\<close>: exceptions, results, Python's string operations, tables keyed by a column.
    \<open>Regex\<close>: the part of \<^verbatim>\<open>re\<close> the code uses, as a backtracking matcher with groups and a \<open>sub\<close>/\<open>split\<close>/\<open>findall\<close>.
    \<open>Civil\<close>, \<open>Iso\<close>, \<open>Timestamps\<close>: calendar dates, \<^verbatim>\<open>datetime.isoformat\<close>/\<^verbatim>\<open>fromisoformat\<close> and their round trip.
  \<^item> \<open>Interfaces\<close>: the contracts between components as locales: a throttle, the lease on a delivery slot, a narrator
    (a composer that changes nothing but the budget) and a messenger (a sink that changes no table). \<open>Kafka\<close> adds
    \<open>output_first\<close>, the contract of a consumer whose outputs are durable before its offsets. Each is interpreted on
    the model's own operations in the theory that defines them.
  \<^item> Ingestion: \<open>Statuspage\<close> (\<^verbatim>\<open>ingest/statuspage.py\<close>, \<^verbatim>\<open>sources.py\<close>), \<open>Fetching\<close>, \<open>Pool\<close>
    (the threads of a sweep), \<open>Poller\<close> (\<^verbatim>\<open>ingest/poller.py\<close>, \<^verbatim>\<open>registry.py\<close>), \<open>Stream\<close>
    (\<^verbatim>\<open>stream/dedup_job.sql\<close>), \<open>StreamHealth\<close> (\<^verbatim>\<open>stream/health.py\<close>).
  \<^item> Wire and index: \<open>Lifecycle\<close>, \<open>Schemas\<close> (the two message formats), \<open>Replay\<close> (producers, dead letters and their
    replay), \<open>Heartbeat\<close> (heartbeat and maintenance), \<open>Chunking\<close>, \<open>Metrics\<close>, \<open>Embedding\<close>, \<open>Embedder\<close> (the worker's statements and
    handler), \<open>Indexing\<close> (what it guarantees), \<open>Crash\<close> (the worker dying between two statements),
    \<open>Connection\<close> (\<^verbatim>\<open>common/db.py\<close>).
  \<^item> Retrieval and generation: \<open>Retrieval\<close> (\<^verbatim>\<open>rag/retrieval.py\<close>, \<^verbatim>\<open>pipeline/index_stats.py\<close>), \<open>Timeframe\<close>, \<open>Composer\<close>,
    \<open>Budget\<close> (\<^verbatim>\<open>rag/\<close>).
  \<^item> Autopilot: \<open>Brief\<close> (\<^verbatim>\<open>brief.py\<close>, \<^verbatim>\<open>impact.py\<close>), \<open>Recurrence\<close>, \<open>Investigate\<close>, \<open>Sinks\<close>, \<open>Consumer\<close> (every statement and
    handler of \<^verbatim>\<open>consumer.py\<close>), \<open>Delivery\<close> (what one consumer guarantees), \<open>ThreadAgent\<close>, \<open>Autopilot\<close> (the process of
    \<^verbatim>\<open>__main__.py\<close>), \<open>DemoTrigger\<close>, \<open>ReplayDemo\<close>.
  \<^item> Operations and evaluation: \<open>Supervisor\<close>, \<open>IndexReady\<close>, \<open>Processes\<close> (entry points), \<open>Freshness\<close>, \<open>LiveRetrieval\<close>.
  \<^item> \<open>Pipeline\<close>: the composition of the poller's topic, the stream job and the two workers.

  Definitions carry the names of the code's functions; a text block names the function where the name differs.

  \<^bold>\<open>What the theorems show.\<close>
  \<^item> \<^emph>\<open>Nothing is forgotten.\<close> From any feed to the database: the poller's saved validators are covered by
    acknowledged updates; the stream job, crashes included, emits every update and its transitions, each once when it
    does not crash, in a form both workers read as the same incident; the embedder process commits an offset only when
    every event up to it is indexed or dead-lettered; the autopilot process commits one only when the brief, update or
    postmortem of every event up to it is owed or delivered in the database, and no later step of any kind loses it.
    A commit covers every earlier record of its partition (\<open>Kafka.committed_past\<close>), so nothing is said of the newest
    record of a batch only. What the autopilot sets aside (an opening older than a day, an event from before the
    incident's opening, a resolution of an incident without a row) is decided by the state in which the event was
    handled (\<open>Autopilot.set_aside\<close> on the run over the polls before it). \<open>Pipeline\<close> composes
    these into one statement for a polled update, one for a polled transition, and one for a feed: one that will be
    answered with 304 from now on has each of its updates searchable or its own record dead-lettered, however the
    poller's threads interleave.
  \<^item> \<^emph>\<open>Nothing is done twice.\<close> Redelivered messages change nothing, nor do crashes between the statements
    of indexing. Posting is at least once, as the code says of itself: interleaved workers that respect their leases
    repeat a post only after one that was never recorded, because its worker died between the post and the mark or
    took it for a failure (\<open>Concurrency.repeats_only_unrecorded\<close>), and a theorem shows what happens when a lease runs
    out. The deliveries of the code are runs of that protocol, with the messages counted in the Slack channel by a
    watched client. No reply is answered twice; the requests that reach the model API in an hour, counted at the API,
    are bounded whatever happens.
  \<^item> \<^emph>\<open>Rehearsals.\<close> The captured replay carries out its plan, row by row, on temporary tables only.
  \<^item> \<^emph>\<open>What is said is grounded.\<close> A citation names an event of the evidence and carries its time; the evidence of a
    brief is the incident's own; recurrences are indexed precedents; search returns filtered records of the index,
    ranked by the reciprocal-rank sum.
  \<^item> \<^emph>\<open>Machinery.\<close> The Kafka loop's offsets, the supervisor's children, backoffs, the connection's retries, the
    readiness wait, the chunker, timestamps, and the two evaluations.

  Where the code does something other than it means to, a theorem states what it does: see
  \<open>Composer.nested_brackets_forge_a_citation\<close>, \<open>Composer.event_text_forges_evidence\<close>,
  \<open>Concurrency.slow_worker_posts_twice\<close>,
  \<open>Indexing.poison_defeats_the_breaker\<close>, \<open>Delivery.unknown_resolution_is_dropped\<close>,
  \<open>Timeframe.span_beyond_the_calendar_raises\<close>, \<open>Statuspage.new_year_in_tokyo_is_dated_a_year_early\<close>,
  \<open>Statuspage.a_same_minute_update_takes_the_key\<close>, \<open>Fetching.lower_case_etag_is_not_remembered\<close>,
  \<open>Fetching.cap_is_on_the_compressed_bytes\<close>, \<open>Connection.lost_reply_repeats_the_statement\<close>,
  \<open>Supervisor.failed_start_leaves_a_child_running\<close>, \<open>Autopilot.missing_key_is_a_runtime_error\<close>.

  \<^bold>\<open>Modelling choices.\<close>
  \<^item> Parameters stand for what is not in the repository: Slack, the model API, the embedding model, Kafka's broker and
    delivery reports, the HTTP library, the XML parser, hashes, JSON text, vector distances, full-text search and
    collation of Postgres, Flink's reading of columns, the operating system's processes. They are functions, often with
    a state, that may fail at any call; where a theorem relies on one, its hypothesis says how.
  \<^item> A character is a code point below 256, a \<^verbatim>\<open>float\<close> a real number, a \<^verbatim>\<open>datetime\<close> a number of microseconds in the
    calendar's range, with \<^verbatim>\<open>OverflowError\<close> where the code can leave it; Python's integers are \<open>int\<close>.
  \<^item> A parser of messages takes, besides the text, the number of the fresh id and the time of the parse, which
    \<^verbatim>\<open>schemas.py\<close> uses as defaults: two parses of a message without its own id give different events.
  \<^item> There is one clock, the database's; statements take no time and calls to services any number of microseconds.
    Statements succeed (\<open>Crash\<close> lets a worker die between two of them; \<open>Connection\<close> shows what the
    wrapper makes of those that do not).
  \<^item> Loops over input are recursion on it: a process runs over a list of polls, sweeps or happenings of any length, so
    a theorem about all of them covers every finite run. The supervisor's rounds are counted by a number that runs
    out (\<open>Supervising\<close>); the theorems hold for every number. The readiness wait is a partial function whose termination is
    proved; the wait for the index terminates by its deadline.
  \<^item> A task of the poller's thread pool moves by one access to the shared validators and backoff at a time (\<open>step_task\<close>), in
    any order a schedule gives; the empty schedule is the sequential code. The monotonic and the wall clock of the poller
    advance together.

  \<^bold>\<open>Not modelled.\<close> Parsing of command lines, logging, what the Prometheus client does with the collectors, the text of
  the system prompt, the address of the database, some explanatory texts of the freshness report, reading and writing of
  result files, database migrations, shell scripts, dashboards and the tests: none of them has behaviour beyond a
  library's or a constant's.
\<close>

end
